(* ===== verification/Kernel_Prelude.thy ===== *)
theory Kernel_Prelude
  imports Main "HOL-Library.Word" "HOL-Library.Monad_Syntax"
    "HOL-Library.Char_ord" "HOL-Library.List_Lexorder"
begin

text \<open>
  Shared vocabulary of the Qunix kernel development: the machine integers of the
  Rust code, the bit operations on u64 words it uses for its bitmaps
  (\<open>1 << n\<close>, \<open>|=\<close>, \<open>&= !\<close>, \<open>trailing_zeros\<close>), bitmaps spread over an array of
  words, and the standard library's BTreeMap as an association list that is kept
  in key order.  Two interfaces are stated as locales and interpreted here: a set
  of small numbers (\<open>bit_set\<close>) and a finite map (\<open>kv_map\<close>).
\<close>

unbundle bit_operations_syntax

named_theorems bits_simps \<open>membership in a bitmap after one operation\<close>
named_theorems bt_simps \<open>lookup in an ordered map after one operation\<close>

section \<open>Machine integers\<close>

type_synonym u8 = "8 word"
type_synonym u16 = "16 word"
type_synonym u32 = "32 word"
type_synonym u64 = "64 word"
type_synonym pid = "32 word"

lemma u32_unat_add: "unat a + unat b < 2 ^ 32 \<Longrightarrow> unat (a + b) = unat a + unat b" for a b :: u32
  by (subst unat_add_lem [symmetric]) simp

lemma u32_unat_Suc: "unat a + 1 < 2 ^ 32 \<Longrightarrow> unat (a + 1) = unat a + 1" for a :: u32
  using u32_unat_add [of a 1] by simp

section \<open>Single bits of a word\<close>

definition bit_mask :: "nat \<Rightarrow> u64" where
  "bit_mask n = push_bit n 1"

definition trailing_zeros :: "u64 \<Rightarrow> nat" where
  "trailing_zeros w = length (takeWhile (\<lambda>i. \<not> bit w i) [0..<64])"

lemma bit_bit_mask [bits_simps]: "bit (bit_mask n) m \<longleftrightarrow> m = n \<and> n < 64"
  by (auto simp: bit_mask_def bit_simps)

lemma bit_or_mask [bits_simps]:
  "n < 64 \<Longrightarrow> bit (w OR bit_mask n) m \<longleftrightarrow> m = n \<or> bit w m"
  by (auto simp: bit_or_iff bit_bit_mask)

lemma bit_and_not_mask [bits_simps]:
  "bit (w AND NOT (bit_mask n)) m \<longleftrightarrow> m \<noteq> n \<and> bit w m" for w :: u64
  by (auto simp: bit_and_iff bit_not_iff bit_bit_mask dest: bit_imp_le_length)

lemma and_mask_nonzero [bits_simps]:
  "w AND bit_mask n \<noteq> 0 \<longleftrightarrow> n < 64 \<and> bit w n"
proof -
  have "w AND bit_mask n \<noteq> 0 \<longleftrightarrow> (\<exists>m. bit (w AND bit_mask n) m)"
    by (metis bit_0_eq bot_apply bot_bool_def bit_eq_iff)
  then show ?thesis by (auto simp: bit_and_iff bit_bit_mask)
qed

lemma u64_nonzero_iff: "w \<noteq> 0 \<longleftrightarrow> (\<exists>n<64. bit w n)" for w :: u64
  using bit_imp_le_length [of w] by (auto simp: bit_eq_iff)

lemma trailing_zeros_least:
  assumes "w \<noteq> 0"
  shows "trailing_zeros w < 64" "bit w (trailing_zeros w)"
    "\<And>i. i < trailing_zeros w \<Longrightarrow> \<not> bit w i"
proof -
  let ?p = "\<lambda>i. \<not> bit w i"
  obtain n where "n < 64" "bit w n" using assms u64_nonzero_iff by blast
  then have ne: "takeWhile ?p [0..<64] \<noteq> [0..<64]"
    by (metis (no_types, lifting) atLeastLessThan_iff le0 set_takeWhileD set_upt)
  then show lt: "trailing_zeros w < 64"
    unfolding trailing_zeros_def
    by (metis diff_zero le_neq_implies_less length_takeWhile_le length_upt takeWhile_eq_take take_all order_refl)
  show "bit w (trailing_zeros w)"
    using nth_length_takeWhile [of ?p "[0..<64]"] lt by (simp add: trailing_zeros_def)
  show "\<not> bit w i" if "i < trailing_zeros w" for i
    using nth_mem [of i "takeWhile ?p [0..<64]"] that lt
    by (auto simp: trailing_zeros_def takeWhile_nth dest: set_takeWhileD)
qed

section \<open>Bitmaps over an array of words\<close>

text \<open>
  The kernel's bitmaps are arrays of u64: bit \<open>i\<close> is bit \<open>i mod 64\<close> of word
  \<open>i div 64\<close>.  An index past the array panics in the source; the operations
  below are the ones inside the array.
\<close>

definition bm_test :: "u64 list \<Rightarrow> nat \<Rightarrow> bool" where
  "bm_test ws i = (ws ! (i div 64) AND bit_mask (i mod 64) \<noteq> 0)"

definition bm_set :: "u64 list \<Rightarrow> nat \<Rightarrow> u64 list" where
  "bm_set ws i = ws[i div 64 := ws ! (i div 64) OR bit_mask (i mod 64)]"

definition bm_clr :: "u64 list \<Rightarrow> nat \<Rightarrow> u64 list" where
  "bm_clr ws i = ws[i div 64 := ws ! (i div 64) AND NOT (bit_mask (i mod 64))]"

lemma bm_length [simp]: "length (bm_set ws i) = length ws" "length (bm_clr ws i) = length ws"
  by (simp_all add: bm_set_def bm_clr_def)

lemma bm_test_bit: "bm_test ws i \<longleftrightarrow> bit (ws ! (i div 64)) (i mod 64)"
  by (simp add: bm_test_def and_mask_nonzero)

lemma div_mod_64_eq: "i div 64 = j div 64 \<Longrightarrow> i mod 64 = j mod 64 \<Longrightarrow> i = j" for i j :: nat
  by (metis div_mult_mod_eq)

lemma bm_test_set [bits_simps]:
  "i div 64 < length ws \<Longrightarrow> bm_test (bm_set ws i) j \<longleftrightarrow> j = i \<or> bm_test ws j"
  by (auto simp: bm_test_bit bm_set_def nth_list_update bit_or_mask dest: div_mod_64_eq)

lemma bm_test_clr [bits_simps]:
  "i div 64 < length ws \<Longrightarrow> bm_test (bm_clr ws i) j \<longleftrightarrow> j \<noteq> i \<and> bm_test ws j"
  by (auto simp: bm_test_bit bm_clr_def nth_list_update bit_and_not_mask dest: div_mod_64_eq)

lemma bm_test_zero: "i div 64 < n \<Longrightarrow> \<not> bm_test (replicate n 0) i"
  by (simp add: bm_test_bit)

text \<open>
  The contract every bitmap of the kernel offers its users: a finite set of
  numbers below a capacity.  The run queues, the buddy allocator, the signal sets
  and the system call filters each interpret it.
\<close>

locale bit_set =
  fixes cap :: "'s \<Rightarrow> nat"
    and test :: "'s \<Rightarrow> nat \<Rightarrow> bool"
    and ins :: "'s \<Rightarrow> nat \<Rightarrow> 's"
    and del :: "'s \<Rightarrow> nat \<Rightarrow> 's"
  assumes cap_ins: "cap (ins s i) = cap s"
    and cap_del: "cap (del s i) = cap s"
    and test_ins: "i < cap s \<Longrightarrow> j < cap s \<Longrightarrow> test (ins s i) j \<longleftrightarrow> j = i \<or> test s j"
    and test_del: "i < cap s \<Longrightarrow> j < cap s \<Longrightarrow> test (del s i) j \<longleftrightarrow> j \<noteq> i \<and> test s j"
begin

definition members :: "'s \<Rightarrow> nat set" where
  "members s = {i. i < cap s \<and> test s i}"

lemma members_ins: "i < cap s \<Longrightarrow> members (ins s i) = insert i (members s)"
  by (auto simp: members_def cap_ins test_ins)

lemma members_del: "i < cap s \<Longrightarrow> members (del s i) = members s - {i}"
  by (auto simp: members_def cap_del test_del)

lemma finite_members: "finite (members s)"
  by (rule finite_subset [of _ "{..<cap s}"]) (auto simp: members_def)

lemma cap_fold_ins: "cap (fold (\<lambda>i s. ins s i) is s) = cap s"
  by (induction "is" arbitrary: s) (auto simp: cap_ins)

lemma members_fold_ins:
  "\<forall>i\<in>set is. i < cap s \<Longrightarrow> members (fold (\<lambda>i s. ins s i) is s) = members s \<union> set is"
  by (induction "is" arbitrary: s) (auto simp: cap_ins members_ins)

end

interpretation bm: bit_set "\<lambda>ws. 64 * length ws" bm_test bm_set bm_clr
  by unfold_locales (simp_all add: bits_simps less_mult_imp_div_less mult.commute)

section \<open>Ordered maps\<close>

text \<open>
  A BTreeMap is the list of its entries in key order.  \<open>bt_adjust\<close> is an update
  through \<open>get_mut\<close>: it changes the value under a key that is present.
\<close>

type_synonym ('k, 'v) btree = "('k \<times> 'v) list"

definition bt_get :: "('k, 'v) btree \<Rightarrow> 'k \<Rightarrow> 'v option" where
  "bt_get m k = map_of m k"

fun bt_insert :: "'k::linorder \<Rightarrow> 'v \<Rightarrow> ('k, 'v) btree \<Rightarrow> ('k, 'v) btree" where
  "bt_insert k v [] = [(k, v)]"
| "bt_insert k v (e # m) =
     (if k < fst e then (k, v) # e # m
      else if k = fst e then (k, v) # m
      else e # bt_insert k v m)"

definition bt_remove :: "'k \<Rightarrow> ('k, 'v) btree \<Rightarrow> ('k, 'v) btree" where
  "bt_remove k m = filter (\<lambda>e. fst e \<noteq> k) m"

definition bt_adjust :: "'k \<Rightarrow> ('v \<Rightarrow> 'v) \<Rightarrow> ('k, 'v) btree \<Rightarrow> ('k, 'v) btree" where
  "bt_adjust k f m = map (\<lambda>e. if fst e = k then (k, f (snd e)) else e) m"

definition bt_keys :: "('k, 'v) btree \<Rightarrow> 'k list" where
  "bt_keys m = map fst m"

definition bt_sorted :: "('k::linorder, 'v) btree \<Rightarrow> bool" where
  "bt_sorted m = sorted_wrt (<) (bt_keys m)"

lemma bt_get_empty [bt_simps, simp]: "bt_get [] k = None"
  by (simp add: bt_get_def)

lemma bt_get_insert [bt_simps]:
  "bt_get (bt_insert k v m) j = (if j = k then Some v else bt_get m j)"
  by (induction k v m rule: bt_insert.induct) (auto simp: bt_get_def)

lemma bt_get_remove [bt_simps]:
  "bt_get (bt_remove k m) j = (if j = k then None else bt_get m j)"
  by (induction m) (auto simp: bt_get_def bt_remove_def)

lemma bt_get_adjust [bt_simps]:
  "bt_get (bt_adjust k f m) j = (if j = k then map_option f (bt_get m k) else bt_get m j)"
  by (induction m) (auto simp: bt_get_def bt_adjust_def)

lemma bt_keys_insert: "set (bt_keys (bt_insert k v m)) = insert k (set (bt_keys m))"
  by (induction k v m rule: bt_insert.induct) (auto simp: bt_keys_def)

lemma bt_keys_remove: "set (bt_keys (bt_remove k m)) = set (bt_keys m) - {k}"
  by (auto simp: bt_keys_def bt_remove_def)

lemma bt_keys_adjust [simp]: "bt_keys (bt_adjust k f m) = bt_keys m"
  by (simp add: bt_keys_def bt_adjust_def)

lemma bt_mem_keys: "k \<in> set (bt_keys m) \<longleftrightarrow> bt_get m k \<noteq> None"
  by (auto simp: bt_keys_def bt_get_def map_of_eq_None_iff)

lemma bt_sorted_empty [simp]: "bt_sorted []"
  by (simp add: bt_sorted_def bt_keys_def)

lemma bt_sorted_insert [intro]: "bt_sorted m \<Longrightarrow> bt_sorted (bt_insert k v m)"
proof (induction k v m rule: bt_insert.induct)
  case (2 k v e m)
  then show ?case
    using bt_keys_insert [of k v m]
    by (auto simp: bt_sorted_def bt_keys_def)
qed (simp add: bt_sorted_def bt_keys_def)

lemma bt_sorted_remove [intro]: "bt_sorted m \<Longrightarrow> bt_sorted (bt_remove k m)"
  by (induction m) (auto simp: bt_sorted_def bt_keys_def bt_remove_def)

lemma bt_sorted_adjust [intro]: "bt_sorted m \<Longrightarrow> bt_sorted (bt_adjust k f m)"
  by (simp add: bt_sorted_def)

lemma bt_sorted_distinct: "bt_sorted m \<Longrightarrow> distinct (bt_keys m)"
  by (auto simp: bt_sorted_def strict_sorted_iff)

lemma bt_sorted_get: "bt_sorted m \<Longrightarrow> (k, v) \<in> set m \<longleftrightarrow> bt_get m k = Some v"
  using bt_sorted_distinct [of m] by (simp add: bt_get_def bt_keys_def)

text \<open>The contract of the kernel's keyed tables.\<close>

locale kv_map =
  fixes empty :: 'm
    and get :: "'m \<Rightarrow> 'k \<Rightarrow> 'v option"
    and put :: "'k \<Rightarrow> 'v \<Rightarrow> 'm \<Rightarrow> 'm"
    and del :: "'k \<Rightarrow> 'm \<Rightarrow> 'm"
    and adj :: "'k \<Rightarrow> ('v \<Rightarrow> 'v) \<Rightarrow> 'm \<Rightarrow> 'm"
    and inv :: "'m \<Rightarrow> bool"
  assumes inv_empty: "inv empty"
    and inv_put: "inv m \<Longrightarrow> inv (put k v m)"
    and inv_del: "inv m \<Longrightarrow> inv (del k m)"
    and inv_adj: "inv m \<Longrightarrow> inv (adj k f m)"
    and get_empty: "get empty k = None"
    and get_put: "get (put k v m) j = (if j = k then Some v else get m j)"
    and get_del: "get (del k m) j = (if j = k then None else get m j)"
    and get_adj: "get (adj k f m) j = (if j = k then map_option f (get m k) else get m j)"
begin

definition holds_all :: "('k \<Rightarrow> 'v \<Rightarrow> bool) \<Rightarrow> 'm \<Rightarrow> bool" where
  "holds_all P m \<longleftrightarrow> (\<forall>k v. get m k = Some v \<longrightarrow> P k v)"

lemma holds_all_empty: "holds_all P empty"
  by (simp add: holds_all_def get_empty)

lemma holds_all_put: "holds_all P m \<Longrightarrow> P k v \<Longrightarrow> holds_all P (put k v m)"
  by (simp add: holds_all_def get_put)

lemma holds_all_del: "holds_all P m \<Longrightarrow> holds_all P (del k m)"
  by (simp add: holds_all_def get_del)

lemma holds_all_adj:
  "holds_all P m \<Longrightarrow> (\<And>v. get m k = Some v \<Longrightarrow> P k (f v)) \<Longrightarrow> holds_all P (adj k f m)"
  by (auto simp: holds_all_def get_adj)

lemma get_fold_put:
  "get (fold (\<lambda>e m. put (fst e) (snd e) m) es m) k =
     (case map_of (rev es) k of None \<Rightarrow> get m k | Some v \<Rightarrow> Some v)"
  by (induction es arbitrary: m) (auto simp: get_put map_add_def split: option.splits)

end

interpretation bt: kv_map "[]" bt_get bt_insert bt_remove bt_adjust bt_sorted
  by unfold_locales (auto simp: bt_simps)

end
