(* ===== verification/Run_Queue.thy ===== *)
theory Run_Queue
  imports Kernel_Prelude
begin

text \<open>
  The per-CPU run queue of kernel/src/sched/mod.rs: scheduling entities, time
  slices, the priority bitmap and the queue operations.  An index of the 140-entry
  queue array that is out of range panics in the source and is \<open>None\<close> here.  The
  count of runnable tasks is a natural number: there are at most 65536 processes,
  far below the range of the u32 of the source.
\<close>

section \<open>Entities and time slices\<close>

definition PRIO_NORMAL :: u8 where "PRIO_NORMAL = 120"
definition NUM_PRIO_LEVELS :: nat where "NUM_PRIO_LEVELS = 140"
abbreviation SCHED_NORMAL :: u8 where "SCHED_NORMAL \<equiv> 0"
abbreviation SCHED_FIFO :: u8 where "SCHED_FIFO \<equiv> 1"
abbreviation SCHED_RR :: u8 where "SCHED_RR \<equiv> 2"
abbreviation SCHED_IDLE :: u8 where "SCHED_IDLE \<equiv> 5"

definition RT_TIMESLICE_US :: nat where "RT_TIMESLICE_US = 1000"
definition NORMAL_BASE_US :: nat where "NORMAL_BASE_US = 4000"
definition NORMAL_GRANULARITY_US :: nat where "NORMAL_GRANULARITY_US = 100"
definition MIN_TIMESLICE_US :: nat where "MIN_TIMESLICE_US = 200"

definition timeslice_for :: "u8 \<Rightarrow> u8 \<Rightarrow> nat" where
  "timeslice_for prio policy =
     (if policy = SCHED_FIFO \<or> policy = SCHED_RR then RT_TIMESLICE_US
      else if policy = SCHED_IDLE then MIN_TIMESLICE_US
      else if prio < 100 then RT_TIMESLICE_US
      else max (NORMAL_BASE_US - (unat prio - 100) * NORMAL_GRANULARITY_US) MIN_TIMESLICE_US)"

record sched_entity =
  se_pid :: pid
  se_prio :: u8
  se_static_prio :: u8
  se_policy :: u8
  se_vruntime :: u64
  se_timeslice_us :: nat
  se_used_us :: u64
  se_cpu_affinity :: u64

definition sched_entity_new :: "pid \<Rightarrow> u8 \<Rightarrow> u8 \<Rightarrow> sched_entity" where
  "sched_entity_new p prio policy =
     \<lparr>se_pid = p, se_prio = prio, se_static_prio = prio, se_policy = policy, se_vruntime = 0,
      se_timeslice_us = timeslice_for prio policy, se_used_us = 0, se_cpu_affinity = 0\<rparr>"

section \<open>Priority bitmap\<close>

definition bitmap_set :: "u64 list \<Rightarrow> u8 \<Rightarrow> u64 list" where
  "bitmap_set bm prio = bm_set bm (unat prio)"

definition bitmap_clr :: "u64 list \<Rightarrow> u8 \<Rightarrow> u64 list" where
  "bitmap_clr bm prio = bm_clr bm (unat prio)"

primrec bitmap_scan :: "nat \<Rightarrow> u64 list \<Rightarrow> nat option" where
  "bitmap_scan i [] = None"
| "bitmap_scan i (w # ws) = (if w \<noteq> 0 then Some (i * 64 + trailing_zeros w) else bitmap_scan (Suc i) ws)"

definition bitmap_find_first :: "u64 list \<Rightarrow> nat option" where
  "bitmap_find_first bm = bitmap_scan 0 bm"

section \<open>Run queue\<close>

record run_queue =
  rq_queues :: "pid list list"
  rq_bitmap :: "u64 list"
  rq_nr_running :: nat
  rq_entities :: "(pid, sched_entity) btree"
  rq_clock_us :: u64
  rq_cpu_id :: u32
  rq_load_avg :: u64

definition run_queue_new :: "u32 \<Rightarrow> run_queue" where
  "run_queue_new cpu = \<lparr>rq_queues = replicate NUM_PRIO_LEVELS [], rq_bitmap = replicate 3 0,
     rq_nr_running = 0, rq_entities = [], rq_clock_us = 0, rq_cpu_id = cpu, rq_load_avg = 0\<rparr>"

definition rq_enqueue :: "pid \<Rightarrow> u8 \<Rightarrow> run_queue \<Rightarrow> run_queue option" where
  "rq_enqueue pd prio rq =
     (let p = unat prio in
      if NUM_PRIO_LEVELS \<le> p then None
      else Some (if pd \<in> set (rq_queues rq ! p) then rq
        else rq\<lparr>rq_queues := (rq_queues rq)[p := rq_queues rq ! p @ [pd]],
          rq_bitmap := bitmap_set (rq_bitmap rq) prio, rq_nr_running := rq_nr_running rq + 1\<rparr>))"

definition rq_dequeue :: "pid \<Rightarrow> u8 \<Rightarrow> run_queue \<Rightarrow> run_queue option" where
  "rq_dequeue pd prio rq =
     (let p = unat prio in
      if NUM_PRIO_LEVELS \<le> p then None
      else let before = length (rq_queues rq ! p);
               q = filter (\<lambda>x. x \<noteq> pd) (rq_queues rq ! p);
               removed = before - length q;
               rq1 = rq\<lparr>rq_queues := (rq_queues rq)[p := q]\<rparr>;
               rq2 = (if q = [] then rq1\<lparr>rq_bitmap := bitmap_clr (rq_bitmap rq1) prio\<rparr> else rq1) in
        Some (if 0 < removed \<and> 0 < rq_nr_running rq2
              then rq2\<lparr>rq_nr_running := rq_nr_running rq2 - 1\<rparr> else rq2))"

definition rq_pick_next :: "run_queue \<Rightarrow> (pid option \<times> run_queue) option" where
  "rq_pick_next rq =
     (case bitmap_find_first (rq_bitmap rq) of
        None \<Rightarrow> Some (None, rq)
      | Some p \<Rightarrow>
          if NUM_PRIO_LEVELS \<le> p then None
          else (case rq_queues rq ! p of
            [] \<Rightarrow> Some (None, rq)
          | pd # q \<Rightarrow>
              let rq1 = rq\<lparr>rq_queues := (rq_queues rq)[p := q]\<rparr>;
                  rq2 = (if q = [] then rq1\<lparr>rq_bitmap := bitmap_clr (rq_bitmap rq1) (of_nat p)\<rparr> else rq1) in
              Some (Some pd, if 0 < rq_nr_running rq2
                             then rq2\<lparr>rq_nr_running := rq_nr_running rq2 - 1\<rparr> else rq2)))"

definition rq_add_entity :: "sched_entity \<Rightarrow> run_queue \<Rightarrow> run_queue" where
  "rq_add_entity e rq = rq\<lparr>rq_entities := bt_insert (se_pid e) e (rq_entities rq)\<rparr>"

definition rq_entity :: "pid \<Rightarrow> run_queue \<Rightarrow> sched_entity option" where
  "rq_entity pd rq = bt_get (rq_entities rq) pd"

definition rq_entity_adjust :: "pid \<Rightarrow> (sched_entity \<Rightarrow> sched_entity) \<Rightarrow> run_queue \<Rightarrow> run_queue" where
  "rq_entity_adjust pd f rq = rq\<lparr>rq_entities := bt_adjust pd f (rq_entities rq)\<rparr>"

definition rq_remove_entity :: "pid \<Rightarrow> run_queue \<Rightarrow> run_queue" where
  "rq_remove_entity pd rq = rq\<lparr>rq_entities := bt_remove pd (rq_entities rq)\<rparr>"

section \<open>Invariant and the queue it represents\<close>

definition rq_inv :: "run_queue \<Rightarrow> bool" where
  "rq_inv rq \<longleftrightarrow> length (rq_queues rq) = NUM_PRIO_LEVELS \<and> length (rq_bitmap rq) = 3 \<and>
     (\<forall>p<192. bm_test (rq_bitmap rq) p \<longleftrightarrow> p < NUM_PRIO_LEVELS \<and> rq_queues rq ! p \<noteq> []) \<and>
     (\<forall>q\<in>set (rq_queues rq). distinct q) \<and>
     rq_nr_running rq = sum_list (map length (rq_queues rq))"

text \<open>The abstract run queue: the tasks in the order they will be picked.\<close>

definition rq_view :: "run_queue \<Rightarrow> (nat \<times> pid) list" where
  "rq_view rq = concat (map (\<lambda>p. map (Pair p) (rq_queues rq ! p)) [0..<NUM_PRIO_LEVELS])"

definition spec_enqueue :: "pid \<Rightarrow> nat \<Rightarrow> (nat \<times> pid) list \<Rightarrow> (nat \<times> pid) list" where
  "spec_enqueue pd p v =
     (if (p, pd) \<in> set v then v
      else takeWhile (\<lambda>x. fst x \<le> p) v @ [(p, pd)] @ dropWhile (\<lambda>x. fst x \<le> p) v)"

definition spec_dequeue :: "pid \<Rightarrow> nat \<Rightarrow> (nat \<times> pid) list \<Rightarrow> (nat \<times> pid) list" where
  "spec_dequeue pd p v = filter (\<lambda>x. x \<noteq> (p, pd)) v"

section \<open>The bitmap finds the least nonempty priority\<close>

lemma bitmap_scan_None: "bitmap_scan i ws = None \<longleftrightarrow> (\<forall>w\<in>set ws. w = 0)"
  by (induction ws arbitrary: i) auto

lemma bitmap_scan_Some:
  assumes "bitmap_scan i ws = Some p"
  shows "i * 64 \<le> p \<and> p < (i + length ws) * 64 \<and> bm_test ws (p - i * 64) \<and>
         (\<forall>j < p - i * 64. \<not> bm_test ws j)"
  using assms
proof (induction ws arbitrary: i)
  case (Cons w ws)
  show ?case
  proof (cases "w = 0")
    case True
    then have rec: "bitmap_scan (Suc i) ws = Some p" using Cons.prems by simp
    note ih = Cons.IH [OF rec]
    let ?j = "p - Suc i * 64"
    have e: "p - i * 64 = ?j + 64" using ih by auto
    have shift: "bm_test (w # ws) (k + 64) = bm_test ws k" for k
    proof -
      have "(k + 64) div 64 = Suc (k div 64)" by (simp add: div_add_self2)
      then show ?thesis by (simp add: bm_test_bit)
    qed
    have low: "\<not> bm_test (w # ws) k" if "k < 64" for k
      using that True by (simp add: bm_test_bit)
    have none: "\<not> bm_test (w # ws) k" if "k < ?j + 64" for k
    proof (cases "k < 64")
      case False
      then obtain k' where "k = k' + 64" by (metis add.commute le_iff_add not_less)
      then show ?thesis using that ih shift by simp
    qed (rule low)
    have "i * 64 \<le> p" "p < (i + length (w # ws)) * 64" using ih by auto
    moreover have "bm_test (w # ws) (?j + 64)" using ih shift by blast
    ultimately show ?thesis using none unfolding e by blast
  next
    case False
    then have p: "p = i * 64 + trailing_zeros w" using Cons.prems by simp
    note tz = trailing_zeros_least [OF False]
    show ?thesis using tz p by (auto simp: bm_test_bit)
  qed
qed simp

lemma bitmap_find_first_Some:
  assumes "bitmap_find_first bm = Some p" "length bm = 3"
  shows "p < 192" "bm_test bm p" "j < p \<Longrightarrow> \<not> bm_test bm j"
  using bitmap_scan_Some [of 0 bm p] assms by (auto simp: bitmap_find_first_def)

lemma bitmap_find_first_None:
  assumes "bitmap_find_first bm = None" "j < 64 * length bm"
  shows "\<not> bm_test bm j"
proof -
  have "j div 64 < length bm" using assms(2) by (simp add: less_mult_imp_div_less mult.commute)
  then have "bm ! (j div 64) \<in> set bm" by simp
  then have "bm ! (j div 64) = 0"
    using assms(1) by (simp add: bitmap_find_first_def bitmap_scan_None)
  then show ?thesis by (simp add: bm_test_bit)
qed

section \<open>Views\<close>

lemma upt_split_at: "p < n \<Longrightarrow> [0..<n] = [0..<p] @ p # [Suc p..<n]" for p n :: nat
  using upt_add_eq_append [of 0 p "n - p"] by (simp add: upt_conv_Cons)

definition view_below :: "pid list list \<Rightarrow> nat \<Rightarrow> (nat \<times> pid) list" where
  "view_below qs p = concat (map (\<lambda>i. map (Pair i) (qs ! i)) [0..<p])"

definition view_above :: "pid list list \<Rightarrow> nat \<Rightarrow> (nat \<times> pid) list" where
  "view_above qs p = concat (map (\<lambda>i. map (Pair i) (qs ! i)) [Suc p..<NUM_PRIO_LEVELS])"

lemma rq_view_split:
  "p < NUM_PRIO_LEVELS \<Longrightarrow>
   rq_view rq = view_below (rq_queues rq) p @ map (Pair p) (rq_queues rq ! p) @ view_above (rq_queues rq) p"
  by (simp add: rq_view_def view_below_def view_above_def upt_split_at)

lemma view_below_upd [simp]: "view_below (qs[p := q]) p = view_below qs p"
  unfolding view_below_def by (rule arg_cong [of _ _ concat], rule map_cong) auto

lemma view_above_upd [simp]: "view_above (qs[p := q]) p = view_above qs p"
  unfolding view_above_def by (rule arg_cong [of _ _ concat], rule map_cong) auto

lemma view_below_fst: "x \<in> set (view_below qs p) \<Longrightarrow> fst x < p"
  by (auto simp: view_below_def)

lemma view_above_fst: "x \<in> set (view_above qs p) \<Longrightarrow> p < fst x"
  by (auto simp: view_above_def)

lemma rq_view_upd:
  assumes "p < NUM_PRIO_LEVELS" "length (rq_queues rq) = NUM_PRIO_LEVELS"
    and "rq_queues rq' = (rq_queues rq)[p := q]"
  shows "rq_view rq' = view_below (rq_queues rq) p @ map (Pair p) q @ view_above (rq_queues rq) p"
  using assms by (simp add: rq_view_split [OF assms(1)])

lemma rq_view_mem: "(p, pd) \<in> set (rq_view rq) \<longleftrightarrow> p < NUM_PRIO_LEVELS \<and> pd \<in> set (rq_queues rq ! p)"
  by (auto simp: rq_view_def)

lemma length_rq_view:
  "length (rq_queues rq) = NUM_PRIO_LEVELS \<Longrightarrow>
   length (rq_view rq) = sum_list (map length (rq_queues rq))"
  by (simp add: rq_view_def length_concat comp_def)
    (metis (no_types, lifting) map_nth map_map comp_def map_eq_conv)

lemma takeWhile_split:
  assumes "\<forall>x\<in>set A. P x" "\<forall>x\<in>set B. \<not> P x"
  shows "takeWhile P (A @ B) = A" "dropWhile P (A @ B) = B"
  using assms by (induction A) (cases B; auto)+

lemma filter_all: "\<forall>x\<in>set xs. P x \<Longrightarrow> filter P xs = xs"
  by (induction xs) auto

section \<open>Every operation keeps the invariant and refines the view\<close>

lemma sum_list_length_upd:
  "p < length qs \<Longrightarrow> sum_list (map length (qs[p := q])) + length (qs ! p) =
     sum_list (map length qs) + length q" for qs :: "'a list list"
  by (induction qs arbitrary: p) (auto simp: nth_Cons' list_update_beyond split: nat.splits)

lemma rq_inv_upd:
  assumes inv: "rq_inv rq" and p: "p < NUM_PRIO_LEVELS" and q: "distinct q"
    and qs: "rq_queues rq' = (rq_queues rq)[p := q]"
    and bl: "length (rq_bitmap rq') = 3"
    and b: "\<forall>i<192. bm_test (rq_bitmap rq') i \<longleftrightarrow> (if i = p then q \<noteq> [] else bm_test (rq_bitmap rq) i)"
    and n: "rq_nr_running rq' + length (rq_queues rq ! p) = rq_nr_running rq + length q"
  shows "rq_inv rq'"
proof -
  have len: "length (rq_queues rq) = NUM_PRIO_LEVELS" using inv by (simp add: rq_inv_def)
  have "\<forall>x\<in>set (rq_queues rq'). distinct x"
    using inv q set_update_subset_insert [of "rq_queues rq" p q]
    unfolding qs rq_inv_def by blast
  moreover have "rq_nr_running rq' = sum_list (map length (rq_queues rq'))"
    using n sum_list_length_upd [of p "rq_queues rq" q] inv p len by (simp add: qs rq_inv_def)
  moreover have "bm_test (rq_bitmap rq') i \<longleftrightarrow> i < NUM_PRIO_LEVELS \<and> rq_queues rq' ! i \<noteq> []"
    if "i < 192" for i
    using that b inv p len by (cases "i = p") (auto simp: qs rq_inv_def)
  ultimately show ?thesis using len bl by (simp add: rq_inv_def qs)
qed

lemma rq_new_inv: "rq_inv (run_queue_new cpu)" "rq_view (run_queue_new cpu) = []"
proof -
  have "\<not> bm_test (replicate 3 0) p" if "p < 192" for p
    using that by (intro bm_test_zero) simp
  then show "rq_inv (run_queue_new cpu)"
    by (simp add: rq_inv_def run_queue_new_def NUM_PRIO_LEVELS_def)
  show "rq_view (run_queue_new cpu) = []"
    by (simp add: rq_view_def run_queue_new_def)
qed

lemma rq_enqueue_ok:
  assumes inv: "rq_inv rq" and p: "unat prio < NUM_PRIO_LEVELS"
  shows "\<exists>rq'. rq_enqueue pd prio rq = Some rq' \<and> rq_inv rq' \<and>
           rq_view rq' = spec_enqueue pd (unat prio) (rq_view rq) \<and>
           rq_entities rq' = rq_entities rq"
proof (cases "pd \<in> set (rq_queues rq ! unat prio)")
  case True
  then show ?thesis using inv p by (simp add: rq_enqueue_def spec_enqueue_def rq_view_mem)
next
  case False
  let ?p = "unat prio"
  let ?q = "rq_queues rq ! ?p @ [pd]"
  let ?r = "rq\<lparr>rq_queues := (rq_queues rq)[?p := ?q], rq_bitmap := bitmap_set (rq_bitmap rq) prio,
                rq_nr_running := rq_nr_running rq + 1\<rparr>"
  have len: "length (rq_queues rq) = NUM_PRIO_LEVELS" "length (rq_bitmap rq) = 3"
    using inv by (auto simp: rq_inv_def)
  have d: "distinct ?q" using inv p len False by (auto simp: rq_inv_def)
  have "?p div 64 < length (rq_bitmap rq)" using p len by (simp add: NUM_PRIO_LEVELS_def)
  then have "rq_inv ?r"
    by (intro rq_inv_upd [OF inv p d]) (simp_all add: len bitmap_set_def bits_simps)
  moreover have "rq_view ?r = spec_enqueue pd ?p (rq_view rq)"
  proof -
    let ?A = "view_below (rq_queues rq) ?p @ map (Pair ?p) (rq_queues rq ! ?p)"
    let ?B = "view_above (rq_queues rq) ?p"
    have v: "rq_view rq = ?A @ ?B" by (simp add: rq_view_split [OF p])
    have "\<forall>x\<in>set ?A. fst x \<le> ?p" "\<forall>x\<in>set ?B. \<not> fst x \<le> ?p"
      using view_below_fst view_above_fst by (fastforce, fastforce)
    note tw = takeWhile_split [OF this]
    have "(?p, pd) \<notin> set (rq_view rq)" using False by (simp add: rq_view_mem)
    then have "spec_enqueue pd ?p (rq_view rq) = ?A @ [(?p, pd)] @ ?B"
      unfolding spec_enqueue_def v by (simp only: tw if_False)
    then show ?thesis using rq_view_upd [OF p len(1), of ?r ?q] by simp
  qed
  ultimately show ?thesis using False p by (simp add: rq_enqueue_def Let_def)
qed

lemma length_filter_neq:
  "distinct q \<Longrightarrow> length (filter (\<lambda>x. x \<noteq> a) q) = length q - (if a \<in> set q then 1 else 0)"
  by (induction q) (auto simp: Suc_diff_Suc dest: length_pos_if_in_set)

lemma rq_nr_running_pos:
  assumes "rq_inv rq" "p < NUM_PRIO_LEVELS" "rq_queues rq ! p \<noteq> []"
  shows "0 < rq_nr_running rq"
proof -
  have len: "length (rq_queues rq) = NUM_PRIO_LEVELS"
    and n: "rq_nr_running rq = sum_list (map length (rq_queues rq))"
    using assms(1) by (simp_all add: rq_inv_def)
  have "length (rq_queues rq ! p) \<in> set (map length (rq_queues rq))" using assms len by auto
  then have "length (rq_queues rq ! p) \<le> rq_nr_running rq"
    unfolding n by (rule member_le_sum_list) simp
  then show ?thesis using assms(3) by (cases "rq_queues rq ! p") auto
qed

lemma rq_dequeue_ok:
  assumes inv: "rq_inv rq" and p: "unat prio < NUM_PRIO_LEVELS"
  shows "\<exists>rq'. rq_dequeue pd prio rq = Some rq' \<and> rq_inv rq' \<and>
           rq_view rq' = spec_dequeue pd (unat prio) (rq_view rq) \<and>
           rq_entities rq' = rq_entities rq"
proof -
  let ?p = "unat prio"
  let ?q = "filter (\<lambda>x. x \<noteq> pd) (rq_queues rq ! ?p)"
  have len: "length (rq_queues rq) = NUM_PRIO_LEVELS" "length (rq_bitmap rq) = 3"
    using inv by (auto simp: rq_inv_def)
  have d0: "distinct (rq_queues rq ! ?p)" using inv p len by (auto simp: rq_inv_def)
  then have d: "distinct ?q" by simp
  obtain rq' where r: "rq_dequeue pd prio rq = Some rq'"
    using p by (auto simp: rq_dequeue_def Let_def)
  have qs: "rq_queues rq' = (rq_queues rq)[?p := ?q]" and e: "rq_entities rq' = rq_entities rq"
    and bm: "rq_bitmap rq' = (if ?q = [] then bitmap_clr (rq_bitmap rq) prio else rq_bitmap rq)"
    and n: "rq_nr_running rq' = (if 0 < length (rq_queues rq ! ?p) - length ?q \<and> 0 < rq_nr_running rq
              then rq_nr_running rq - 1 else rq_nr_running rq)"
    using r p by (auto simp: rq_dequeue_def Let_def split: if_splits)
  have i64: "?p div 64 < length (rq_bitmap rq)" using p len by (simp add: NUM_PRIO_LEVELS_def)
  have "rq_inv rq'"
  proof (rule rq_inv_upd [OF inv p d qs])
    show "length (rq_bitmap rq') = 3" using len by (simp add: bm bitmap_clr_def)
    have "?q \<noteq> [] \<Longrightarrow> bm_test (rq_bitmap rq) ?p"
      using inv p by (auto simp: rq_inv_def NUM_PRIO_LEVELS_def)
    then show "\<forall>i<192. bm_test (rq_bitmap rq') i \<longleftrightarrow> (if i = ?p then ?q \<noteq> [] else bm_test (rq_bitmap rq) i)"
      using i64 by (auto simp: bm bitmap_clr_def bits_simps)
    have "length ?q = length (rq_queues rq ! ?p) - (if pd \<in> set (rq_queues rq ! ?p) then 1 else 0)"
      by (rule length_filter_neq [OF d0])
    moreover have "pd \<in> set (rq_queues rq ! ?p) \<Longrightarrow>
        0 < rq_nr_running rq \<and> 0 < length (rq_queues rq ! ?p)"
      using rq_nr_running_pos [OF inv p] by (auto dest: length_pos_if_in_set)
    ultimately show "rq_nr_running rq' + length (rq_queues rq ! ?p) = rq_nr_running rq + length ?q"
      unfolding n by (cases "pd \<in> set (rq_queues rq ! ?p)") (auto simp del: length_greater_0_conv)
  qed
  moreover have "rq_view rq' = spec_dequeue pd ?p (rq_view rq)"
  proof -
    have "filter (\<lambda>x. x \<noteq> (?p, pd)) (view_below (rq_queues rq) ?p) = view_below (rq_queues rq) ?p"
      by (rule filter_all) (use view_below_fst in fastforce)
    moreover have "filter (\<lambda>x. x \<noteq> (?p, pd)) (view_above (rq_queues rq) ?p) = view_above (rq_queues rq) ?p"
      by (rule filter_all) (use view_above_fst in fastforce)
    moreover have "filter (\<lambda>x. x \<noteq> (?p, pd)) (map (Pair ?p) (rq_queues rq ! ?p)) = map (Pair ?p) ?q"
      by (simp add: filter_map comp_def)
    ultimately show ?thesis
      using rq_view_upd [OF p len(1) qs] by (simp add: spec_dequeue_def rq_view_split [OF p])
  qed
  ultimately show ?thesis using r e by simp
qed

lemma rq_pick_next_ok:
  assumes inv: "rq_inv rq"
  shows "\<exists>rq'. rq_pick_next rq = Some (case rq_view rq of [] \<Rightarrow> None | x # _ \<Rightarrow> Some (snd x), rq') \<and>
           rq_inv rq' \<and> rq_view rq' = tl (rq_view rq) \<and> rq_entities rq' = rq_entities rq"
proof (cases "bitmap_find_first (rq_bitmap rq)")
  case None
  have len: "length (rq_bitmap rq) = 3" using inv by (simp add: rq_inv_def)
  have "rq_queues rq ! i = []" if "i < NUM_PRIO_LEVELS" for i
    using bitmap_find_first_None [OF None, of i] that inv len
    by (auto simp: rq_inv_def NUM_PRIO_LEVELS_def)
  then have "rq_view rq = []" by (simp add: rq_view_def)
  then show ?thesis using None inv by (simp add: rq_pick_next_def)
next
  case (Some p)
  have len: "length (rq_queues rq) = NUM_PRIO_LEVELS" "length (rq_bitmap rq) = 3"
    using inv by (auto simp: rq_inv_def)
  note first = bitmap_find_first_Some [OF Some len(2)]
  have p: "p < NUM_PRIO_LEVELS" and ne: "rq_queues rq ! p \<noteq> []"
    using first(1,2) inv by (auto simp: rq_inv_def)
  obtain pd q where pq: "rq_queues rq ! p = pd # q" using ne by (cases "rq_queues rq ! p") auto
  have below: "view_below (rq_queues rq) p = []"
  proof -
    have "rq_queues rq ! i = []" if "i < p" for i
      using first(3) [OF that] first(1) that p inv by (auto simp: rq_inv_def)
    then show ?thesis by (simp add: view_below_def)
  qed
  obtain rq' where r: "rq_pick_next rq = Some (Some pd, rq')"
    using Some p pq by (auto simp: rq_pick_next_def Let_def)
  have qs: "rq_queues rq' = (rq_queues rq)[p := q]" and e: "rq_entities rq' = rq_entities rq"
    and bm: "rq_bitmap rq' = (if q = [] then bitmap_clr (rq_bitmap rq) (of_nat p) else rq_bitmap rq)"
    and n: "rq_nr_running rq' = rq_nr_running rq - 1"
    using r Some p pq by (auto simp: rq_pick_next_def Let_def split: if_splits)
  have up: "unat (of_nat p :: u8) = p" using first(1) by (simp add: unat_of_nat)
  have i64: "p div 64 < length (rq_bitmap rq)" using first(1) len by simp
  have d: "distinct q" using inv p len pq nth_mem [of p "rq_queues rq"] by (auto simp: rq_inv_def)
  have "rq_inv rq'"
  proof (rule rq_inv_upd [OF inv p d qs])
    show "length (rq_bitmap rq') = 3" using len by (simp add: bm bitmap_clr_def)
    show "\<forall>i<192. bm_test (rq_bitmap rq') i \<longleftrightarrow> (if i = p then q \<noteq> [] else bm_test (rq_bitmap rq) i)"
      using i64 first(2) by (auto simp: bm bitmap_clr_def up bits_simps)
    show "rq_nr_running rq' + length (rq_queues rq ! p) = rq_nr_running rq + length q"
      using rq_nr_running_pos [OF inv p ne] by (simp add: n pq)
  qed
  moreover have "rq_view rq = (p, pd) # rq_view rq'"
    using rq_view_upd [OF p len(1) qs] below pq by (simp add: rq_view_split [OF p])
  ultimately show ?thesis using r e by simp
qed

section \<open>The contract of a ready queue\<close>

text \<open>
  What the scheduler relies on: a ready queue is a list of (priority, task) pairs
  in the order of picking, new tasks go behind the tasks of their own priority and
  before those of a worse one.
\<close>

fun pick_all :: "('q \<Rightarrow> (pid option \<times> 'q) option) \<Rightarrow> nat \<Rightarrow> 'q \<Rightarrow> pid list" where
  "pick_all pick 0 q = []"
| "pick_all pick (Suc n) q =
     (case pick q of Some (Some pd, q') \<Rightarrow> pd # pick_all pick n q' | _ \<Rightarrow> [])"

locale ready_queue =
  fixes new :: 'q
    and enq :: "pid \<Rightarrow> u8 \<Rightarrow> 'q \<Rightarrow> 'q option"
    and deq :: "pid \<Rightarrow> u8 \<Rightarrow> 'q \<Rightarrow> 'q option"
    and pick :: "'q \<Rightarrow> (pid option \<times> 'q) option"
    and inv :: "'q \<Rightarrow> bool"
    and view :: "'q \<Rightarrow> (nat \<times> pid) list"
  assumes new_ok: "inv new" "view new = []"
    and enq_ok: "inv q \<Longrightarrow> unat prio < NUM_PRIO_LEVELS \<Longrightarrow>
      \<exists>q'. enq pd prio q = Some q' \<and> inv q' \<and> view q' = spec_enqueue pd (unat prio) (view q)"
    and deq_ok: "inv q \<Longrightarrow> unat prio < NUM_PRIO_LEVELS \<Longrightarrow>
      \<exists>q'. deq pd prio q = Some q' \<and> inv q' \<and> view q' = spec_dequeue pd (unat prio) (view q)"
    and pick_ok: "inv q \<Longrightarrow>
      \<exists>q'. pick q = Some (case view q of [] \<Rightarrow> None | x # _ \<Rightarrow> Some (snd x), q') \<and>
           inv q' \<and> view q' = tl (view q)"
    and view_sorted: "inv q \<Longrightarrow> sorted (map fst (view q))"
begin

lemma pick_all_view: "inv q \<Longrightarrow> pick_all pick n q = take n (map snd (view q))"
proof (induction n arbitrary: q)
  case (Suc n)
  obtain q' where q': "pick q = Some (case view q of [] \<Rightarrow> None | x # _ \<Rightarrow> Some (snd x), q')"
    "inv q'" "view q' = tl (view q)" using pick_ok [OF Suc.prems] by blast
  show ?case using q' Suc.IH [OF q'(2)] by (cases "view q") simp_all
qed simp

lemma pick_best:
  assumes "inv q" "pick q = Some (Some pd, q')"
  shows "\<exists>p. (p, pd) \<in> set (view q) \<and> (\<forall>x\<in>set (view q). p \<le> fst x)"
proof -
  obtain p v where v: "view q = (p, pd) # v"
    using pick_ok [OF assms(1)] assms(2) by (cases "view q") auto
  then show ?thesis using view_sorted [OF assms(1)] by auto
qed

lemma enq_picked:
  assumes "inv q" "unat prio < NUM_PRIO_LEVELS" "enq pd prio q = Some q'"
    "(unat prio, pd) \<notin> set (view q)"
  shows "pick_all pick (Suc (length (filter (\<lambda>x. fst x \<le> unat prio) (view q)))) q' =
    map snd (filter (\<lambda>x. fst x \<le> unat prio) (view q)) @ [pd]"
proof -
  let ?P = "\<lambda>x. fst x \<le> unat prio"
  have tw: "takeWhile ?P xs = filter ?P xs" if "sorted (map fst xs)" for xs :: "(nat \<times> pid) list"
    using that by (induction xs) (auto intro!: filter_False [symmetric])
  obtain v: "inv q'" "view q' = spec_enqueue pd (unat prio) (view q)"
    using enq_ok [OF assms(1,2), of pd] assms(3) by auto
  then show ?thesis
    using assms(4) tw [OF view_sorted [OF assms(1)]]
    by (simp add: pick_all_view spec_enqueue_def del: pick_all.simps)
qed

end

lemma rq_view_sorted: "sorted (map fst (rq_view rq))"
proof -
  have "sorted (map fst (concat (map (\<lambda>p. map (Pair p) (qs ! p)) [0..<n])))" for qs :: "pid list list" and n
    by (induction n) (auto simp: sorted_append map_concat comp_def map_replicate_const)
  then show ?thesis by (simp add: rq_view_def)
qed

interpretation rqueue: ready_queue "run_queue_new cpu" rq_enqueue rq_dequeue rq_pick_next rq_inv rq_view for cpu
proof unfold_locales
  show "rq_inv (run_queue_new cpu)" "rq_view (run_queue_new cpu) = []" by (rule rq_new_inv)+
qed (use rq_enqueue_ok rq_dequeue_ok rq_pick_next_ok rq_view_sorted in blast)+

section \<open>Properties\<close>

lemma timeslice_le: "timeslice_for prio policy \<le> NORMAL_BASE_US"
  by (simp add: timeslice_for_def RT_TIMESLICE_US_def NORMAL_BASE_US_def MIN_TIMESLICE_US_def)

text \<open>C7. The run queue implements a stable priority list: enqueue puts a task that
  is not yet queued behind every task of the same or a better priority, dequeue
  removes exactly that task, pick_next returns the head, and all three keep the
  bitmap, the queues and the running count consistent and never panic for
  priorities below 140.\<close>

theorem run_queue_refines:
  assumes "rq_inv rq" "unat prio < NUM_PRIO_LEVELS"
  shows "(\<exists>rq'. rq_enqueue pd prio rq = Some rq' \<and> rq_inv rq' \<and>
            rq_view rq' = spec_enqueue pd (unat prio) (rq_view rq)) \<and>
         (\<exists>rq'. rq_dequeue pd prio rq = Some rq' \<and> rq_inv rq' \<and>
            rq_view rq' = spec_dequeue pd (unat prio) (rq_view rq)) \<and>
         (\<exists>rq'. rq_pick_next rq = Some (case rq_view rq of [] \<Rightarrow> None | x # _ \<Rightarrow> Some (snd x), rq') \<and>
            rq_inv rq' \<and> rq_view rq' = tl (rq_view rq))"
  using rqueue.enq_ok [OF assms] rqueue.deq_ok [OF assms] rqueue.pick_ok [OF assms(1)] by blast

theorem run_queue_refines_witness:
  "rq_inv (run_queue_new 0) \<and> unat (120 :: u8) < NUM_PRIO_LEVELS \<and>
   (\<exists>rq'. rq_enqueue 7 120 (run_queue_new 0) = Some rq' \<and> rq_view rq' = [(120, 7)])"
proof -
  have p: "unat (120 :: u8) < NUM_PRIO_LEVELS" by (simp add: NUM_PRIO_LEVELS_def)
  show ?thesis
    using run_queue_refines [OF rq_new_inv(1) p, of 7 0] p rq_new_inv [of 0]
    by (auto simp: spec_enqueue_def)
qed

text \<open>Waiting is bounded by the tasks ahead: a task that is enqueued is picked right
  after the tasks that were queued at the same or a better priority, in their
  order, and before every other one.\<close>

theorem enqueued_task_is_picked:
  assumes "rq_inv rq" "unat prio < NUM_PRIO_LEVELS" "rq_enqueue pd prio rq = Some rq'"
    and "(unat prio, pd) \<notin> set (rq_view rq)"
  shows "pick_all rq_pick_next (Suc (length (filter (\<lambda>x. fst x \<le> unat prio) (rq_view rq)))) rq' =
         map snd (filter (\<lambda>x. fst x \<le> unat prio) (rq_view rq)) @ [pd]"
  by (rule rqueue.enq_picked [OF assms])

theorem enqueued_task_is_picked_witness:
  "\<exists>rq'. rq_enqueue 9 120 (run_queue_new 0) = Some rq' \<and> pick_all rq_pick_next 1 rq' = [9]"
proof -
  have p: "unat (120 :: u8) < NUM_PRIO_LEVELS" by (simp add: NUM_PRIO_LEVELS_def)
  obtain rq' where r: "rq_enqueue 9 120 (run_queue_new 0) = Some rq'"
    using rq_enqueue_ok [OF rq_new_inv(1) p] by blast
  have "(unat (120 :: u8), 9) \<notin> set (rq_view (run_queue_new 0))" by (simp add: rq_new_inv)
  from enqueued_task_is_picked [OF rq_new_inv(1) p r this] r
  show ?thesis by (simp add: rq_new_inv del: pick_all.simps)
qed

text \<open>Time slices stay between 200 and 4000 microseconds, and a normal task of a
  worse priority never gets a longer slice than one of a better priority.\<close>

theorem timeslice_bounds:
  "MIN_TIMESLICE_US \<le> timeslice_for prio policy \<and> timeslice_for prio policy \<le> NORMAL_BASE_US \<and>
   (100 \<le> prio \<and> prio \<le> prio' \<longrightarrow>
      timeslice_for prio' SCHED_NORMAL \<le> timeslice_for prio SCHED_NORMAL)"
proof -
  have "timeslice_for prio' SCHED_NORMAL \<le> timeslice_for prio SCHED_NORMAL"
    if h: "100 \<le> prio" "prio \<le> prio'"
  proof -
    have "\<not> prio < 100" "\<not> prio' < 100" using h by auto
    moreover have "unat prio \<le> unat prio'" using h(2) by (simp add: word_le_nat_alt)
    ultimately show ?thesis by (auto simp: timeslice_for_def NORMAL_BASE_US_def NORMAL_GRANULARITY_US_def le_max_iff_disj)
  qed
  moreover have "MIN_TIMESLICE_US \<le> timeslice_for prio policy"
    by (simp add: timeslice_for_def RT_TIMESLICE_US_def MIN_TIMESLICE_US_def)
  ultimately show ?thesis using timeslice_le by blast
qed

theorem timeslice_bounds_witness:
  "timeslice_for 139 SCHED_NORMAL \<le> timeslice_for 120 SCHED_NORMAL \<and> timeslice_for 120 SCHED_NORMAL = 2000"
  using timeslice_bounds [of 120 0 139]
  by (simp add: timeslice_for_def NORMAL_BASE_US_def NORMAL_GRANULARITY_US_def MIN_TIMESLICE_US_def)

end
