(* ===== verification/Seccomp_Bpf.thy ===== *)
theory Seccomp_Bpf
  imports Kernel_Prelude
begin

text \<open>
  The seccomp filter machine of kernel/src/security/seccomp.rs: instruction
  decoding, the validator, the interpreter, the filter chain and the notification
  queue.  The interpreter's loop is \<open>run_loop\<close>; it reports how it ended, and \<open>run\<close>
  maps every way but a returned value to the kill action, as the code does.
  Program counters are natural numbers: a program has at most 4096
  instructions and offsets are below 2 to the 32, so usize additions never wrap.
\<close>

section \<open>Constants and instructions\<close>

abbreviation BPF_LD :: u16 where "BPF_LD \<equiv> 0x00"
abbreviation BPF_LDX :: u16 where "BPF_LDX \<equiv> 0x01"
abbreviation BPF_ST :: u16 where "BPF_ST \<equiv> 0x02"
abbreviation BPF_STX :: u16 where "BPF_STX \<equiv> 0x03"
abbreviation BPF_ALU :: u16 where "BPF_ALU \<equiv> 0x04"
abbreviation BPF_JMP :: u16 where "BPF_JMP \<equiv> 0x05"
abbreviation BPF_RET :: u16 where "BPF_RET \<equiv> 0x06"
abbreviation BPF_MISC :: u16 where "BPF_MISC \<equiv> 0x07"

abbreviation BPF_IMM :: u16 where "BPF_IMM \<equiv> 0x00"
abbreviation BPF_ABS :: u16 where "BPF_ABS \<equiv> 0x20"
abbreviation BPF_IND :: u16 where "BPF_IND \<equiv> 0x40"
abbreviation BPF_MEM :: u16 where "BPF_MEM \<equiv> 0x60"
abbreviation BPF_LEN :: u16 where "BPF_LEN \<equiv> 0x80"

abbreviation BPF_ADD :: u16 where "BPF_ADD \<equiv> 0x00"
abbreviation BPF_SUB :: u16 where "BPF_SUB \<equiv> 0x10"
abbreviation BPF_MUL :: u16 where "BPF_MUL \<equiv> 0x20"
abbreviation BPF_DIV :: u16 where "BPF_DIV \<equiv> 0x30"
abbreviation BPF_OR :: u16 where "BPF_OR \<equiv> 0x40"
abbreviation BPF_AND :: u16 where "BPF_AND \<equiv> 0x50"
abbreviation BPF_LSH :: u16 where "BPF_LSH \<equiv> 0x60"
abbreviation BPF_RSH :: u16 where "BPF_RSH \<equiv> 0x70"
abbreviation BPF_NEG :: u16 where "BPF_NEG \<equiv> 0x80"
abbreviation BPF_MOD :: u16 where "BPF_MOD \<equiv> 0x90"
abbreviation BPF_XOR :: u16 where "BPF_XOR \<equiv> 0xa0"

abbreviation BPF_JA :: u16 where "BPF_JA \<equiv> 0x00"
abbreviation BPF_JEQ :: u16 where "BPF_JEQ \<equiv> 0x10"
abbreviation BPF_JGT :: u16 where "BPF_JGT \<equiv> 0x20"
abbreviation BPF_JGE :: u16 where "BPF_JGE \<equiv> 0x30"
abbreviation BPF_JSET :: u16 where "BPF_JSET \<equiv> 0x40"

abbreviation BPF_K :: u16 where "BPF_K \<equiv> 0x00"
abbreviation BPF_X :: u16 where "BPF_X \<equiv> 0x08"
abbreviation BPF_A :: u16 where "BPF_A \<equiv> 0x10"
abbreviation BPF_TAX :: u16 where "BPF_TAX \<equiv> 0x00"
abbreviation BPF_TXA :: u16 where "BPF_TXA \<equiv> 0x80"

definition SECCOMP_RET_KILL_PROCESS :: u32 where "SECCOMP_RET_KILL_PROCESS = 0x80000000"
definition SECCOMP_RET_KILL :: u32 where "SECCOMP_RET_KILL = 0"
definition SECCOMP_RET_TRAP :: u32 where "SECCOMP_RET_TRAP = 0x00030000"
definition SECCOMP_RET_ERRNO :: u32 where "SECCOMP_RET_ERRNO = 0x00050000"
definition SECCOMP_RET_USER_NOTIF :: u32 where "SECCOMP_RET_USER_NOTIF = 0x7FC00000"
definition SECCOMP_RET_TRACE :: u32 where "SECCOMP_RET_TRACE = 0x7FF00000"
definition SECCOMP_RET_LOG :: u32 where "SECCOMP_RET_LOG = 0x7FFC0000"
definition SECCOMP_RET_ALLOW :: u32 where "SECCOMP_RET_ALLOW = 0x7FFF0000"
definition SECCOMP_RET_ACTION_FULL :: u32 where "SECCOMP_RET_ACTION_FULL = 0xFFFF0000"

lemmas seccomp_ret_defs = SECCOMP_RET_KILL_PROCESS_def SECCOMP_RET_KILL_def SECCOMP_RET_TRAP_def
  SECCOMP_RET_ERRNO_def SECCOMP_RET_USER_NOTIF_def SECCOMP_RET_TRACE_def SECCOMP_RET_LOG_def
  SECCOMP_RET_ALLOW_def SECCOMP_RET_ACTION_FULL_def

definition AUDIT_ARCH_X86_64 :: u32 where "AUDIT_ARCH_X86_64 = 0xC000003E"
definition SECCOMP_DATA_LEN :: u32 where "SECCOMP_DATA_LEN = 64"
definition MEM_WORDS :: nat where "MEM_WORDS = 16"

record bpf_insn =
  bi_code :: u16
  bi_jt :: u8
  bi_jf :: u8
  bi_k :: u32

definition bi_class :: "bpf_insn \<Rightarrow> u16" where "bi_class i = bi_code i AND 0x07"
definition bi_mode :: "bpf_insn \<Rightarrow> u16" where "bi_mode i = bi_code i AND 0xe0"
definition bi_op :: "bpf_insn \<Rightarrow> u16" where "bi_op i = bi_code i AND 0xf0"
definition bi_src :: "bpf_insn \<Rightarrow> u16" where "bi_src i = bi_code i AND 0x08"

record seccomp_filter =
  sf_insns :: "bpf_insn list"
  sf_log :: bool

record seccomp_data =
  sd_nr :: u32
  sd_arch :: u32
  sd_ip :: u64
  sd_args :: "u64 list"

definition seccomp_data_new :: "u64 \<Rightarrow> u64 \<Rightarrow> u64 list \<Rightarrow> seccomp_data" where
  "seccomp_data_new nr frame_ip args =
     \<lparr>sd_nr = ucast nr, sd_arch = AUDIT_ARCH_X86_64, sd_ip = frame_ip, sd_args = args\<rparr>"

definition load_u32 :: "seccomp_data \<Rightarrow> u32 \<Rightarrow> u32 option" where
  "load_u32 d offset =
     (let n = unat offset in
      if n = 0 then Some (sd_nr d)
      else if n = 4 then Some (sd_arch d)
      else if n \<in> {8, 9, 10, 11} then Some (ucast (drop_bit (8 * (n - 8)) (sd_ip d) AND 0xFF))
      else if 8 \<le> n \<and> n \<le> 15
      then if n + 4 \<le> 16 then Some (ucast (drop_bit ((n - 8) * 8) (sd_ip d))) else None
      else if 16 \<le> n \<and> n \<le> 63
      then let arg_idx = (n - 16) div 8 in
           if 6 \<le> arg_idx then None
           else Some (ucast (drop_bit ((n - 16) mod 8 * 8) (sd_args d ! arg_idx)))
      else None)"

section \<open>Validator\<close>

datatype bpf_error = TooLong | Empty | InvalidJump nat | InvalidMemAccess nat
  | InvalidLoadOffset nat | NoReturnAtEnd | DivisionByConstantZero nat

definition MAX_INSNS :: nat where "MAX_INSNS = 4096"

definition check_insn :: "nat \<Rightarrow> nat \<Rightarrow> bpf_insn \<Rightarrow> bpf_error option" where
  "check_insn len pc i =
     (if bi_class i = BPF_LD \<or> bi_class i = BPF_LDX
      then if bi_mode i = BPF_ABS \<or> bi_mode i = BPF_IND
           then if bi_mode i = BPF_ABS \<and> bi_k i + 4 > SECCOMP_DATA_LEN
                then Some (InvalidLoadOffset pc) else None
           else if bi_mode i = BPF_MEM
           then if 16 \<le> bi_k i then Some (InvalidMemAccess pc) else None
           else None
      else if bi_class i = BPF_ST \<or> bi_class i = BPF_STX
      then if 16 \<le> bi_k i then Some (InvalidMemAccess pc) else None
      else if bi_class i = BPF_ALU
      then if (bi_op i = BPF_DIV \<or> bi_op i = BPF_MOD) \<and> bi_src i = BPF_K \<and> bi_k i = 0
           then Some (DivisionByConstantZero pc) else None
      else if bi_class i = BPF_JMP
      then if bi_op i = BPF_JA
           then if len \<le> pc + 1 + unat (bi_k i) then Some (InvalidJump pc) else None
           else if len \<le> pc + 1 + unat (bi_jt i) \<or> len \<le> pc + 1 + unat (bi_jf i)
                then Some (InvalidJump pc) else None
      else None)"

primrec check_insns :: "nat \<Rightarrow> nat \<Rightarrow> bpf_insn list \<Rightarrow> bpf_error option" where
  "check_insns len pc [] = None"
| "check_insns len pc (i # is) =
     (case check_insn len pc i of Some e \<Rightarrow> Some e | None \<Rightarrow> check_insns len (Suc pc) is)"

definition validate :: "bpf_insn list \<Rightarrow> bpf_error + unit" where
  "validate insns =
     (if insns = [] then Inl Empty
      else if MAX_INSNS < length insns then Inl TooLong
      else case check_insns (length insns) 0 insns of
        Some e \<Rightarrow> Inl e
      | None \<Rightarrow> if bi_class (last insns) \<noteq> BPF_RET then Inl NoReturnAtEnd else Inr ())"

section \<open>Interpreter\<close>

record bpf_state =
  bs_pc :: nat
  bs_a :: u32
  bs_x :: u32
  bs_mem :: "u32 list"

text \<open>
  What one instruction does: the machine goes on, returns a value, or kills the call at
  once (\<open>return SECCOMP_RET_KILL\<close> in the division, modulus and unknown class branches).
\<close>

datatype bpf_step = Continue bpf_state | Return u32 | KillCall

definition mem_get :: "u32 list \<Rightarrow> u32 \<Rightarrow> u32" where
  "mem_get mem i = (if unat i < length mem then mem ! unat i else 0)"

definition mem_put :: "u32 list \<Rightarrow> u32 \<Rightarrow> u32 \<Rightarrow> u32 list" where
  "mem_put mem i v = (if unat i < MEM_WORDS then mem[unat i := v] else mem)"

definition unwrap_or :: "'a option \<Rightarrow> 'a \<Rightarrow> 'a" where
  "unwrap_or r d = (case r of None \<Rightarrow> d | Some v \<Rightarrow> v)"

definition exec_ld :: "bpf_insn \<Rightarrow> seccomp_data \<Rightarrow> bpf_state \<Rightarrow> u32" where
  "exec_ld i d s =
     (if bi_mode i = BPF_IMM then bi_k i
      else if bi_mode i = BPF_ABS then unwrap_or (load_u32 d (bi_k i)) 0
      else if bi_mode i = BPF_IND then unwrap_or (load_u32 d (bs_x s + bi_k i)) 0
      else if bi_mode i = BPF_MEM then mem_get (bs_mem s) (bi_k i)
      else if bi_mode i = BPF_LEN then SECCOMP_DATA_LEN
      else 0)"

definition exec_ldx :: "bpf_insn \<Rightarrow> bpf_state \<Rightarrow> u32" where
  "exec_ldx i s =
     (if bi_mode i = BPF_IMM then bi_k i
      else if bi_mode i = BPF_MEM then mem_get (bs_mem s) (bi_k i)
      else if bi_mode i = BPF_LEN then SECCOMP_DATA_LEN
      else 0)"

definition operand :: "bpf_insn \<Rightarrow> bpf_state \<Rightarrow> u32" where
  "operand i s = (if bi_src i = BPF_X then bs_x s else bi_k i)"

definition exec_alu :: "bpf_insn \<Rightarrow> u32 \<Rightarrow> u32 \<Rightarrow> u32 option" where
  "exec_alu i a src =
     (if bi_op i = BPF_ADD then Some (a + src)
      else if bi_op i = BPF_SUB then Some (a - src)
      else if bi_op i = BPF_MUL then Some (a * src)
      else if bi_op i = BPF_DIV then if src \<noteq> 0 then Some (a div src) else None
      else if bi_op i = BPF_MOD then if src \<noteq> 0 then Some (a mod src) else None
      else if bi_op i = BPF_OR then Some (a OR src)
      else if bi_op i = BPF_AND then Some (a AND src)
      else if bi_op i = BPF_XOR then Some (a XOR src)
      else if bi_op i = BPF_LSH then Some (if unat src < 32 then push_bit (unat src) a else 0)
      else if bi_op i = BPF_RSH then Some (if unat src < 32 then drop_bit (unat src) a else 0)
      else if bi_op i = BPF_NEG then Some (NOT a + 1)
      else Some a)"

definition jump_taken :: "bpf_insn \<Rightarrow> u32 \<Rightarrow> u32 \<Rightarrow> bool" where
  "jump_taken i a src =
     (if bi_op i = BPF_JEQ then a = src
      else if bi_op i = BPF_JGT then a > src
      else if bi_op i = BPF_JGE then a \<ge> src
      else if bi_op i = BPF_JSET then a AND src \<noteq> 0
      else False)"

definition bpf_exec :: "bpf_insn \<Rightarrow> seccomp_data \<Rightarrow> bpf_state \<Rightarrow> bpf_step" where
  "bpf_exec i d s =
     (let s1 = s\<lparr>bs_pc := bs_pc s + 1\<rparr> in
      if bi_class i = BPF_LD then Continue (s1\<lparr>bs_a := exec_ld i d s\<rparr>)
      else if bi_class i = BPF_LDX then Continue (s1\<lparr>bs_x := exec_ldx i s\<rparr>)
      else if bi_class i = BPF_ST then Continue (s1\<lparr>bs_mem := mem_put (bs_mem s) (bi_k i) (bs_a s)\<rparr>)
      else if bi_class i = BPF_STX then Continue (s1\<lparr>bs_mem := mem_put (bs_mem s) (bi_k i) (bs_x s)\<rparr>)
      else if bi_class i = BPF_ALU
      then (case exec_alu i (bs_a s) (operand i s) of
              None \<Rightarrow> KillCall
            | Some v \<Rightarrow> Continue (s1\<lparr>bs_a := v\<rparr>))
      else if bi_class i = BPF_JMP
      then if bi_op i = BPF_JA
           then Continue (s\<lparr>bs_pc := bs_pc s + (1 + unat (bi_k i))\<rparr>)
           else Continue (s\<lparr>bs_pc := bs_pc s + (1 +
                  (if jump_taken i (bs_a s) (operand i s) then unat (bi_jt i) else unat (bi_jf i)))\<rparr>)
      else if bi_class i = BPF_RET
      then Return (if bi_src i = BPF_A then bs_a s else bi_k i)
      else if bi_class i = BPF_MISC
      then if bi_op i = BPF_TAX then Continue (s1\<lparr>bs_x := bs_a s\<rparr>)
           else if bi_op i = BPF_TXA then Continue (s1\<lparr>bs_a := bs_x s\<rparr>)
           else Continue s1
      else KillCall)"

datatype run_exit = Exited u32 | Killed | FellOff | OutOfBudget

primrec run_loop :: "nat \<Rightarrow> bpf_insn list \<Rightarrow> seccomp_data \<Rightarrow> bpf_state \<Rightarrow> run_exit" where
  "run_loop 0 prog d s = (if length prog \<le> bs_pc s then FellOff else OutOfBudget)"
| "run_loop (Suc budget) prog d s =
     (if length prog \<le> bs_pc s then FellOff
      else case bpf_exec (prog ! bs_pc s) d s of
        Return v \<Rightarrow> Exited v
      | KillCall \<Rightarrow> Killed
      | Continue s' \<Rightarrow> run_loop budget prog d s')"

definition bpf_start :: bpf_state where
  "bpf_start = \<lparr>bs_pc = 0, bs_a = 0, bs_x = 0, bs_mem = replicate MEM_WORDS 0\<rparr>"

definition run_value :: "run_exit \<Rightarrow> u32" where
  "run_value e = (case e of Exited v \<Rightarrow> v | Killed \<Rightarrow> SECCOMP_RET_KILL | FellOff \<Rightarrow> SECCOMP_RET_KILL | OutOfBudget \<Rightarrow> SECCOMP_RET_KILL)"

definition RUN_BUDGET :: nat where "RUN_BUDGET = 1000000"

definition run :: "bpf_insn list \<Rightarrow> seccomp_data \<Rightarrow> u32" where
  "run prog d = run_value (run_loop RUN_BUDGET prog d bpf_start)"

section \<open>Filter chains\<close>

datatype qsf_result = Allow | Deny | Kill

definition action_to_qsf :: "u32 \<Rightarrow> qsf_result \<times> int" where
  "action_to_qsf retval =
     (let action = retval AND SECCOMP_RET_ACTION_FULL; data = uint (retval AND 0xFFFF) in
      if action = SECCOMP_RET_ALLOW then (Allow, 0)
      else if action = SECCOMP_RET_KILL then (Kill, 0)
      else if action = SECCOMP_RET_KILL_PROCESS then (Kill, 0)
      else if action = SECCOMP_RET_TRAP then (Kill, 0)
      else if action = SECCOMP_RET_ERRNO then (Deny, data)
      else if action \<ge> SECCOMP_RET_TRACE then (Allow, 0)
      else if action = SECCOMP_RET_LOG then (Allow, 0)
      else (Allow, 0))"

record filter_chain =
  fc_filters :: "seccomp_filter list"
  fc_mode :: u32
  fc_notif_fd :: "u32 option"

definition chain_new :: filter_chain where
  "chain_new = \<lparr>fc_filters = [], fc_mode = 0, fc_notif_fd = None\<rparr>"

definition is_active :: "filter_chain \<Rightarrow> bool" where
  "is_active fc \<longleftrightarrow> fc_mode fc \<noteq> 0"

text \<open>
  The loop over the filters.  \<open>run_chain\<close> is called with the process table locked
  (\<open>check_seccomp\<close> runs it inside \<open>with_current\<close>), and a filter that asks for logging
  calls \<open>current_pid\<close>, which takes the same spin lock again: that call never
  returns, which is the value \<open>None\<close>.
\<close>

primrec run_filters :: "seccomp_filter list \<Rightarrow> seccomp_data \<Rightarrow> u32 \<Rightarrow> u32 option" where
  "run_filters [] d most = Some most"
| "run_filters (f # fs) d most =
     (let ret = run (sf_insns f) d in
      if sf_log f then None
      else run_filters fs d (if ret < most then ret else most))"

definition run_chain :: "filter_chain \<Rightarrow> seccomp_data \<Rightarrow> (qsf_result \<times> int) option" where
  "run_chain fc d =
     (if fc_mode fc = 1
      then Some (if sd_nr d \<in> {0, 1, 15, 60, 231} then (Allow, 0) else (Kill, 0))
      else map_option action_to_qsf (run_filters (fc_filters fc) d SECCOMP_RET_ALLOW))"

definition install :: "seccomp_filter \<Rightarrow> filter_chain \<Rightarrow> filter_chain" where
  "install f fc = fc\<lparr>fc_mode := 2, fc_filters := fc_filters fc @ [f]\<rparr>"

definition set_strict :: "filter_chain \<Rightarrow> filter_chain" where
  "set_strict fc = fc\<lparr>fc_mode := 1\<rparr>"

section \<open>Notifications\<close>

record seccomp_notif =
  sn_id :: u64
  sn_pid :: pid
  sn_flags :: u32
  sn_data :: seccomp_data

record notif_resp =
  nr_id :: u64
  nr_val :: int
  nr_error :: int
  nr_flags :: u32

record pending_notif =
  pn_id :: u64
  pn_pid :: pid
  pn_notif :: seccomp_notif
  pn_responded :: bool
  pn_response :: "notif_resp option"

record notif_state =
  ns_fd_id :: u32
  ns_pending :: "pending_notif list"
  ns_next_id :: u64

definition notif_state_new :: "u32 \<Rightarrow> notif_state" where
  "notif_state_new fd_id = \<lparr>ns_fd_id = fd_id, ns_pending = [], ns_next_id = 1\<rparr>"

definition push_notif :: "pid \<Rightarrow> seccomp_data \<Rightarrow> notif_state \<Rightarrow> u64 \<times> notif_state" where
  "push_notif p d ns =
     (let nid = ns_next_id ns;
          notif = \<lparr>sn_id = nid, sn_pid = p, sn_flags = 0, sn_data = d\<rparr> in
      (nid, ns\<lparr>ns_next_id := ns_next_id ns + 1,
        ns_pending := ns_pending ns @
          [\<lparr>pn_id = nid, pn_pid = p, pn_notif = notif, pn_responded = False, pn_response = None\<rparr>]\<rparr>))"

definition recv_notif :: "notif_state \<Rightarrow> seccomp_notif option" where
  "recv_notif ns = (case ns_pending ns of [] \<Rightarrow> None | p # _ \<Rightarrow> Some (pn_notif p))"

primrec respond_first :: "notif_resp \<Rightarrow> pending_notif list \<Rightarrow> (pending_notif list) option" where
  "respond_first r [] = None"
| "respond_first r (n # ns) =
     (if pn_id n = nr_id r
      then Some (n\<lparr>pn_responded := True, pn_response := Some r\<rparr> # ns)
      else map_option (\<lambda>t. n # t) (respond_first r ns))"

definition send_response :: "notif_resp \<Rightarrow> notif_state \<Rightarrow> bool \<times> notif_state" where
  "send_response r ns =
     (case respond_first r (ns_pending ns) of
        None \<Rightarrow> (False, ns)
      | Some ps \<Rightarrow> (True, ns\<lparr>ns_pending := ps\<rparr>))"

definition id_valid :: "u64 \<Rightarrow> notif_state \<Rightarrow> bool" where
  "id_valid nid ns \<longleftrightarrow> list_ex (\<lambda>n. pn_id n = nid \<and> \<not> pn_responded n) (ns_pending ns)"

primrec take_response :: "u64 \<Rightarrow> pending_notif list \<Rightarrow> (notif_resp option \<times> pending_notif list) option" where
  "take_response nid [] = None"
| "take_response nid (n # ns) =
     (if pn_id n = nid \<and> pn_responded n then Some (pn_response n, ns)
      else map_option (\<lambda>(r, t). (r, n # t)) (take_response nid ns))"

definition get_response :: "u64 \<Rightarrow> notif_state \<Rightarrow> notif_resp option \<times> notif_state" where
  "get_response nid ns =
     (case take_response nid (ns_pending ns) of
        None \<Rightarrow> (None, ns)
      | Some (r, ps) \<Rightarrow> (r, ns\<lparr>ns_pending := ps\<rparr>))"

record notif_table =
  NOTIF_STATES :: "(u32, notif_state) btree"
  NEXT_NOTIF_FD :: u32

definition create_notif_fd :: "notif_table \<Rightarrow> u32 \<times> notif_table" where
  "create_notif_fd t =
     (let fd_id = NEXT_NOTIF_FD t in
      (fd_id, t\<lparr>NEXT_NOTIF_FD := fd_id + 1,
        NOTIF_STATES := bt_insert fd_id (notif_state_new fd_id) (NOTIF_STATES t)\<rparr>))"

text \<open>
  \<open>intercept_for_notif\<close>: sending the notification, and one round of the loop that
  polls for the answer (the loop yields between rounds, so other steps interleave;
  after 10000 rounds without an answer it gives up and allows the call).
\<close>

definition notif_send :: "u32 \<Rightarrow> pid \<Rightarrow> seccomp_data \<Rightarrow> notif_table \<Rightarrow> u64 option \<times> notif_table" where
  "notif_send fd p d t =
     (case bt_get (NOTIF_STATES t) fd of
        None \<Rightarrow> (None, t)
      | Some ns \<Rightarrow> let (nid, ns') = push_notif p d ns in
          (Some nid, t\<lparr>NOTIF_STATES := bt_insert fd ns' (NOTIF_STATES t)\<rparr>))"

definition notif_poll :: "u32 \<Rightarrow> u64 \<Rightarrow> notif_table \<Rightarrow> (qsf_result \<times> int) option \<times> notif_table" where
  "notif_poll fd nid t =
     (case bt_get (NOTIF_STATES t) fd of
        None \<Rightarrow> (None, t)
      | Some ns \<Rightarrow>
          let (r, ns') = get_response nid ns;
              t' = t\<lparr>NOTIF_STATES := bt_insert fd ns' (NOTIF_STATES t)\<rparr> in
          (case r of
             None \<Rightarrow> (None, t')
           | Some resp \<Rightarrow>
               (Some (if nr_flags resp AND 1 \<noteq> 0 then (Allow, 0)
                      else if nr_error resp \<noteq> 0 then (Deny, - nr_error resp)
                      else (Allow, 0)), t')))"

definition notif_ioctl_recv :: "u32 \<Rightarrow> notif_table \<Rightarrow> (int \<times> seccomp_notif option)" where
  "notif_ioctl_recv fd t =
     (case bt_get (NOTIF_STATES t) fd of
        None \<Rightarrow> (-11, None)
      | Some ns \<Rightarrow> (case recv_notif ns of None \<Rightarrow> (-11, None) | Some n \<Rightarrow> (0, Some n)))"

definition notif_ioctl_send :: "u32 \<Rightarrow> notif_resp option \<Rightarrow> notif_table \<Rightarrow> int \<times> notif_table" where
  "notif_ioctl_send fd arg t =
     (case arg of
        None \<Rightarrow> (-22, t)
      | Some resp \<Rightarrow>
          (case bt_get (NOTIF_STATES t) fd of
             None \<Rightarrow> (-9, t)
           | Some ns \<Rightarrow> let (ok, ns') = send_response resp ns in
               (if ok then 0 else -22, t\<lparr>NOTIF_STATES := bt_insert fd ns' (NOTIF_STATES t)\<rparr>)))"

definition notif_ioctl_id_valid :: "u32 \<Rightarrow> u64 option \<Rightarrow> notif_table \<Rightarrow> int" where
  "notif_ioctl_id_valid fd arg t =
     (case arg of
        None \<Rightarrow> -22
      | Some nid \<Rightarrow> (case bt_get (NOTIF_STATES t) fd of
          None \<Rightarrow> -9
        | Some ns \<Rightarrow> if id_valid nid ns then 0 else -22))"

section \<open>The validator bounds the interpreter\<close>

lemma check_insns_nth:
  "check_insns len pc is = None \<Longrightarrow> j < length is \<Longrightarrow> check_insn len (pc + j) (is ! j) = None"
proof (induction "is" arbitrary: pc j)
  case (Cons i "is")
  then show ?case by (cases j) (auto split: option.splits, metis add_Suc_right add_Suc)
qed simp

lemma validateD:
  assumes "validate prog = Inr ()"
  shows "prog \<noteq> []" "length prog \<le> MAX_INSNS" "bi_class (last prog) = BPF_RET"
    "j < length prog \<Longrightarrow> check_insn (length prog) j (prog ! j) = None"
  using assms check_insns_nth [of "length prog" 0 prog j]
  by (auto simp: validate_def split: if_splits option.splits)

lemma bpf_exec_advances:
  assumes "check_insn len (bs_pc s) i = None" "bs_pc s < len" "bs_pc s = len - 1 \<longrightarrow> bi_class i = BPF_RET"
    "bpf_exec i d s = Continue s'"
  shows "bs_pc s < bs_pc s' \<and> bs_pc s' < len \<and> (length (bs_mem s) = MEM_WORDS \<longrightarrow> length (bs_mem s') = MEM_WORDS)"
  using assms
  by (auto simp: bpf_exec_def check_insn_def mem_put_def Let_def split: if_splits option.splits)

lemma bpf_exec_ret:
  assumes "bi_class i = BPF_RET"
  shows "bpf_exec i d s = Return (bi_k i)"
proof -
  have "bi_src i \<noteq> BPF_A"
  proof
    assume "bi_src i = BPF_A"
    then have "bit (bi_code i AND 0x08) 4" by (simp add: bi_src_def)
    then show False by (simp add: bit_and_iff)
  qed
  then show ?thesis using assms by (simp add: bpf_exec_def)
qed

lemma bi_class_cases:
  "bi_class i \<in> {BPF_LD, BPF_LDX, BPF_ST, BPF_STX, BPF_ALU, BPF_JMP, BPF_RET, BPF_MISC}"
proof -
  have "bi_class i = take_bit 3 (bi_code i)" by (simp add: bi_class_def take_bit_eq_mask mask_eq_exp_minus_1)
  then have "unat (bi_class i) < 8"
    using take_bit_nat_less_exp [of 3 "unat (bi_code i)"] by (simp add: unsigned_take_bit_eq)
  then show ?thesis by (simp add: word_unat_eq_iff) arith
qed

lemma bi_src_cases: "bi_src i \<in> {BPF_K, BPF_X}"
proof -
  have e: "(8 :: u16) = push_bit 3 1" by simp
  have "bi_code i AND push_bit 3 1 = (if bit (bi_code i) 3 then push_bit 3 1 else 0)"
    by (rule bit_word_eqI) (auto simp del: push_bit_of_1 simp: bit_and_iff bit_push_bit_iff bit_1_iff)
  then show ?thesis unfolding bi_src_def insert_iff empty_iff e by presburger
qed

lemma bpf_exec_value:
  assumes "bpf_exec i d s = Return v"
  shows "bi_class i = BPF_RET \<and> v = bi_k i"
  using assms bpf_exec_ret [of i d s]
  by (auto simp: bpf_exec_def Let_def split: if_splits option.splits)

lemma bpf_exec_kill:
  assumes "check_insn len pc i = None" "bpf_exec i d s = KillCall"
  shows "bi_class i = BPF_ALU \<and> bi_op i \<in> {BPF_DIV, BPF_MOD} \<and> bi_src i = BPF_X \<and> bs_x s = 0"
  using assms bi_class_cases [of i] bi_src_cases [of i]
  by (auto simp: bpf_exec_def check_insn_def exec_alu_def operand_def Let_def split: if_splits option.splits)

text \<open>The states the interpreter passes through on a program and its data.\<close>

inductive bpf_reaches :: "bpf_insn list \<Rightarrow> seccomp_data \<Rightarrow> bpf_state \<Rightarrow> bool" for prog d where
  start: "bpf_reaches prog d bpf_start"
| step: "bpf_reaches prog d s \<Longrightarrow> bs_pc s < length prog \<Longrightarrow> bpf_exec (prog ! bs_pc s) d s = Continue s' \<Longrightarrow>
    bpf_reaches prog d s'"

definition ends_at :: "bpf_insn list \<Rightarrow> bpf_state \<Rightarrow> run_exit \<Rightarrow> bool" where
  "ends_at prog s e \<longleftrightarrow> bs_pc s < length prog \<and>
     (let i = prog ! bs_pc s in
      if bi_class i = BPF_RET then e = Exited (bi_k i)
      else bi_class i = BPF_ALU \<and> bi_op i \<in> {BPF_DIV, BPF_MOD} \<and> bi_src i = BPF_X \<and> bs_x s = 0 \<and> e = Killed)"

lemma run_loop_ends:
  assumes "validate prog = Inr ()"
  shows "bpf_reaches prog d s \<Longrightarrow> bs_pc s < length prog \<Longrightarrow> length prog - bs_pc s \<le> n \<Longrightarrow>
    \<exists>t. bpf_reaches prog d t \<and> ends_at prog t (run_loop n prog d s)"
proof (induction n arbitrary: s)
  case (Suc n)
  let ?i = "prog ! bs_pc s"
  have c: "check_insn (length prog) (bs_pc s) ?i = None"
    using validateD(4) [OF assms] Suc.prems(2) by blast
  have l: "bs_pc s = length prog - 1 \<longrightarrow> bi_class ?i = BPF_RET"
    using validateD(1,3) [OF assms] by (auto simp: last_conv_nth)
  show ?case
  proof (cases "bpf_exec ?i d s")
    case (Continue s')
    then show ?thesis
      using bpf_exec_advances [OF c Suc.prems(2) l Continue] Suc.IH [OF bpf_reaches.step] Suc.prems by auto
  next
    case (Return v)
    then have "ends_at prog s (run_loop (Suc n) prog d s)"
      using bpf_exec_value [OF Return] Suc.prems(2) by (simp add: ends_at_def)
    then show ?thesis using Suc.prems(1) by blast
  next
    case KillCall
    then have "ends_at prog s (run_loop (Suc n) prog d s)"
      using bpf_exec_kill [OF c KillCall] Suc.prems(2) by (simp add: ends_at_def)
    then show ?thesis using Suc.prems(1) by blast
  qed
qed simp

lemma run_loop_more:
  "run_loop n prog d s = e \<Longrightarrow> e \<noteq> FellOff \<Longrightarrow> e \<noteq> OutOfBudget \<Longrightarrow> n \<le> m \<Longrightarrow> run_loop m prog d s = e"
proof (induction n arbitrary: s m)
  case (Suc n)
  then show ?case by (cases m) (auto split: if_splits bpf_step.splits)
qed (simp split: if_splits)

section \<open>The chain takes the least value\<close>

lemma run_filters_min:
  "\<forall>f\<in>set fs. \<not> sf_log f \<Longrightarrow>
   run_filters fs d m = Some (Min (insert m ((\<lambda>f. run (sf_insns f) d) ` set fs)))"
proof (induction fs arbitrary: m)
  case (Cons f fs)
  let ?r = "run (sf_insns f) d"
  have "(if ?r < m then ?r else m) = min m ?r" by (auto simp: min_def)
  moreover have "Min (insert (min m ?r) ((\<lambda>f. run (sf_insns f) d) ` set fs)) =
      Min (insert m ((\<lambda>f. run (sf_insns f) d) ` set (f # fs)))"
    by (cases "fs = []") (simp_all add: min.assoc)
  ultimately show ?case using Cons by simp
qed simp

lemma run_filters_log:
  "\<exists>f\<in>set fs. sf_log f \<Longrightarrow> run_filters fs d m = None"
  by (induction fs arbitrary: m) (auto simp: Let_def)

lemma run_filters_skip:
  "\<not> sf_log f \<Longrightarrow> m \<le> run (sf_insns f) d \<Longrightarrow> run_filters (fs @ f # gs) d m = run_filters (fs @ gs) d m"
  by (induction fs arbitrary: m) (auto simp: Let_def)

lemma low_action_kill: "v < 0x10000 \<Longrightarrow> action_to_qsf v = (Kill, 0)"
proof -
  assume "v < 0x10000"
  then have "take_bit 16 (uint v) = uint v"
    by (simp add: take_bit_int_eq_self_iff word_less_def)
  then have b: "n < 16" if "bit v n" for n
    using that bit_take_bit_iff [of 16 "uint v" n] bit_imp_le_length [OF that]
    by (simp add: bit_uint_iff)
  have "v AND 0xFFFF0000 = 0"
  proof (rule bit_word_eqI)
    fix n assume "n < LENGTH(32)"
    have "\<not> bit (0xFFFF0000 :: u32) n" if "n < 16"
    proof -
      have "(0xFFFF0000 :: u32) = push_bit 16 0xFFFF" by simp
      then show ?thesis using that bit_push_bit_iff [of 16 "0xFFFF :: u32" n] by (metis not_le)
    qed
    then show "bit (v AND 0xFFFF0000) n = bit (0 :: u32) n"
      using b [of n] by (auto simp: bit_and_iff)
  qed
  then show ?thesis by (simp add: action_to_qsf_def seccomp_ret_defs)
qed

lemma fold_install_filters:
  "fc_filters (fold install gs fc) = fc_filters fc @ gs" "gs \<noteq> [] \<Longrightarrow> fc_mode (fold install gs fc) = 2"
  "fc_mode (fold install gs fc) = (if gs = [] then fc_mode fc else 2)"
  by (induction gs arbitrary: fc) (auto simp: install_def)

section \<open>Properties of the filters\<close>

text \<open>
  C32. Every filter the validator accepts ends by itself.  On any system call data the
  interpreter takes at most as many steps as the program has instructions and stops
  in a state it reaches in one of two ways only: at a return instruction, and then
  \<open>run\<close> gives the constant of that instruction, or at a division or modulus by the
  register X while that register is zero, and then it gives the kill action.  It
  never kills at another instruction, never runs past the end of the program and
  never exhausts its budget of a million steps.
\<close>
theorem validated_filter_returns:
  assumes "validate prog = Inr ()"
  shows "\<exists>s. bpf_reaches prog d s \<and> bs_pc s < length prog \<and>
    (let i = prog ! bs_pc s in
     bi_class i = BPF_RET \<and> run prog d = bi_k i \<and>
       (\<forall>n\<ge>length prog. run_loop n prog d bpf_start = Exited (bi_k i)) \<or>
     bi_class i = BPF_ALU \<and> bi_op i \<in> {BPF_DIV, BPF_MOD} \<and> bi_src i = BPF_X \<and> bs_x s = 0 \<and>
       run prog d = SECCOMP_RET_KILL \<and> (\<forall>n\<ge>length prog. run_loop n prog d bpf_start = Killed))"
proof -
  have "bs_pc bpf_start < length prog" using validateD(1) [OF assms] by (simp add: bpf_start_def)
  then obtain s e where s: "bpf_reaches prog d s" "ends_at prog s e"
    and l: "run_loop (length prog) prog d bpf_start = e"
    using run_loop_ends [OF assms bpf_reaches.start, of "length prog" d] by auto
  have "e \<noteq> FellOff" "e \<noteq> OutOfBudget"
    using s(2) by (auto simp: ends_at_def Let_def split: if_splits)
  then have m: "\<forall>n\<ge>length prog. run_loop n prog d bpf_start = e" using run_loop_more [OF l] by blast
  moreover have "length prog \<le> RUN_BUDGET"
    using validateD(2) [OF assms] by (simp add: MAX_INSNS_def RUN_BUDGET_def)
  ultimately have r: "run prog d = run_value e" by (simp add: run_def)
  show ?thesis
  proof (cases "bi_class (prog ! bs_pc s) = BPF_RET")
    case True
    then have "e = Exited (bi_k (prog ! bs_pc s))" using s(2) by (simp add: ends_at_def)
    then show ?thesis using s m r True by (intro exI [of _ s]) (simp add: ends_at_def run_value_def)
  next
    case False
    then have "e = Killed" using s(2) by (simp add: ends_at_def Let_def)
    then show ?thesis using s m r False by (intro exI [of _ s]) (simp add: ends_at_def run_value_def Let_def)
  qed
qed

definition allow_reads :: "bpf_insn list" where
  "allow_reads = [\<lparr>bi_code = 0x20, bi_jt = 0, bi_jf = 0, bi_k = 0\<rparr>,
     \<lparr>bi_code = 0x15, bi_jt = 0, bi_jf = 1, bi_k = 0\<rparr>,
     \<lparr>bi_code = 0x06, bi_jt = 0, bi_jf = 0, bi_k = 0x7FFF0000\<rparr>,
     \<lparr>bi_code = 0x06, bi_jt = 0, bi_jf = 0, bi_k = 0x00050001\<rparr>]"

definition data_nr :: "u32 \<Rightarrow> seccomp_data" where
  "data_nr nr = \<lparr>sd_nr = nr, sd_arch = AUDIT_ARCH_X86_64, sd_ip = 0, sd_args = replicate 6 0\<rparr>"

theorem validated_filter_returns_witness:
  "validate allow_reads = Inr () \<and> run allow_reads (data_nr 0) = 0x7FFF0000 \<and>
   run allow_reads (data_nr 57) = 0x00050001"
proof -
  have v: "validate allow_reads = Inr ()" by code_simp
  have "run_loop 4 allow_reads (data_nr 0) bpf_start = Exited 0x7FFF0000"
    "run_loop 4 allow_reads (data_nr 57) bpf_start = Exited 0x00050001" by code_simp+
  moreover have "run allow_reads d = w" if "run_loop 4 allow_reads d bpf_start = Exited w" for d w
  proof -
    have "length allow_reads \<le> 4" by (simp add: allow_reads_def)
    then have "run_loop 4 allow_reads d bpf_start = Exited (run allow_reads d) \<or>
        run_loop 4 allow_reads d bpf_start = Killed"
      using validated_filter_returns [OF v, of d] unfolding Let_def by metis
    then show ?thesis using that by auto
  qed
  ultimately show ?thesis using v by blast
qed

text \<open>
  C33. A kill verdict is final, except in strict mode.  Let a filter of the chain answer
  a call with the kill action (a value below 0x10000), and let any filters be
  installed after it.  If the chain is then in strict mode, the filters are not
  consulted: the five calls of strict mode are allowed and all others killed.
  Otherwise the call is killed whatever the other filters answer, unless one of the
  filters asks for logging: then the check never returns, because it takes the
  process table lock that its caller holds.  In no case does a filter installed
  later make the call allowed.
\<close>
theorem chain_kill_is_final:
  assumes "f \<in> set (fc_filters fc)" "run (sf_insns f) d < 0x10000"
  shows "run_chain (fold install gs fc) d =
    (if gs = [] \<and> fc_mode fc = 1
     then Some (if sd_nr d \<in> {0, 1, 15, 60, 231} then (Allow, 0) else (Kill, 0))
     else if \<exists>g\<in>set (fc_filters fc @ gs). sf_log g then None else Some (Kill, 0))"
proof -
  let ?fs = "fc_filters fc @ gs"
  let ?m = "Min (insert SECCOMP_RET_ALLOW ((\<lambda>f. run (sf_insns f) d) ` set ?fs))"
  have "?m \<le> run (sf_insns f) d" using assms(1) by (intro Min_le) auto
  then have "?m < 0x10000" using assms(2) by simp
  then have k: "action_to_qsf ?m = (Kill, 0)" by (rule low_action_kill)
  have "run_filters ?fs d SECCOMP_RET_ALLOW = (if \<exists>g\<in>set ?fs. sf_log g then None else Some ?m)"
    by (cases "\<exists>g\<in>set ?fs. sf_log g") (simp_all add: run_filters_min run_filters_log)
  then have "map_option action_to_qsf (run_filters ?fs d SECCOMP_RET_ALLOW) =
      (if \<exists>g\<in>set ?fs. sf_log g then None else Some (Kill, 0))" using k by simp
  then show ?thesis by (simp add: run_chain_def fold_install_filters(1,3))
qed

definition ret_prog :: "u32 \<Rightarrow> seccomp_filter" where
  "ret_prog v = \<lparr>sf_insns = [\<lparr>bi_code = 0x06, bi_jt = 0, bi_jf = 0, bi_k = v\<rparr>], sf_log = False\<rparr>"

lemma run_ret_prog: "run (sf_insns (ret_prog v)) d = v"
proof -
  have "run_loop 1 (sf_insns (ret_prog v)) d bpf_start = Exited v"
    by (simp add: ret_prog_def bpf_start_def bpf_exec_def bi_class_def bi_src_def)
  then have "run_loop RUN_BUDGET (sf_insns (ret_prog v)) d bpf_start = Exited v"
    by (rule run_loop_more) (simp_all add: RUN_BUDGET_def)
  then show ?thesis by (simp add: run_def run_value_def)
qed

lemma not_log_ret_prog: "\<not> sf_log (ret_prog v)"
  by (simp add: ret_prog_def)

theorem chain_kill_is_final_witness:
  "run_chain (fold install [ret_prog 0x7FFF0000] (install (ret_prog 0) chain_new)) (data_nr 2) = Some (Kill, 0) \<and>
   run_chain (fold install [] (set_strict (install (ret_prog 0) chain_new))) (data_nr 0) = Some (Allow, 0)"
  using chain_kill_is_final [of "ret_prog 0" "install (ret_prog 0) chain_new" "data_nr 2" "[ret_prog 0x7FFF0000]"]
    chain_kill_is_final [of "ret_prog 0" "set_strict (install (ret_prog 0) chain_new)" "data_nr 0" "[]"]
  by (simp add: run_ret_prog install_def set_strict_def chain_new_def data_nr_def not_log_ret_prog)

text \<open>
  C34. A kill-process answer is ignored.  The chain starts from the value of the allow
  action and keeps the smaller value, but kill-process is the largest action
  value.  So outside strict mode a filter that answers kill-process for a call, and
  does not ask for logging, changes nothing: the verdict is the one of the chain without
  it, wherever it stands.  In particular, when every filter answers kill-process and
  none logs, the call is allowed.
\<close>
theorem kill_process_is_allowed:
  assumes "fc_mode fc \<noteq> 1" "fc_filters fc = fs @ f # gs" "\<not> sf_log f"
    "run (sf_insns f) d = SECCOMP_RET_KILL_PROCESS"
  shows "run_chain fc d = run_chain (fc\<lparr>fc_filters := fs @ gs\<rparr>) d \<and>
    ((\<forall>g\<in>set (fs @ gs). \<not> sf_log g \<and> run (sf_insns g) d = SECCOMP_RET_KILL_PROCESS) \<longrightarrow>
      run_chain fc d = Some (Allow, 0))"
proof -
  have skip: "run_filters (fs @ f # gs) d SECCOMP_RET_ALLOW = run_filters (fs @ gs) d SECCOMP_RET_ALLOW"
    using assms(3,4) by (intro run_filters_skip) (simp_all add: seccomp_ret_defs)
  have "run_filters (fs @ gs) d SECCOMP_RET_ALLOW = Some SECCOMP_RET_ALLOW"
    if k: "\<forall>g\<in>set (fs @ gs). \<not> sf_log g \<and> run (sf_insns g) d = SECCOMP_RET_KILL_PROCESS"
  proof -
    have "Min (insert SECCOMP_RET_ALLOW ((\<lambda>f. run (sf_insns f) d) ` set (fs @ gs))) = SECCOMP_RET_ALLOW"
      using k by (intro Min_eqI) (auto simp: seccomp_ret_defs)
    then show ?thesis using k run_filters_min [of "fs @ gs" d SECCOMP_RET_ALLOW] by simp
  qed
  then show ?thesis using assms(1,2) skip by (auto simp: run_chain_def action_to_qsf_def seccomp_ret_defs)
qed

theorem kill_process_is_allowed_witness:
  "run_chain (install (ret_prog SECCOMP_RET_KILL_PROCESS) chain_new) (data_nr 59) = Some (Allow, 0) \<and>
   run_chain (install (ret_prog 0x00050001) (install (ret_prog SECCOMP_RET_KILL_PROCESS) chain_new)) (data_nr 59) =
   run_chain (install (ret_prog 0x00050001) chain_new) (data_nr 59)"
  using kill_process_is_allowed [of "install (ret_prog SECCOMP_RET_KILL_PROCESS) chain_new" "[]"
      "ret_prog SECCOMP_RET_KILL_PROCESS" "[]" "data_nr 59"]
    kill_process_is_allowed [of "install (ret_prog 0x00050001) (install (ret_prog SECCOMP_RET_KILL_PROCESS) chain_new)"
      "[]" "ret_prog SECCOMP_RET_KILL_PROCESS" "[ret_prog 0x00050001]" "data_nr 59"]
  by (simp add: run_ret_prog install_def chain_new_def not_log_ret_prog) metis

text \<open>
  The return-accumulator instruction does not return the accumulator.  The code
  tests bit 3 of the opcode against the constant 0x10, which never matches, so for
  every instruction of the return class, BPF_RET with BPF_A included, the machine
  returns the constant of the instruction whatever the accumulator holds.
\<close>
theorem ret_never_returns_accumulator:
  assumes "bi_class i = BPF_RET"
  shows "bpf_exec i d s = Return (bi_k i)"
  using assms by (rule bpf_exec_ret)

theorem ret_never_returns_accumulator_witness:
  "bpf_exec \<lparr>bi_code = 0x16, bi_jt = 0, bi_jf = 0, bi_k = 0\<rparr> (data_nr 1)
     (bpf_start\<lparr>bs_a := 0x7FFF0000\<rparr>) = Return 0"
  using ret_never_returns_accumulator
    [of "\<lparr>bi_code = 0x16, bi_jt = 0, bi_jf = 0, bi_k = 0\<rparr>"] by (simp add: bi_class_def)

end
