(* ===== verification/Qsf_Security.thy ===== *)
theory Qsf_Security
  imports Seccomp_Bpf
begin

text \<open>
  The security layers of kernel/src/security/mod.rs: file permissions, capabilities,
  mandatory labels and rules, the system call allow list, user pointer checks and the
  audit ring.  The parts that ask for the running process take what they read of it
  as an optional argument, the value \<open>with_current\<close> returns; the timer tick of an
  audit entry is an argument too.
\<close>

section \<open>Permissions and capabilities\<close>

definition MAY_READ :: u8 where "MAY_READ = 4"
definition MAY_WRITE :: u8 where "MAY_WRITE = 2"
definition MAY_EXEC :: u8 where "MAY_EXEC = 1"

definition dac_check :: "u32 \<Rightarrow> u32 \<Rightarrow> u32 \<Rightarrow> u32 \<Rightarrow> u32 \<Rightarrow> u8 \<Rightarrow> bool" where
  "dac_check uid gid file_uid file_gid mode access =
     (if uid = 0 then True
      else let shift = (if uid = file_uid then 6 else if gid = file_gid then 3 else 0) in
        drop_bit shift mode AND ucast access \<noteq> 0)"

definition current_dac_check :: "(u32 \<times> u32) option \<Rightarrow> u32 \<Rightarrow> u32 \<Rightarrow> u32 \<Rightarrow> u8 \<Rightarrow> bool" where
  "current_dac_check cur file_uid file_gid mode access =
     (let (uid, gid) = unwrap_or cur (0, 0) in dac_check uid gid file_uid file_gid mode access)"

datatype sandbox_level = SandboxNone | SandboxUser | SandboxRestricted | SandboxIsolated

record credentials =
  cr_uid :: u32
  cr_gid :: u32
  cr_euid :: u32
  cr_egid :: u32
  cap_eff :: u64
  cap_per :: u64
  cap_inh :: u64
  cr_sandbox :: sandbox_level

definition CAPS_ALL :: u64 where "CAPS_ALL = -1"
definition CAPS_NONE :: u64 where "CAPS_NONE = 0"
definition CAPS_DEFAULT_USER :: u64 where "CAPS_DEFAULT_USER = bit_mask 5 OR bit_mask 7 OR bit_mask 6"
definition CAP_NET_ADMIN :: u64 where "CAP_NET_ADMIN = bit_mask 12"

definition credentials_root :: credentials where
  "credentials_root = \<lparr>cr_uid = 0, cr_gid = 0, cr_euid = 0, cr_egid = 0,
     cap_eff = CAPS_ALL, cap_per = CAPS_ALL, cap_inh = CAPS_ALL, cr_sandbox = SandboxNone\<rparr>"

definition credentials_user :: "u32 \<Rightarrow> u32 \<Rightarrow> credentials" where
  "credentials_user uid gid = \<lparr>cr_uid = uid, cr_gid = gid, cr_euid = uid, cr_egid = gid,
     cap_eff = CAPS_DEFAULT_USER, cap_per = CAPS_DEFAULT_USER, cap_inh = CAPS_NONE,
     cr_sandbox = SandboxUser\<rparr>"

definition has_cap :: "u64 \<Rightarrow> credentials \<Rightarrow> bool" where
  "has_cap cap c \<longleftrightarrow> cr_uid c = 0 \<or> cap_eff c AND cap \<noteq> 0"

definition drop_cap :: "u64 \<Rightarrow> credentials \<Rightarrow> credentials" where
  "drop_cap cap c = c\<lparr>cap_eff := cap_eff c AND NOT cap, cap_per := cap_per c AND NOT cap\<rparr>"

definition exec_transition :: "u32 \<Rightarrow> u32 \<Rightarrow> credentials \<Rightarrow> credentials" where
  "exec_transition file_uid file_mode c =
     (let c1 = (if file_mode AND 0x800 \<noteq> 0 then c\<lparr>cr_euid := file_uid\<rparr> else c);
          c2 = c1\<lparr>cap_eff := cap_per c1 AND cap_inh c1\<rparr> in
      if cr_euid c2 = 0 then c2\<lparr>cap_eff := cap_per c2\<rparr> else c2)"

definition current_has_cap :: "u32 option \<Rightarrow> u64 \<Rightarrow> bool" where
  "current_has_cap cur_uid cap = (case cur_uid of None \<Rightarrow> False | Some uid \<Rightarrow> uid = 0)"

section \<open>Mandatory access control\<close>

type_synonym security_label = u64

definition LABEL_KERNEL :: security_label where "LABEL_KERNEL = 0"
definition LABEL_SYSTEM :: security_label where "LABEL_SYSTEM = 0x0100000000000000"
definition LABEL_USER :: security_label where "LABEL_USER = 0x0200000000000000"
definition LABEL_UNTRUSTED :: security_label where "LABEL_UNTRUSTED = 0x0300000000000000"
definition LABEL_RESTRICTED :: security_label where "LABEL_RESTRICTED = 0x0400000000000000"

lemmas label_defs = LABEL_KERNEL_def LABEL_SYSTEM_def LABEL_USER_def LABEL_UNTRUSTED_def LABEL_RESTRICTED_def

definition label_level :: "security_label \<Rightarrow> u8" where
  "label_level l = ucast (drop_bit 56 l AND 0xFF)"

definition label_category :: "security_label \<Rightarrow> u32" where
  "label_category l = ucast (drop_bit 32 l AND 0xFFFFFF)"

definition label_integrity :: "security_label \<Rightarrow> u8" where
  "label_integrity l = ucast (drop_bit 24 l AND 0xFF)"

definition can_flow :: "security_label \<Rightarrow> security_label \<Rightarrow> bool" where
  "can_flow subject object = (if subject = LABEL_KERNEL then True else label_level subject \<ge> label_level object)"

definition MAC_READ :: u32 where "MAC_READ = 1"
definition MAC_WRITE :: u32 where "MAC_WRITE = 2"
definition MAC_EXEC :: u32 where "MAC_EXEC = 4"

definition mac_allows :: "u32 \<Rightarrow> u32 \<Rightarrow> bool" where
  "mac_allows granted access \<longleftrightarrow> granted AND access = access"

record mac_rule =
  mr_subject :: security_label
  mr_object :: security_label
  mr_access :: u32

record mac_policy =
  mp_rules :: "mac_rule list"
  mp_enabled :: bool
  mp_default_deny :: bool

definition rule_matches :: "security_label \<Rightarrow> security_label \<Rightarrow> mac_rule \<Rightarrow> bool" where
  "rule_matches subject object r \<longleftrightarrow> mr_subject r = subject \<and> mr_object r = object"

definition policy_check :: "security_label \<Rightarrow> security_label \<Rightarrow> u32 \<Rightarrow> mac_policy \<Rightarrow> bool" where
  "policy_check subject object access pol =
     (if \<not> mp_enabled pol then True
      else if subject = LABEL_KERNEL then True
      else if \<not> can_flow subject object then False
      else case find (rule_matches subject object) (mp_rules pol) of
        Some r \<Rightarrow> mac_allows (mr_access r) access
      | None \<Rightarrow> \<not> mp_default_deny pol)"

definition policy_add_rule :: "security_label \<Rightarrow> security_label \<Rightarrow> u32 \<Rightarrow> mac_policy \<Rightarrow> mac_policy" where
  "policy_add_rule subject object access pol =
     pol\<lparr>mp_rules := filter (\<lambda>r. \<not> rule_matches subject object r) (mp_rules pol)
           @ [\<lparr>mr_subject = subject, mr_object = object, mr_access = access\<rparr>]\<rparr>"

section \<open>System call allow list\<close>

record syscall_filter =
  flt_bitmap :: "u64 list"
  flt_active :: bool
  flt_kill :: bool

definition filter_allow_all :: syscall_filter where
  "filter_allow_all = \<lparr>flt_bitmap = replicate 8 (-1), flt_active = False, flt_kill = False\<rparr>"

definition filter_deny_all :: syscall_filter where
  "filter_deny_all = \<lparr>flt_bitmap = replicate 8 0, flt_active = True, flt_kill = True\<rparr>"

definition filter_allow :: "nat \<Rightarrow> syscall_filter \<Rightarrow> syscall_filter" where
  "filter_allow nr f = (if nr < 512 then f\<lparr>flt_bitmap := bm_set (flt_bitmap f) nr\<rparr> else f)"

definition filter_deny :: "nat \<Rightarrow> syscall_filter \<Rightarrow> syscall_filter" where
  "filter_deny nr f = (if nr < 512 then f\<lparr>flt_bitmap := bm_clr (flt_bitmap f) nr\<rparr> else f)"

definition is_allowed :: "nat \<Rightarrow> syscall_filter \<Rightarrow> bool" where
  "is_allowed nr f = (if \<not> flt_active f \<or> 512 \<le> nr then True else bm_test (flt_bitmap f) nr)"

definition allow_each :: "nat list \<Rightarrow> syscall_filter \<Rightarrow> syscall_filter" where
  "allow_each nrs f = fold filter_allow nrs f"

definition profile_shell :: syscall_filter where
  "profile_shell =
     (let f = filter_deny_all;
          f = allow_each [0,1,2,3,4,5,6,8,9,10,11,12,17,18,19,20,21,22,32,33,72,74,75,76,77,
                78,79,80,82,83,84,85,86,87,88,89,90,91,92,94,95,133,161,162,217,
                257,258,259,260,261,262,263,264,265,266,267,268,269,280] f;
          f = allow_each [13,14,15,24,34,35,39,56,57,58,59,60,61,62,63,101,102,104,107,108,
                109,110,111,112,113,114,115,116,158,186,200,204,218,231] f;
          f = allow_each [9,10,11,12,25,26,27,28] f;
          f = allow_each [96,97,98,100,201,202,203,228] f;
          f = allow_each [16,63,99,103,125,126,127,130,131,157,160,302,318,435] f in
      f\<lparr>flt_active := True\<rparr>)"

definition profile_network_service :: syscall_filter where
  "profile_network_service =
     allow_each [41,42,43,44,45,46,47,48,49,50,51,52,53,54,55,
       213,214,215,233,281,282,283,284,285,286,287,288,290,291,292,293] profile_shell"

definition profile_minimal :: syscall_filter where
  "profile_minimal = allow_each [0, 1, 60, 231, 35, 39] filter_deny_all"

section \<open>Audit ring\<close>

definition AUDIT_RING_SIZE :: nat where "AUDIT_RING_SIZE = 256"

datatype audit_event =
    SyscallBlocked pid u64
  | CapDenied pid u64
  | MacDenied security_label security_label u32
  | ExecEvent pid "u8 list"
  | SetuidEvent pid u32 u32
  | NetworkConnect pid u32 u16
  | FileDenied pid "u8 list"

record audit_entry =
  ae_tick :: u64
  ae_pid :: pid
  ae_kind :: u8
  ae_detail :: "u8 list"

record audit_ring =
  ar_entries :: "audit_entry list"
  ar_head :: u64
  ar_total :: u64

definition audit_entry_zero :: audit_entry where
  "audit_entry_zero = \<lparr>ae_tick = 0, ae_pid = 0, ae_kind = 0, ae_detail = replicate 48 0\<rparr>"

definition audit_ring_new :: audit_ring where
  "audit_ring_new = \<lparr>ar_entries = replicate AUDIT_RING_SIZE audit_entry_zero, ar_head = 0, ar_total = 0\<rparr>"

definition audit_push :: "u64 \<Rightarrow> pid \<Rightarrow> u8 \<Rightarrow> u8 list \<Rightarrow> audit_ring \<Rightarrow> audit_ring" where
  "audit_push tick p kind detail r =
     (let i = unat (ar_head r) mod AUDIT_RING_SIZE; old = ar_entries r ! i; n = min (length detail) 48 in
      r\<lparr>ar_entries := (ar_entries r)[i := \<lparr>ae_tick = tick, ae_pid = p, ae_kind = kind,
            ae_detail = take n detail @ drop n (ae_detail old)\<rparr>],
        ar_head := ar_head r + 1, ar_total := ar_total r + 1\<rparr>)"

fun dec_digits :: "nat \<Rightarrow> u8 list" where
  "dec_digits n = (if n < 10 then [48 + of_nat n] else dec_digits (n div 10) @ [48 + of_nat (n mod 10)])"

fun hex_digits :: "nat \<Rightarrow> u8 list" where
  "hex_digits n =
     (let digit = (\<lambda>d. if d < 10 then 48 + of_nat d else 87 + of_nat d) in
      if n < 16 then [digit n] else hex_digits (n div 16) @ [digit (n mod 16)])"

declare dec_digits.simps [simp del] hex_digits.simps [simp del]

definition bytes :: "string \<Rightarrow> u8 list" where
  "bytes s = map (\<lambda>c. of_nat (of_char c)) s"

definition hex_alt :: "nat \<Rightarrow> u8 list" where
  "hex_alt n = bytes ''0x'' @ hex_digits n"

definition detail48 :: "u8 list \<Rightarrow> u8 list" where
  "detail48 s = take 48 s @ replicate (48 - length s) 0"

primrec show_rest :: "u8 list \<Rightarrow> u8 list" where
  "show_rest [] = []"
| "show_rest (b # bs) = bytes '', '' @ dec_digits (unat b) @ show_rest bs"

text \<open>The debug form of a byte slice: decimal numbers between square brackets.\<close>

definition show_bytes :: "u8 list \<Rightarrow> u8 list" where
  "show_bytes bs = bytes ''['' @ (case bs of [] \<Rightarrow> [] | b # t \<Rightarrow> dec_digits (unat b) @ show_rest t) @ bytes '']''"

definition audit_line :: "audit_entry \<Rightarrow> u8 list" where
  "audit_line e = bytes ''tick='' @ dec_digits (unat (ae_tick e)) @ bytes '' pid='' @ dec_digits (unat (ae_pid e)) @
     bytes '' kind='' @ dec_digits (unat (ae_kind e)) @ bytes '' detail='' @
     show_bytes (takeWhile (\<lambda>b. b \<noteq> 0) (ae_detail e)) @ [10]"

definition audit_read_text :: "audit_ring \<Rightarrow> u8 list" where
  "audit_read_text r =
     (let start = (if of_nat AUDIT_RING_SIZE \<le> ar_total r then unat (ar_head r) mod AUDIT_RING_SIZE else 0);
          count = unat (min (ar_total r) (of_nat AUDIT_RING_SIZE)) in
      concat (map (\<lambda>i. audit_line (ar_entries r ! ((start + i) mod AUDIT_RING_SIZE))) [0..<count]))"

definition event_fields :: "audit_event \<Rightarrow> pid \<times> u8 \<times> u8 list" where
  "event_fields e = (case e of
       SyscallBlocked p nr \<Rightarrow> (p, 1, detail48 (bytes ''nr='' @ dec_digits (unat nr)))
     | CapDenied p cap \<Rightarrow> (p, 2, detail48 (bytes ''cap='' @ hex_alt (unat cap)))
     | MacDenied s obj a \<Rightarrow> (0, 3, detail48 (bytes ''s='' @ hex_alt (unat s) @ bytes '' o='' @
          hex_alt (unat obj) @ bytes '' a='' @ hex_alt (unat a)))
     | ExecEvent p path \<Rightarrow> (p, 4, detail48 path)
     | SetuidEvent p old new \<Rightarrow>
          (p, 5, detail48 (dec_digits (unat old) @ [0xE2, 0x86, 0x92] @ dec_digits (unat new)))
     | NetworkConnect p ip port \<Rightarrow> (p, 6, detail48 (dec_digits (unat (drop_bit 24 ip)) @ bytes ''.'' @
          dec_digits (unat (drop_bit 16 ip AND 0xFF)) @ bytes ''.'' @
          dec_digits (unat (drop_bit 8 ip AND 0xFF)) @ bytes ''.'' @
          dec_digits (unat (ip AND 0xFF)) @ bytes '':'' @ dec_digits (unat port)))
     | FileDenied p path \<Rightarrow> (p, 7, detail48 path))"

section \<open>Global state and the unified checks\<close>

record qsf_state =
  MAC_POLICY :: mac_policy
  MAC_ENABLED :: bool
  ASI_ENABLED :: bool
  AUDIT :: "audit_ring option"
  AUDIT_ENABLED :: bool

definition qsf_boot :: qsf_state where
  "qsf_boot = \<lparr>MAC_POLICY = \<lparr>mp_rules = [], mp_enabled = False, mp_default_deny = False\<rparr>,
     MAC_ENABLED = False, ASI_ENABLED = True, AUDIT = None, AUDIT_ENABLED = False\<rparr>"

definition audit_enable :: "qsf_state \<Rightarrow> qsf_state" where
  "audit_enable s = s\<lparr>AUDIT := Some audit_ring_new, AUDIT_ENABLED := True\<rparr>"

definition audit_log :: "u64 \<Rightarrow> audit_event \<Rightarrow> qsf_state \<Rightarrow> qsf_state" where
  "audit_log tick e s =
     (if \<not> AUDIT_ENABLED s then s
      else case AUDIT s of
        None \<Rightarrow> s
      | Some r \<Rightarrow> let (p, kind, detail) = event_fields e in
          s\<lparr>AUDIT := Some (audit_push tick p kind detail r)\<rparr>)"

definition audit_read :: "qsf_state \<Rightarrow> u8 list" where
  "audit_read s = (case AUDIT s of None \<Rightarrow> [] | Some r \<Rightarrow> audit_read_text r)"

definition mac_enable :: "qsf_state \<Rightarrow> qsf_state" where
  "mac_enable s = s\<lparr>MAC_ENABLED := True, MAC_POLICY := (MAC_POLICY s)\<lparr>mp_enabled := True\<rparr>\<rparr>"

definition mac_disable :: "qsf_state \<Rightarrow> qsf_state" where
  "mac_disable s = s\<lparr>MAC_ENABLED := False, MAC_POLICY := (MAC_POLICY s)\<lparr>mp_enabled := False\<rparr>\<rparr>"

definition mac_add_rule :: "security_label \<Rightarrow> security_label \<Rightarrow> u32 \<Rightarrow> qsf_state \<Rightarrow> qsf_state" where
  "mac_add_rule subject object access s =
     s\<lparr>MAC_POLICY := policy_add_rule subject object access (MAC_POLICY s)\<rparr>"

definition mac_check :: "u64 \<Rightarrow> security_label \<Rightarrow> security_label \<Rightarrow> u32 \<Rightarrow> qsf_state \<Rightarrow> bool \<times> qsf_state" where
  "mac_check tick subject object access s =
     (if \<not> MAC_ENABLED s then (True, s)
      else let ok = policy_check subject object access (MAC_POLICY s) in
        (ok, if ok then s else audit_log tick (MacDenied subject object access) s))"

definition current_filter_check :: "u64 \<Rightarrow> (pid \<times> syscall_filter) option \<Rightarrow> u64 \<Rightarrow> qsf_state \<Rightarrow> qsf_result \<times> qsf_state" where
  "current_filter_check tick cur nr s =
     (case cur of
        None \<Rightarrow> (Allow, s)
      | Some (p, f) \<Rightarrow>
          if \<not> flt_active f \<or> is_allowed (unat nr) f then (Allow, s)
          else (if flt_kill f then Kill else Deny, audit_log tick (SyscallBlocked p nr) s))"

definition USER_TOP :: u64 where "USER_TOP = 0x0000800000000000"

definition verify_user_ptr :: "(u64 \<times> u64) list option \<Rightarrow> u64 \<Rightarrow> u64 \<Rightarrow> qsf_state \<Rightarrow> bool" where
  "verify_user_ptr cur_regions ptr len s =
     (if ptr = 0 then len = 0
      else if ptr \<ge> USER_TOP then False
      else if len = 0 then True
      else if 2 ^ 64 \<le> unat ptr + unat len then False
      else let e = ptr + len in
        if e > USER_TOP then False
        else if \<not> ASI_ENABLED s then True
        else case cur_regions of
          None \<Rightarrow> True
        | Some rs \<Rightarrow> list_ex (\<lambda>(start, stop). start \<le> ptr \<and> e \<le> stop) rs)"

definition qsf_check_file :: "u64 \<Rightarrow> u32 \<Rightarrow> u32 \<Rightarrow> u32 \<Rightarrow> u32 \<Rightarrow> u32 \<Rightarrow> u8 \<Rightarrow> security_label \<Rightarrow> security_label \<Rightarrow>
    qsf_state \<Rightarrow> qsf_result \<times> qsf_state" where
  "qsf_check_file tick uid gid file_uid file_gid file_mode access subject object s =
     (if \<not> dac_check uid gid file_uid file_gid file_mode access then (Deny, s)
      else let mac_access = (if access AND MAY_READ \<noteq> 0 then MAC_READ
                             else if access AND MAY_WRITE \<noteq> 0 then MAC_WRITE
                             else if access AND MAY_EXEC \<noteq> 0 then MAC_EXEC
                             else MAC_READ);
               (ok, s') = mac_check tick subject object mac_access s in
        (if ok then Allow else Deny, s'))"

definition qsf_check_network :: "u64 \<Rightarrow> u32 option \<Rightarrow> pid \<Rightarrow> u32 \<Rightarrow> u16 \<Rightarrow> qsf_state \<Rightarrow> qsf_result \<times> qsf_state" where
  "qsf_check_network tick cur_uid p dst_ip dst_port s =
     (if \<not> current_has_cap cur_uid CAP_NET_ADMIN \<and> dst_port \<noteq> 0 \<and> dst_port \<le> 1023 \<and> unwrap_or cur_uid 1 \<noteq> 0
      then (Deny, s)
      else (Allow, if AUDIT_ENABLED s \<and> dst_ip \<noteq> 0x7F000001
                   then audit_log tick (NetworkConnect p dst_ip dst_port) s else s))"

record namespaces =
  n_pid_ns :: u32
  n_net_ns :: u32
  n_mnt_ns :: u32
  n_uts_ns :: u32
  n_ipc_ns :: u32
  n_user_ns :: u32

definition namespaces_root :: namespaces where
  "namespaces_root = \<lparr>n_pid_ns = 0, n_net_ns = 0, n_mnt_ns = 0, n_uts_ns = 0, n_ipc_ns = 0, n_user_ns = 0\<rparr>"

section \<open>The audit ring keeps the latest entries\<close>

definition event_entry :: "u64 \<times> audit_event \<Rightarrow> audit_entry" where
  "event_entry x = (case event_fields (snd x) of (p, k, d) \<Rightarrow>
     \<lparr>ae_tick = fst x, ae_pid = p, ae_kind = k, ae_detail = d\<rparr>)"

definition ring_holds :: "audit_entry list \<Rightarrow> audit_ring \<Rightarrow> bool" where
  "ring_holds es r \<longleftrightarrow> ar_head r = of_nat (length es) \<and> ar_total r = of_nat (length es) \<and>
     length (ar_entries r) = AUDIT_RING_SIZE \<and> (\<forall>e\<in>set (ar_entries r). length (ae_detail e) = 48) \<and>
     (\<forall>j<length es. length es \<le> j + AUDIT_RING_SIZE \<longrightarrow> ar_entries r ! (j mod AUDIT_RING_SIZE) = es ! j)"

lemma ring_size_pos [simp]: "0 < AUDIT_RING_SIZE"
  by (simp add: AUDIT_RING_SIZE_def)

lemma ring_holds_new: "ring_holds [] audit_ring_new"
  by (simp add: ring_holds_def audit_ring_new_def audit_entry_zero_def)

lemma length_detail48: "length (detail48 t) = 48"
  by (simp add: detail48_def)

lemma event_detail: "length (ae_detail (event_entry x)) = 48"
  by (auto simp: event_entry_def event_fields_def length_detail48 split: audit_event.splits)

lemma mod_window_inj:
  fixes j n C :: nat
  assumes "j < n" "n < j + C" "j mod C = n mod C"
  shows False
proof -
  have "C dvd n - j" using assms(1,3) mod_eq_dvd_iff_nat [of j n C] by simp
  then have "C \<le> n - j" using assms(1) by (intro dvd_imp_le) auto
  then show False using assms(1,2) by linarith
qed

text \<open>The head counter wraps at a multiple of the ring size, so the slot is the count modulo the size.\<close>

lemma head_slot: "unat (of_nat n :: u64) mod AUDIT_RING_SIZE = n mod AUDIT_RING_SIZE"
  by (simp add: unat_of_nat AUDIT_RING_SIZE_def mod_mod_cancel)

lemma ring_holds_push:
  assumes "ring_holds es r" "e = \<lparr>ae_tick = t, ae_pid = p, ae_kind = k, ae_detail = d\<rparr>" "length d = 48"
  shows "ring_holds (es @ [e]) (audit_push t p k d r)"
proof -
  let ?C = AUDIT_RING_SIZE and ?n = "length es"
  have r: "ar_head r = of_nat ?n" "ar_total r = of_nat ?n" "length (ar_entries r) = ?C"
    "\<forall>e\<in>set (ar_entries r). length (ae_detail e) = 48"
    "\<And>j. j < ?n \<Longrightarrow> ?n \<le> j + ?C \<Longrightarrow> ar_entries r ! (j mod ?C) = es ! j"
    using assms(1) by (auto simp: ring_holds_def)
  have "length (ae_detail (ar_entries r ! (?n mod ?C))) = 48" using r(3,4) by simp
  then have pu: "ar_entries (audit_push t p k d r) = (ar_entries r)[?n mod ?C := e]"
    using assms(2,3) r(1) by (simp add: audit_push_def Let_def head_slot)
  have "(ar_entries r)[?n mod ?C := e] ! (j mod ?C) = (es @ [e]) ! j"
    if "j < Suc ?n" "Suc ?n \<le> j + ?C" for j
  proof (cases "j = ?n")
    case False
    then have "j mod ?C \<noteq> ?n mod ?C" using that mod_window_inj [of j ?n ?C] by auto
    then show ?thesis using False that r(5) [of j] by (simp add: nth_append)
  qed (use r(3) in simp)
  moreover have "length (ae_detail e) = 48" using assms(2,3) by simp
  moreover have "ar_head (audit_push t p k d r) = of_nat (Suc ?n)" "ar_total (audit_push t p k d r) = of_nat (Suc ?n)"
    using r by (simp_all add: audit_push_def Let_def)
  ultimately show ?thesis
    using r(3,4) pu set_update_subset_insert [of "ar_entries r" "?n mod ?C" e]
    by (auto simp: ring_holds_def)
qed

lemma ring_holds_log:
  assumes "AUDIT_ENABLED s" "AUDIT s = Some r" "ring_holds es r"
  shows "\<exists>r'. AUDIT (fold (\<lambda>(t, e). audit_log t e) xs s) = Some r' \<and> ring_holds (es @ map event_entry xs) r'"
  using assms
proof (induction xs arbitrary: es r s)
  case (Cons x xs)
  obtain t e where x: "x = (t, e)" by (cases x)
  obtain p k d where f: "event_fields e = (p, k, d)" by (cases "event_fields e")
  then have en: "event_entry x = \<lparr>ae_tick = t, ae_pid = p, ae_kind = k, ae_detail = d\<rparr>"
    by (simp add: event_entry_def x)
  then have "length d = 48" using event_detail [of x] by simp
  then have "ring_holds (es @ [event_entry x]) (audit_push t p k d r)"
    by (rule ring_holds_push [OF Cons.prems(3) en])
  then show ?case
    using Cons.IH [of "audit_log t e s" "audit_push t p k d r" "es @ [event_entry x]"] Cons.prems(1,2) f
    by (simp add: x audit_log_def)
qed simp

lemma ring_holds_read:
  assumes "ring_holds es r" "length es < 2 ^ 64"
  shows "audit_read_text r = concat (map audit_line (drop (length es - AUDIT_RING_SIZE) es))"
proof -
  let ?C = AUDIT_RING_SIZE and ?n = "length es"
  have u: "unat (of_nat ?n :: u64) = ?n" using assms(2) by (simp add: unat_of_nat)
  have c: "unat (of_nat ?C :: u64) = ?C" by (simp add: AUDIT_RING_SIZE_def)
  have r: "unat (ar_head r) = ?n" "unat (ar_total r) = ?n"
    "\<And>j. j < ?n \<Longrightarrow> ?n \<le> j + ?C \<Longrightarrow> ar_entries r ! (j mod ?C) = es ! j"
    using assms(1) u by (auto simp: ring_holds_def)
  have le: "of_nat ?C \<le> ar_total r \<longleftrightarrow> ?C \<le> ?n" using r(2) c by (simp add: word_le_nat_alt)
  have count: "unat (min (ar_total r) (of_nat ?C)) = min ?n ?C" using r(2) c le by (auto simp: min_def word_le_nat_alt)
  define start where "start = (if ?C \<le> ?n then ?n mod ?C else 0)"
  have "map (\<lambda>i. ar_entries r ! ((start + i) mod ?C)) [0..<min ?n ?C] = drop (?n - ?C) es"
  proof (rule nth_equalityI)
    fix i assume "i < length (map (\<lambda>i. ar_entries r ! ((start + i) mod ?C)) [0..<min ?n ?C])"
    then have i: "i < ?n" "i < ?C" by auto
    have "(start + i) mod ?C = (?n - ?C + i) mod ?C"
    proof (cases "?C \<le> ?n")
      case True
      have "(?n mod ?C + i) mod ?C = (?n - ?C + i) mod ?C"
        by (rule mod_add_cong) (simp_all add: le_mod_geq [OF True])
      then show ?thesis using True by (simp add: start_def)
    qed (simp add: start_def)
    moreover have "ar_entries r ! ((?n - ?C + i) mod ?C) = es ! (?n - ?C + i)"
      using i by (intro r(3)) auto
    ultimately show "map (\<lambda>i. ar_entries r ! ((start + i) mod ?C)) [0..<min ?n ?C] ! i = drop (?n - ?C) es ! i"
      using i by (cases "?C \<le> ?n") simp_all
  qed (simp add: min_def)
  then have "map audit_line (drop (?n - ?C) es) =
      map (\<lambda>i. audit_line (ar_entries r ! ((start + i) mod ?C))) [0..<min ?n ?C]"
    by (metis (no_types, lifting) map_map comp_def map_eq_conv)
  then show ?thesis by (simp add: audit_read_text_def Let_def le count r(1) start_def)
qed

section \<open>The allow list is a set\<close>

definition filter_set :: "syscall_filter \<Rightarrow> nat set" where
  "filter_set f = bm.members (flt_bitmap f)"

lemma filter_set_allow_each:
  "length (flt_bitmap f) = 8 \<Longrightarrow>
   filter_set (allow_each nrs f) = filter_set f \<union> {n \<in> set nrs. n < 512} \<and>
   length (flt_bitmap (allow_each nrs f)) = 8 \<and> flt_active (allow_each nrs f) = flt_active f"
proof (induction nrs arbitrary: f)
  case (Cons n nrs)
  have "filter_set (filter_allow n f) = filter_set f \<union> {m. m = n \<and> m < 512}" "length (flt_bitmap (filter_allow n f)) = 8"
    "flt_active (filter_allow n f) = flt_active f"
    using Cons.prems bm.members_ins [of n "flt_bitmap f"] by (auto simp: filter_allow_def filter_set_def)
  then show ?case using Cons.IH [of "filter_allow n f"] by (auto simp: allow_each_def)
qed (simp add: allow_each_def)

lemma is_allowed_set:
  "flt_active f \<Longrightarrow> length (flt_bitmap f) = 8 \<Longrightarrow> nr < 512 \<Longrightarrow> is_allowed nr f \<longleftrightarrow> nr \<in> filter_set f"
  by (simp add: is_allowed_def filter_set_def bm.members_def)

lemma deny_all_facts: "filter_set filter_deny_all = {}" "length (flt_bitmap filter_deny_all) = 8"
  "flt_active filter_deny_all"
proof -
  have "i < 512 \<Longrightarrow> \<not> bm_test (replicate 8 0) i" for i
    by (rule bm_test_zero) (simp add: less_mult_imp_div_less)
  then show "filter_set filter_deny_all = {}"
    unfolding filter_set_def bm.members_def filter_deny_all_def by simp
qed (simp_all add: filter_deny_all_def)

section \<open>Properties of the security layers\<close>

text \<open>
  C36. What the check of a user pointer accepts, in every case.  An empty range is accepted
  exactly when its address is below the user limit, mapped or not.  A non-empty
  range is accepted exactly when its address is not null, it ends at or below the
  user limit without wrapping around, and, if address space integrity is on and
  there is a running process, it lies inside one region of that process; with
  integrity off or no running process the regions are not consulted.  Nothing else
  counts: neither alignment nor the permissions of the region.
\<close>
theorem verify_user_ptr_exact:
  "verify_user_ptr cur ptr len s \<longleftrightarrow>
    (if len = 0 then unat ptr < unat USER_TOP
     else ptr \<noteq> 0 \<and> unat ptr + unat len \<le> unat USER_TOP \<and>
       (\<not> ASI_ENABLED s \<or> cur = None \<or>
        (\<exists>rs lo hi. cur = Some rs \<and> (lo, hi) \<in> set rs \<and> unat lo \<le> unat ptr \<and> unat ptr + unat len \<le> unat hi)))"
proof (cases "len = 0")
  case True
  then show ?thesis by (auto simp: verify_user_ptr_def word_less_nat_alt word_le_nat_alt USER_TOP_def)
next
  case False
  have top: "unat USER_TOP = 2 ^ 47" by (simp add: USER_TOP_def)
  have pos: "0 < unat len" using False by (simp add: unat_gt_0)
  show ?thesis
  proof (cases "unat ptr + unat len < 2 ^ 64")
    case True
    then have sum: "unat (ptr + len) = unat ptr + unat len" by (simp add: unat_word_ariths)
    show ?thesis
      using True pos top False
      by (auto simp: verify_user_ptr_def sum Let_def word_le_nat_alt word_less_nat_alt list_ex_iff
          split: option.splits)
  qed (use top pos False in \<open>auto simp: verify_user_ptr_def\<close>)
qed

theorem verify_user_ptr_exact_witness:
  "verify_user_ptr (Some [(0x1000, 0x3000)]) 0x1ff0 0x20 qsf_boot \<and>
   \<not> verify_user_ptr (Some [(0x1000, 0x3000)]) 0x2ff0 0x20 qsf_boot \<and>
   verify_user_ptr (Some [(0x1000, 0x3000)]) 0x5000 0 qsf_boot \<and>
   verify_user_ptr None 0x2ff0 0x20 qsf_boot"
  unfolding verify_user_ptr_exact by (auto simp: USER_TOP_def qsf_boot_def)

text \<open>
  C37. The audit log reads back the latest 256 events.  After auditing is switched on and
  any sequence of fewer than \<open>2 ^ 64\<close> events is logged, each at its tick, the text of
  /proc/qsf/audit is one line for each of the most recent 256 events (all of them when
  there are fewer), oldest first, with the tick, process and kind of the event and the
  bytes of its 48-byte detail up to the first zero byte.  The counters are the 64-bit
  counters of the ring.
\<close>
theorem audit_ring_latest:
  assumes "length xs < 2 ^ 64"
  shows "audit_read (fold (\<lambda>(t, e). audit_log t e) xs (audit_enable s)) =
    concat (map (audit_line \<circ> event_entry) (drop (length xs - AUDIT_RING_SIZE) xs))"
proof -
  obtain r where "AUDIT (fold (\<lambda>(t, e). audit_log t e) xs (audit_enable s)) = Some r"
    "ring_holds (map event_entry xs) r"
    using ring_holds_log [OF _ _ ring_holds_new, of "audit_enable s" xs] by (auto simp: audit_enable_def)
  then show ?thesis
    using ring_holds_read [of "map event_entry xs" r] assms by (simp add: audit_read_def drop_map)
qed

theorem audit_ring_latest_witness:
  "audit_read (fold (\<lambda>(t, e). audit_log t e) [(5, SyscallBlocked 7 9)] (audit_enable qsf_boot)) =
   bytes ''tick=5 pid=7 kind=1 detail=[110, 114, 61, 57]'' @ [10]"
proof -
  have "audit_line (event_entry (5, SyscallBlocked 7 9)) =
      bytes ''tick=5 pid=7 kind=1 detail=[110, 114, 61, 57]'' @ [10]"
    by code_simp
  then show ?thesis
    using audit_ring_latest [of "[(5, SyscallBlocked 7 9)]" qsf_boot] by (simp add: AUDIT_RING_SIZE_def)
qed

text \<open>
  The system call profiles.  Below 512 the minimal profile admits exactly read,
  write, nanosleep, getpid, exit and exit group, and the network profile admits
  everything the shell profile does; but a number of 512 or more is admitted by
  every filter, the one that denies everything included.
\<close>
theorem filter_profiles:
  "(nr < 512 \<longrightarrow> (is_allowed nr profile_minimal \<longleftrightarrow> nr \<in> {0, 1, 35, 39, 60, 231})) \<and>
   (is_allowed nr profile_shell \<longrightarrow> is_allowed nr profile_network_service) \<and>
   (512 \<le> nr \<longrightarrow> is_allowed nr filter_deny_all)"
proof -
  have "length (flt_bitmap profile_shell) = 8 \<and> flt_active profile_shell"
    unfolding profile_shell_def Let_def using filter_set_allow_each deny_all_facts(2) by simp
  then have "nr < 512 \<Longrightarrow> is_allowed nr profile_shell \<Longrightarrow> is_allowed nr profile_network_service"
    using filter_set_allow_each [of profile_shell] is_allowed_set
    unfolding profile_network_service_def by simp
  moreover have "512 \<le> nr \<Longrightarrow> is_allowed nr f" for f by (simp add: is_allowed_def)
  moreover have "nr < 512 \<Longrightarrow> is_allowed nr profile_minimal \<longleftrightarrow> nr \<in> {0, 1, 35, 39, 60, 231}"
    using filter_set_allow_each [OF deny_all_facts(2), of "[0, 1, 60, 231, 35, 39]"] deny_all_facts is_allowed_set
    unfolding profile_minimal_def by auto
  ultimately show ?thesis by (cases "nr < 512") auto
qed

theorem filter_profiles_witness:
  "is_allowed 60 profile_minimal \<and> \<not> is_allowed 59 profile_minimal \<and> is_allowed 600 filter_deny_all"
  using filter_profiles [of 60] filter_profiles [of 59] filter_profiles [of 600] by simp

text \<open>
  The label flow rule is the reverse of the documented integrity model.  Levels
  grow from the kernel (0) to restricted code (4); the check lets a subject act on every
  object of a level not above its own, so with the policy on and no rules a
  restricted process may write objects labelled system or kernel, while a system
  process may not even read an object labelled user.
\<close>
theorem mac_flow_reversed:
  assumes "MAC_ENABLED s" "mp_enabled (MAC_POLICY s)" "mp_rules (MAC_POLICY s) = []" "\<not> mp_default_deny (MAC_POLICY s)"
  shows "fst (mac_check t LABEL_RESTRICTED LABEL_SYSTEM MAC_WRITE s) \<and>
    fst (mac_check t LABEL_RESTRICTED LABEL_KERNEL MAC_WRITE s) \<and>
    \<not> fst (mac_check t LABEL_SYSTEM LABEL_USER MAC_READ s)"
  using assms
  by (simp add: mac_check_def policy_check_def can_flow_def label_level_def label_defs word_le_nat_alt)

theorem mac_flow_reversed_witness:
  "fst (mac_check 0 LABEL_RESTRICTED LABEL_SYSTEM MAC_WRITE (mac_enable qsf_boot))"
  using mac_flow_reversed [of "mac_enable qsf_boot" 0] by (simp add: mac_enable_def qsf_boot_def)

text \<open>
  File permissions are granted bit by bit.  For a user other than root the check of
  a combined access passes as soon as one of the requested permissions is granted:
  a file that grants its owner only reading passes a check for reading and writing.
\<close>
theorem dac_any_bit_suffices:
  assumes "uid \<noteq> 0"
  shows "dac_check uid gid uid file_gid mode (a OR b) \<longleftrightarrow>
    dac_check uid gid uid file_gid mode a \<or> dac_check uid gid uid file_gid mode b"
proof -
  have "drop_bit 6 mode AND (ucast (a OR b) :: u32) =
      (drop_bit 6 mode AND ucast a) OR (drop_bit 6 mode AND ucast b)"
    by (rule bit_word_eqI) (auto simp: bit_simps)
  moreover have "(x OR y = 0) \<longleftrightarrow> x = 0 \<and> y = 0" for x y :: u32
    by (auto simp: bit_eq_iff bit_or_iff)
  ultimately show ?thesis using assms by (simp add: dac_check_def)
qed

theorem dac_any_bit_suffices_witness:
  "dac_check 1000 1000 1000 1000 0x100 (MAY_READ OR MAY_WRITE) \<and> \<not> dac_check 1000 1000 1000 1000 0x100 MAY_WRITE"
  using dac_any_bit_suffices [of 1000 1000 1000 "0x100" MAY_READ MAY_WRITE]
  by (simp add: dac_check_def MAY_READ_def MAY_WRITE_def)

end
