(* ===== verification/Namespaces.thy ===== *)
theory Namespaces
  imports Qsf_Security
begin

text \<open>
  Namespaces of kernel/src/security/namespace.rs: the six tables, the creation of
  namespaces by clone, the checks on signals and sockets, and the id maps of user
  namespaces with their text format.  Texts are ASCII, so white space is the ASCII
  white space.  Calls that read the process table take what they read (the caller's
  namespaces) as an argument.
\<close>

section \<open>Tables\<close>

definition CLONE_NEWUTS :: u64 where "CLONE_NEWUTS = 0x04000000"
definition CLONE_NEWIPC :: u64 where "CLONE_NEWIPC = 0x08000000"
definition CLONE_NEWPID :: u64 where "CLONE_NEWPID = 0x20000000"
definition CLONE_NEWNET :: u64 where "CLONE_NEWNET = 0x40000000"

record uts_namespace =
  uts_id :: u32
  uts_hostname :: string
  uts_domname :: string
  uts_sysname :: string
  uts_release :: string
  uts_version :: string
  uts_machine :: string

record pid_namespace =
  pn_id :: u32
  pn_pid_map :: "(u32, pid) btree"
  pn_rev_map :: "(pid, u32) btree"
  pn_next_local :: u32

record net_namespace =
  nn_id :: u32
  nn_socket_ids :: "u32 set"
  nn_loopback_ip :: u32

record ipc_namespace =
  in_id :: u32
  in_shm_ids :: "u32 set"
  in_sem_ids :: "u32 set"
  in_msg_ids :: "u32 set"

record id_map_entry =
  im_inner :: u32
  im_outer :: u32
  im_count :: u32

type_synonym id_map = "id_map_entry list"

record user_namespace =
  un_id :: u32
  un_uid_map :: id_map
  un_gid_map :: id_map
  un_parent :: u32

record ns_state =
  ns_next_id :: u32
  ns_uts :: "(u32, uts_namespace) btree"
  ns_pid :: "(u32, pid_namespace) btree"
  ns_net :: "(u32, net_namespace) btree"
  ns_ipc :: "(u32, ipc_namespace) btree"
  ns_mnt_roots :: "(u32, string) btree"
  ns_user :: "(u32, user_namespace) btree"

definition alloc_ns_id :: "ns_state \<Rightarrow> u32 \<times> ns_state" where
  "alloc_ns_id s = (ns_next_id s, s\<lparr>ns_next_id := ns_next_id s + 1\<rparr>)"

section \<open>UTS namespaces\<close>

definition uts_root :: uts_namespace where
  "uts_root = \<lparr>uts_id = 0, uts_hostname = ''qunix'', uts_domname = ''(none)'', uts_sysname = ''Qunix'',
     uts_release = ''5.0.0'', uts_version = ''#1 SMP Qunix 5.0.0'', uts_machine = ''x86_64''\<rparr>"

definition uts_fork :: "uts_namespace \<Rightarrow> ns_state \<Rightarrow> uts_namespace \<times> ns_state" where
  "uts_fork u s = (let (i, s) = alloc_ns_id s in (u\<lparr>uts_id := i\<rparr>, s))"

definition uts_ns_init :: "ns_state \<Rightarrow> ns_state" where
  "uts_ns_init s = s\<lparr>ns_uts := bt_insert 0 uts_root (ns_uts s)\<rparr>"

definition uts_get :: "u32 \<Rightarrow> ns_state \<Rightarrow> uts_namespace" where
  "uts_get i s = (case bt_get (ns_uts s) i of Some u \<Rightarrow> u | None \<Rightarrow> uts_root)"

definition uts_set_hostname :: "u32 \<Rightarrow> string \<Rightarrow> ns_state \<Rightarrow> ns_state" where
  "uts_set_hostname i h s = s\<lparr>ns_uts := bt_adjust i (\<lambda>u. u\<lparr>uts_hostname := h\<rparr>) (ns_uts s)\<rparr>"

section \<open>PID namespaces\<close>

definition pid_ns_root :: pid_namespace where
  "pid_ns_root = \<lparr>pn_id = 0, pn_pid_map = [], pn_rev_map = [], pn_next_local = 2\<rparr>"

definition pid_ns_new_child :: "ns_state \<Rightarrow> pid_namespace \<times> ns_state" where
  "pid_ns_new_child s = (let (i, s) = alloc_ns_id s in
     (\<lparr>pn_id = i, pn_pid_map = [], pn_rev_map = [], pn_next_local = 2\<rparr>, s))"

definition alloc_local :: "pid \<Rightarrow> pid_namespace \<Rightarrow> u32 \<times> pid_namespace" where
  "alloc_local kp n =
     (pn_next_local n,
      n\<lparr>pn_next_local := pn_next_local n + 1,
        pn_pid_map := bt_insert (pn_next_local n) kp (pn_pid_map n),
        pn_rev_map := bt_insert kp (pn_next_local n) (pn_rev_map n)\<rparr>)"

definition kernel_to_local :: "pid \<Rightarrow> pid_namespace \<Rightarrow> u32 option" where
  "kernel_to_local kp n = bt_get (pn_rev_map n) kp"

definition local_to_kernel :: "u32 \<Rightarrow> pid_namespace \<Rightarrow> pid option" where
  "local_to_kernel lp n = bt_get (pn_pid_map n) lp"

definition is_visible :: "pid \<Rightarrow> pid_namespace \<Rightarrow> bool" where
  "is_visible kp n = (pn_id n = 0 \<or> bt_get (pn_rev_map n) kp \<noteq> None)"

definition pid_ns_init :: "ns_state \<Rightarrow> ns_state" where
  "pid_ns_init s = s\<lparr>ns_pid := bt_insert 0 pid_ns_root (ns_pid s)\<rparr>"

definition pid_ns_can_signal :: "u32 \<Rightarrow> pid \<Rightarrow> ns_state \<Rightarrow> bool" where
  "pid_ns_can_signal sender_ns target s =
     (if sender_ns = 0 then True
      else case bt_get (ns_pid s) sender_ns of Some n \<Rightarrow> is_visible target n | None \<Rightarrow> False)"

definition pid_ns_resolve :: "u32 \<Rightarrow> u32 \<Rightarrow> ns_state \<Rightarrow> pid option" where
  "pid_ns_resolve ns lp s =
     (if ns = 0 then Some lp
      else case bt_get (ns_pid s) ns of Some n \<Rightarrow> local_to_kernel lp n | None \<Rightarrow> None)"

definition pid_ns_visible_pids :: "pid list \<Rightarrow> u32 \<Rightarrow> ns_state \<Rightarrow> pid list" where
  "pid_ns_visible_pids all ns s =
     (if ns = 0 then all
      else case bt_get (ns_pid s) ns of Some n \<Rightarrow> bt_keys (pn_rev_map n) | None \<Rightarrow> [])"

definition check_kill_permission :: "u32 option \<Rightarrow> pid \<Rightarrow> ns_state \<Rightarrow> bool" where
  "check_kill_permission sender_ns target s =
     (let ns = unwrap_or sender_ns 0 in if ns = 0 then True else pid_ns_can_signal ns target s)"

definition resolve_pid_for_current :: "pid \<Rightarrow> u32 option \<Rightarrow> u32 \<Rightarrow> ns_state \<Rightarrow> pid option" where
  "resolve_pid_for_current cur cur_ns user_pid s =
     (if user_pid = 0 then Some cur
      else let ns = unwrap_or cur_ns 0 in
        if ns = 0 then Some user_pid else pid_ns_resolve ns user_pid s)"

section \<open>Network and IPC namespaces\<close>

definition net_ns_root :: net_namespace where
  "net_ns_root = \<lparr>nn_id = 0, nn_socket_ids = {}, nn_loopback_ip = 0x7F000001\<rparr>"

definition net_ns_new_child :: "ns_state \<Rightarrow> net_namespace \<times> ns_state" where
  "net_ns_new_child s = (let (i, s) = alloc_ns_id s in
     (\<lparr>nn_id = i, nn_socket_ids = {}, nn_loopback_ip = 0x7F000001\<rparr>, s))"

definition owns_socket :: "u32 \<Rightarrow> net_namespace \<Rightarrow> bool" where
  "owns_socket sk n = (nn_id n = 0 \<or> sk \<in> nn_socket_ids n)"

definition net_ns_init :: "ns_state \<Rightarrow> ns_state" where
  "net_ns_init s = s\<lparr>ns_net := bt_insert 0 net_ns_root (ns_net s)\<rparr>"

definition net_ns_can_use_socket :: "u32 \<Rightarrow> u32 \<Rightarrow> ns_state \<Rightarrow> bool" where
  "net_ns_can_use_socket ns sk s =
     (if ns = 0 then True
      else case bt_get (ns_net s) ns of Some n \<Rightarrow> owns_socket sk n | None \<Rightarrow> False)"

definition net_ns_register_socket :: "u32 \<Rightarrow> u32 \<Rightarrow> ns_state \<Rightarrow> ns_state" where
  "net_ns_register_socket ns sk s =
     s\<lparr>ns_net := bt_adjust ns (\<lambda>n. n\<lparr>nn_socket_ids := insert sk (nn_socket_ids n)\<rparr>) (ns_net s)\<rparr>"

definition net_ns_unregister_socket :: "u32 \<Rightarrow> u32 \<Rightarrow> ns_state \<Rightarrow> ns_state" where
  "net_ns_unregister_socket ns sk s =
     s\<lparr>ns_net := bt_adjust ns (\<lambda>n. n\<lparr>nn_socket_ids := nn_socket_ids n - {sk}\<rparr>) (ns_net s)\<rparr>"

definition ipc_ns_new :: "u32 \<Rightarrow> ipc_namespace" where
  "ipc_ns_new i = \<lparr>in_id = i, in_shm_ids = {}, in_sem_ids = {}, in_msg_ids = {}\<rparr>"

definition ipc_ns_init :: "ns_state \<Rightarrow> ns_state" where
  "ipc_ns_init s = s\<lparr>ns_ipc := bt_insert 0 (ipc_ns_new 0) (ns_ipc s)\<rparr>"

definition ipc_ns_can_access_shm :: "u32 \<Rightarrow> u32 \<Rightarrow> ns_state \<Rightarrow> bool" where
  "ipc_ns_can_access_shm ns i s =
     (if ns = 0 then True
      else case bt_get (ns_ipc s) ns of Some n \<Rightarrow> i \<in> in_shm_ids n | None \<Rightarrow> False)"

section \<open>Clone\<close>

definition clone_pid_ns :: "u64 \<Rightarrow> pid \<Rightarrow> namespaces \<Rightarrow> ns_state \<Rightarrow> namespaces \<times> ns_state" where
  "clone_pid_ns flags child ns s =
     (if flags AND CLONE_NEWPID \<noteq> 0
      then let (new_id, s) = alloc_ns_id s;
               (n, s) = pid_ns_new_child s;
               n = snd (alloc_local child (n\<lparr>pn_id := new_id\<rparr>)) in
        (ns\<lparr>n_pid_ns := new_id\<rparr>, s\<lparr>ns_pid := bt_insert new_id n (ns_pid s)\<rparr>)
      else if n_pid_ns ns \<noteq> 0
      then (ns, s\<lparr>ns_pid := bt_adjust (n_pid_ns ns) (\<lambda>n. snd (alloc_local child n)) (ns_pid s)\<rparr>)
      else (ns, s))"

definition clone_net_ns :: "u64 \<Rightarrow> namespaces \<Rightarrow> ns_state \<Rightarrow> namespaces \<times> ns_state" where
  "clone_net_ns flags ns s =
     (if flags AND CLONE_NEWNET \<noteq> 0
      then let (n, s) = net_ns_new_child s in
        (ns\<lparr>n_net_ns := nn_id n\<rparr>, s\<lparr>ns_net := bt_insert (nn_id n) n (ns_net s)\<rparr>)
      else (ns, s))"

definition clone_ipc_ns :: "u64 \<Rightarrow> namespaces \<Rightarrow> ns_state \<Rightarrow> namespaces \<times> ns_state" where
  "clone_ipc_ns flags ns s =
     (if flags AND CLONE_NEWIPC \<noteq> 0
      then let (i, s) = alloc_ns_id s in
        (ns\<lparr>n_ipc_ns := i\<rparr>, s\<lparr>ns_ipc := bt_insert i (ipc_ns_new i) (ns_ipc s)\<rparr>)
      else (ns, s))"

definition clone_uts_ns :: "u64 \<Rightarrow> namespaces \<Rightarrow> namespaces \<Rightarrow> ns_state \<Rightarrow> namespaces \<times> ns_state" where
  "clone_uts_ns flags parent ns s =
     (if flags AND CLONE_NEWUTS \<noteq> 0
      then let (u, s) = uts_fork (uts_get (n_uts_ns parent) s) s in
        (ns\<lparr>n_uts_ns := uts_id u\<rparr>, s\<lparr>ns_uts := bt_insert (uts_id u) u (ns_uts s)\<rparr>)
      else (ns, s))"

definition clone_namespaces :: "namespaces \<Rightarrow> u64 \<Rightarrow> pid \<Rightarrow> ns_state \<Rightarrow> namespaces \<times> ns_state" where
  "clone_namespaces parent flags child s =
     (let (ns, s) = clone_pid_ns flags child parent s;
          (ns, s) = clone_net_ns flags ns s;
          (ns, s) = clone_ipc_ns flags ns s in
      clone_uts_ns flags parent ns s)"

section \<open>Mount namespaces\<close>

definition mnt_ns_root :: "u32 \<Rightarrow> ns_state \<Rightarrow> string" where
  "mnt_ns_root i s =
     (if i = 0 then ''/'' else case bt_get (ns_mnt_roots s) i of Some r \<Rightarrow> r | None \<Rightarrow> ''/'')"

definition mnt_ns_set_root :: "u32 \<Rightarrow> string \<Rightarrow> ns_state \<Rightarrow> ns_state" where
  "mnt_ns_set_root i root s =
     (let c = rev (dropWhile (\<lambda>x. x = CHR ''/'') (rev root));
          r = (if c = [] then ''/'' else c) in
      s\<lparr>ns_mnt_roots := bt_insert i r (ns_mnt_roots s)\<rparr>)"

definition new_mnt_ns :: "u32 \<Rightarrow> string \<Rightarrow> ns_state \<Rightarrow> u32 \<times> ns_state" where
  "new_mnt_ns parent new_root s =
     (let (i, s) = alloc_ns_id s;
          root = (if new_root = [] then mnt_ns_root parent s else new_root) in
      (i, s\<lparr>ns_mnt_roots := bt_insert i root (ns_mnt_roots s)\<rparr>))"

section \<open>Identity maps\<close>

primrec to_outer :: "u32 \<Rightarrow> id_map \<Rightarrow> u32 option" where
  "to_outer inner [] = None"
| "to_outer inner (e # es) =
     (if im_inner e \<le> inner \<and> inner < im_inner e + im_count e
      then Some (im_outer e + (inner - im_inner e)) else to_outer inner es)"

primrec to_inner :: "u32 \<Rightarrow> id_map \<Rightarrow> u32 option" where
  "to_inner outer [] = None"
| "to_inner outer (e # es) =
     (if im_outer e \<le> outer \<and> outer < im_outer e + im_count e
      then Some (im_inner e + (outer - im_outer e)) else to_inner outer es)"

text \<open>\<open>str::lines\<close>: no line for the rest after a final newline, a trailing \<open>\r\<close> is cut.\<close>

definition NL :: char where "NL = CHR 0x0A"
definition CR :: char where "CR = CHR 0x0D"

definition strip_cr :: "string \<Rightarrow> string" where
  "strip_cr l = (if l \<noteq> [] \<and> last l = CR then butlast l else l)"

fun split_lines :: "string \<Rightarrow> string \<Rightarrow> string list" where
  "split_lines acc [] = (if acc = [] then [] else [rev acc])"
| "split_lines acc (c # cs) =
     (if c = NL then strip_cr (rev acc) # split_lines [] cs else split_lines (c # acc) cs)"

definition is_white :: "char \<Rightarrow> bool" where
  "is_white c \<longleftrightarrow> c = CHR '' '' \<or> c = CHR 0x09 \<or> c = NL \<or> c = CHR 0x0B \<or> c = CHR 0x0C \<or> c = CR"

fun split_whitespace :: "string \<Rightarrow> string \<Rightarrow> string list" where
  "split_whitespace acc [] = (if acc = [] then [] else [rev acc])"
| "split_whitespace acc (c # cs) =
     (if is_white c then (if acc = [] then [] else [rev acc]) @ split_whitespace [] cs
      else split_whitespace (c # acc) cs)"

definition digit_val :: "char \<Rightarrow> nat option" where
  "digit_val c = (let n = of_char c in if 48 \<le> n \<and> n \<le> (57::nat) then Some (n - 48) else None)"

primrec parse_digits :: "nat \<Rightarrow> string \<Rightarrow> nat option" where
  "parse_digits acc [] = Some acc"
| "parse_digits acc (c # cs) =
     (case digit_val c of None \<Rightarrow> None
      | Some d \<Rightarrow> let a = acc * 10 + d in if 2 ^ 32 \<le> a then None else parse_digits a cs)"

text \<open>\<open>str::parse::<u32>\<close>: an optional plus sign, at least one digit, no overflow.\<close>

definition parse_u32 :: "string \<Rightarrow> u32 option" where
  "parse_u32 t =
     (let ds = (if t \<noteq> [] \<and> hd t = CHR ''+'' then tl t else t) in
      if ds = [] then None else map_option of_nat (parse_digits 0 ds))"

definition parse_line :: "id_map \<Rightarrow> string \<Rightarrow> id_map" where
  "parse_line m line =
     (let parts = split_whitespace [] line in
      if 3 \<le> length parts
      then case (parse_u32 (parts ! 0), parse_u32 (parts ! 1), parse_u32 (parts ! 2)) of
          (Some a, Some b, Some c) \<Rightarrow>
            if length m < 5 then m @ [\<lparr>im_inner = a, im_outer = b, im_count = c\<rparr>] else m
        | _ \<Rightarrow> m
      else m)"

definition id_map_parse :: "string \<Rightarrow> id_map" where
  "id_map_parse text = fold (\<lambda>l m. parse_line m l) (split_lines [] text) []"

fun show_dec :: "nat \<Rightarrow> string" where
  "show_dec n = (if n < 10 then [char_of (48 + n)] else show_dec (n div 10) @ [char_of (48 + n mod 10)])"

definition show_entry :: "id_map_entry \<Rightarrow> string" where
  "show_entry e = show_dec (unat (im_inner e)) @ '' '' @ show_dec (unat (im_outer e)) @ '' '' @
     show_dec (unat (im_count e)) @ [NL]"

definition to_file_content :: "id_map \<Rightarrow> string" where
  "to_file_content m = concat (map show_entry m)"

section \<open>User namespaces\<close>

definition user_ns_init :: "ns_state \<Rightarrow> ns_state" where
  "user_ns_init s =
     (let m = [\<lparr>im_inner = 0, im_outer = 0, im_count = 65536\<rparr>] in
      s\<lparr>ns_user := bt_insert 0 \<lparr>un_id = 0, un_uid_map = m, un_gid_map = m, un_parent = 0\<rparr> (ns_user s)\<rparr>)"

definition map_uid_to_host :: "u32 \<Rightarrow> u32 \<Rightarrow> ns_state \<Rightarrow> u32" where
  "map_uid_to_host ns inner s =
     unwrap_or (Option.bind (bt_get (ns_user s) ns) (\<lambda>n. to_outer inner (un_uid_map n))) 65534"

definition map_uid_from_host :: "u32 \<Rightarrow> u32 \<Rightarrow> ns_state \<Rightarrow> u32" where
  "map_uid_from_host ns outer s =
     unwrap_or (Option.bind (bt_get (ns_user s) ns) (\<lambda>n. to_inner outer (un_uid_map n))) 65534"

definition map_gid_to_host :: "u32 \<Rightarrow> u32 \<Rightarrow> ns_state \<Rightarrow> u32" where
  "map_gid_to_host ns inner s =
     unwrap_or (Option.bind (bt_get (ns_user s) ns) (\<lambda>n. to_outer inner (un_gid_map n))) 65534"

definition install_uid_map :: "u32 \<Rightarrow> string \<Rightarrow> ns_state \<Rightarrow> ns_state" where
  "install_uid_map ns text s =
     s\<lparr>ns_user := bt_adjust ns (\<lambda>n. n\<lparr>un_uid_map := id_map_parse text\<rparr>) (ns_user s)\<rparr>"

definition install_gid_map :: "u32 \<Rightarrow> string \<Rightarrow> ns_state \<Rightarrow> ns_state" where
  "install_gid_map ns text s =
     s\<lparr>ns_user := bt_adjust ns (\<lambda>n. n\<lparr>un_gid_map := id_map_parse text\<rparr>) (ns_user s)\<rparr>"

definition get_uid_map_content :: "u32 \<Rightarrow> ns_state \<Rightarrow> string" where
  "get_uid_map_content ns s =
     (case bt_get (ns_user s) ns of Some n \<Rightarrow> to_file_content (un_uid_map n) | None \<Rightarrow> [])"

definition get_gid_map_content :: "u32 \<Rightarrow> ns_state \<Rightarrow> string" where
  "get_gid_map_content ns s =
     (case bt_get (ns_user s) ns of Some n \<Rightarrow> to_file_content (un_gid_map n) | None \<Rightarrow> [])"

definition new_user_ns :: "u32 \<Rightarrow> ns_state \<Rightarrow> u32 \<times> ns_state" where
  "new_user_ns parent s =
     (let (i, s) = alloc_ns_id s in
      (i, s\<lparr>ns_user := bt_insert i \<lparr>un_id = i, un_uid_map = [], un_gid_map = [], un_parent = parent\<rparr> (ns_user s)\<rparr>))"

definition ns_boot :: ns_state where
  "ns_boot = \<lparr>ns_next_id = 1, ns_uts = [], ns_pid = [], ns_net = [], ns_ipc = [], ns_mnt_roots = [], ns_user = []\<rparr>"

definition ns_init :: "ns_state \<Rightarrow> ns_state" where
  "ns_init s =
     (let s = user_ns_init (ipc_ns_init (net_ns_init (pid_ns_init (uts_ns_init s)))) in
      s\<lparr>ns_mnt_roots := bt_insert 0 ''/'' (ns_mnt_roots s)\<rparr>)"

section \<open>The text format of an identity map\<close>

lemma digit_char: "d < 10 \<Longrightarrow> digit_val (char_of (48 + d)) = Some d"
  by (simp add: digit_val_def)

lemma parse_digits_append:
  "parse_digits acc (xs @ ys) = Option.bind (parse_digits acc xs) (\<lambda>a. parse_digits a ys)"
  by (induction xs arbitrary: acc) (auto simp: Let_def split: option.splits)

declare show_dec.simps [simp del]

lemma parse_show_dec: "n < 2 ^ 32 \<Longrightarrow> parse_digits 0 (show_dec n) = Some n"
proof (induction n rule: show_dec.induct)
  case (1 n)
  show ?case
  proof (cases "n < 10")
    case True
    then show ?thesis using "1.prems" by (subst show_dec.simps) (simp add: digit_char)
  next
    case False
    then have "parse_digits 0 (show_dec (n div 10)) = Some (n div 10)"
      using 1 by (auto intro: "1.IH")
    then show ?thesis using False "1.prems"
      by (subst show_dec.simps) (simp add: parse_digits_append digit_char)
  qed
qed

definition is_digit_char :: "char \<Rightarrow> bool" where
  "is_digit_char c \<longleftrightarrow> (\<exists>d<10. c = char_of (48 + d :: nat))"

lemma digit_char_not:
  assumes "is_digit_char c"
  shows "\<not> is_white c" "c \<noteq> NL" "c \<noteq> CHR ''+''" "c \<noteq> CR"
proof -
  obtain d :: nat where d: "d < 10" "c = char_of (48 + d)" using assms by (auto simp: is_digit_char_def)
  have n: "of_char c = 48 + d" using d by simp
  have ne: "c \<noteq> c'" if "of_char c' < (48::nat)" for c'
    using n that by auto
  show "c \<noteq> NL" "c \<noteq> CR" "c \<noteq> CHR ''+''"
    by (rule ne; simp add: NL_def CR_def)+
  show "\<not> is_white c"
    unfolding is_white_def by (simp add: ne NL_def CR_def)
qed

lemma show_dec_chars: "show_dec n \<noteq> [] \<and> (\<forall>c\<in>set (show_dec n). is_digit_char c)"
proof (induction n rule: show_dec.induct)
  case (1 n)
  have "is_digit_char (char_of (48 + n mod 10))" unfolding is_digit_char_def by (metis mod_less_divisor zero_less_numeral)
  moreover have "n < 10 \<Longrightarrow> is_digit_char (char_of (48 + n))" by (auto simp: is_digit_char_def)
  ultimately show ?case using 1 by (subst (1 2) show_dec.simps) auto
qed

lemma parse_u32_show: "parse_u32 (show_dec (unat w)) = Some w"
proof -
  have "hd (show_dec (unat w)) \<noteq> CHR ''+''"
    using show_dec_chars [of "unat w"] digit_char_not(3) by auto
  moreover have "unat w < 2 ^ 32" using unsigned_less [of w] by simp
  ultimately show ?thesis
    using show_dec_chars [of "unat w"] by (simp add: parse_u32_def parse_show_dec del: One_nat_def)
qed

lemma split_whitespace_word:
  "\<forall>c\<in>set w. \<not> is_white c \<Longrightarrow> split_whitespace acc (w @ rest) = split_whitespace (rev w @ acc) rest"
  by (induction w arbitrary: acc) auto

lemma split_lines_word:
  "\<forall>c\<in>set w. c \<noteq> NL \<Longrightarrow> split_lines acc (w @ rest) = split_lines (rev w @ acc) rest"
  by (induction w arbitrary: acc) auto

definition entry_line :: "id_map_entry \<Rightarrow> string" where
  "entry_line e = show_dec (unat (im_inner e)) @ '' '' @ show_dec (unat (im_outer e)) @ '' '' @
     show_dec (unat (im_count e))"

lemma show_entry_line: "show_entry e = entry_line e @ [NL]"
  by (simp add: show_entry_def entry_line_def)

lemma entry_line_chars: "c \<in> set (entry_line e) \<Longrightarrow> c \<noteq> NL"
  using show_dec_chars digit_char_not(2) by (auto simp: entry_line_def NL_def)

lemma strip_entry_line: "strip_cr (entry_line e) = entry_line e"
proof -
  have "last (entry_line e) = last (show_dec (unat (im_count e)))"
    using show_dec_chars [of "unat (im_count e)"] by (simp add: entry_line_def)
  moreover have "last (show_dec (unat (im_count e))) \<noteq> CR"
    using show_dec_chars [of "unat (im_count e)"] digit_char_not(4) last_in_set by blast
  ultimately show ?thesis by (simp add: strip_cr_def)
qed

lemma split_lines_content: "split_lines [] (to_file_content m) = map entry_line m"
proof (induction m)
  case (Cons e m)
  have "split_lines [] (to_file_content (e # m)) =
        split_lines (rev (entry_line e)) (NL # to_file_content m)"
    using split_lines_word [of "entry_line e" "[]" "NL # to_file_content m"] entry_line_chars
    by (auto simp: to_file_content_def show_entry_line)
  then show ?case using Cons.IH by (simp add: strip_entry_line)
qed (simp add: to_file_content_def)

lemma split_entry_line:
  "split_whitespace [] (entry_line e) =
     [show_dec (unat (im_inner e)), show_dec (unat (im_outer e)), show_dec (unat (im_count e))]"
proof -
  have nw: "\<forall>c\<in>set (show_dec n). \<not> is_white c" for n using show_dec_chars digit_char_not(1) by blast
  have sp: "is_white CHR '' ''" by (simp add: is_white_def)
  have last: "split_whitespace [] (show_dec n) = [show_dec n]" for n
    using split_whitespace_word [of "show_dec n" "[]" "[]"] nw show_dec_chars [of n] by simp
  have word: "split_whitespace [] (show_dec n @ CHR '' '' # rest) = show_dec n # split_whitespace [] rest" for n rest
    using split_whitespace_word [of "show_dec n" "[]" "CHR '' '' # rest"] nw show_dec_chars [of n] sp by simp
  show ?thesis by (simp add: entry_line_def word last)
qed

lemma parse_entry_line: "length m < 5 \<Longrightarrow> parse_line m (entry_line e) = m @ [e]"
  by (simp add: parse_line_def split_entry_line parse_u32_show)

lemma fold_parse_lines:
  "length m + length es \<le> 5 \<Longrightarrow> fold (\<lambda>l m. parse_line m l) (map entry_line es) m = m @ es"
  by (induction es arbitrary: m) (auto simp: parse_entry_line)

section \<open>Identity maps are one to one\<close>

definition id_range :: "u32 \<Rightarrow> u32 \<Rightarrow> nat set" where
  "id_range start count = {unat start..<unat start + unat count}"

definition id_map_ok :: "id_map \<Rightarrow> bool" where
  "id_map_ok m \<longleftrightarrow>
     (\<forall>e\<in>set m. unat (im_inner e) + unat (im_count e) < 2 ^ 32 \<and> unat (im_outer e) + unat (im_count e) < 2 ^ 32) \<and>
     sorted_wrt (\<lambda>a b. id_range (im_inner a) (im_count a) \<inter> id_range (im_inner b) (im_count b) = {} \<and>
                       id_range (im_outer a) (im_count a) \<inter> id_range (im_outer b) (im_count b) = {}) m"

lemma in_id_range:
  fixes a c x :: u32
  assumes "unat a + unat c < 2 ^ 32"
  shows "a \<le> x \<and> x < a + c \<longleftrightarrow> unat x \<in> id_range a c"
proof -
  have "unat (a + c) = unat a + unat c" using assms by (rule u32_unat_add)
  then show ?thesis by (auto simp: id_range_def word_le_nat_alt word_less_nat_alt)
qed

lemma shift_id_range:
  fixes a b c x :: u32
  assumes "unat b + unat c < 2 ^ 32" "unat x \<in> id_range a c"
  shows "unat (b + (x - a)) \<in> id_range b c" "a + ((b + (x - a)) - b) = x"
proof -
  have le: "a \<le> x" using assms(2) by (simp add: id_range_def word_le_nat_alt)
  have d: "unat (x - a) = unat x - unat a" using le by (simp add: unat_sub)
  have lt: "unat (x - a) < unat c" using assms(2) by (auto simp: d id_range_def)
  then have "unat (b + (x - a)) = unat b + unat (x - a)"
    using assms(1) by (intro u32_unat_add) simp
  then show "unat (b + (x - a)) \<in> id_range b c" using lt by (simp add: id_range_def)
  show "a + ((b + (x - a)) - b) = x" by simp
qed

lemma to_outer_range:
  "id_map_ok m \<Longrightarrow> to_outer i m = Some x \<Longrightarrow>
   \<exists>e\<in>set m. unat i \<in> id_range (im_inner e) (im_count e) \<and> unat x \<in> id_range (im_outer e) (im_count e)"
proof (induction m)
  case (Cons e m)
  have ok: "id_map_ok m" using Cons.prems(1) by (simp add: id_map_ok_def)
  have nw: "unat (im_inner e) + unat (im_count e) < 2 ^ 32" "unat (im_outer e) + unat (im_count e) < 2 ^ 32"
    using Cons.prems(1) by (auto simp: id_map_ok_def)
  show ?case
    using Cons.prems(2) Cons.IH [OF ok] shift_id_range(1) [OF nw(2), of i "im_inner e"]
    by (auto simp: in_id_range [OF nw(1)] split: if_splits)
qed simp

lemma to_inner_range:
  "id_map_ok m \<Longrightarrow> to_inner x m = Some i \<Longrightarrow>
   \<exists>e\<in>set m. unat i \<in> id_range (im_inner e) (im_count e) \<and> unat x \<in> id_range (im_outer e) (im_count e)"
proof (induction m)
  case (Cons e m)
  have ok: "id_map_ok m" using Cons.prems(1) by (simp add: id_map_ok_def)
  have nw: "unat (im_inner e) + unat (im_count e) < 2 ^ 32" "unat (im_outer e) + unat (im_count e) < 2 ^ 32"
    using Cons.prems(1) by (auto simp: id_map_ok_def)
  show ?case
    using Cons.prems(2) Cons.IH [OF ok] shift_id_range(1) [OF nw(1), of x "im_outer e"]
    by (auto simp: in_id_range [OF nw(2)] split: if_splits)
qed simp

lemma to_outer_entry:
  "id_map_ok m \<Longrightarrow> e \<in> set m \<Longrightarrow> j < unat (im_count e) \<Longrightarrow>
   to_outer (im_inner e + of_nat j) m = Some (im_outer e + of_nat j)"
proof (induction m)
  case (Cons a m)
  have nw: "unat (im_inner b) + unat (im_count b) < 2 ^ 32" if "b \<in> set (a # m)" for b
    using Cons.prems(1) that by (auto simp: id_map_ok_def)
  have "unat (of_nat j :: u32) = j"
    using Cons.prems(3) unsigned_less [of "im_count e", where 'a = nat] by (simp add: unat_of_nat)
  then have "unat (im_inner e + of_nat j) = unat (im_inner e) + j"
    using nw [OF Cons.prems(2)] Cons.prems(3) by (subst u32_unat_add) auto
  then have r: "unat (im_inner e + of_nat j) \<in> id_range (im_inner e) (im_count e)"
    using Cons.prems(3) by (simp add: id_range_def)
  show ?case
  proof (cases "e = a")
    case True
    then show ?thesis using r in_id_range [OF nw [OF Cons.prems(2)]] by simp
  next
    case False
    then have e: "e \<in> set m" using Cons.prems(2) by simp
    then have "unat (im_inner e + of_nat j) \<notin> id_range (im_inner a) (im_count a)"
      using r Cons.prems(1) by (auto simp: id_map_ok_def)
    moreover have "id_map_ok m" using Cons.prems(1) by (simp add: id_map_ok_def)
    ultimately show ?thesis
      using Cons.IH [OF _ e Cons.prems(3)] in_id_range [OF nw [of a]] by auto
  qed
qed simp

lemma id_map_inverse:
  "id_map_ok m \<Longrightarrow> to_outer i m = Some x \<longleftrightarrow> to_inner x m = Some i"
proof (induction m)
  case (Cons e m)
  let ?I = "id_range (im_inner e) (im_count e)" and ?O = "id_range (im_outer e) (im_count e)"
  have ok: "id_map_ok m" using Cons.prems by (simp add: id_map_ok_def)
  have nw: "unat (im_inner e) + unat (im_count e) < 2 ^ 32" "unat (im_outer e) + unat (im_count e) < 2 ^ 32"
    using Cons.prems by (auto simp: id_map_ok_def)
  have apart: "to_outer i m = Some x \<Longrightarrow> unat i \<notin> ?I \<and> unat x \<notin> ?O"
    "to_inner x m = Some i \<Longrightarrow> unat i \<notin> ?I \<and> unat x \<notin> ?O"
    using to_outer_range [OF ok] to_inner_range [OF ok] Cons.prems
    by (fastforce simp: id_map_ok_def)+
  have out: "to_outer i (e # m) = (if unat i \<in> ?I then Some (im_outer e + (i - im_inner e)) else to_outer i m)"
    and inn: "to_inner x (e # m) = (if unat x \<in> ?O then Some (im_inner e + (x - im_outer e)) else to_inner x m)"
    using in_id_range [OF nw(1), of i] in_id_range [OF nw(2), of x] by simp_all
  note fwd = shift_id_range [OF nw(2), of i "im_inner e"]
  note bwd = shift_id_range [OF nw(1), of x "im_outer e"]
  show ?case
    unfolding out inn using Cons.IH [OF ok] apart fwd bwd by (auto split: if_splits)
qed simp

section \<open>PID namespaces translate consistently\<close>

definition pid_ns_ok :: "pid_namespace \<Rightarrow> bool" where
  "pid_ns_ok n \<longleftrightarrow>
     (\<forall>k l. bt_get (pn_rev_map n) k = Some l \<longrightarrow> bt_get (pn_pid_map n) l = Some k) \<and>
     (\<forall>l. bt_get (pn_pid_map n) l \<noteq> None \<longrightarrow> unat l < unat (pn_next_local n))"

lemma alloc_local_ok:
  assumes ok: "pid_ns_ok n" and w: "unat (pn_next_local n) + 1 < 2 ^ 32"
  shows "pid_ns_ok (snd (alloc_local kp n))"
    "unat (pn_next_local (snd (alloc_local kp n))) = unat (pn_next_local n) + 1"
proof -
  have u: "unat (pn_next_local n + 1) = unat (pn_next_local n) + 1"
    using w by (rule u32_unat_Suc)
  then show "unat (pn_next_local (snd (alloc_local kp n))) = unat (pn_next_local n) + 1"
    by (simp add: alloc_local_def)
  have fresh: "bt_get (pn_pid_map n) (pn_next_local n) = None"
    using ok by (auto simp: pid_ns_ok_def)
  have "bt_get (pn_rev_map n) k = Some l \<Longrightarrow> l \<noteq> pn_next_local n" for k l
    using ok fresh by (auto simp: pid_ns_ok_def)
  then show "pid_ns_ok (snd (alloc_local kp n))"
    using ok u by (auto simp: pid_ns_ok_def alloc_local_def bt_simps less_Suc_eq)
qed

lemma register_all_ok:
  assumes "pid_ns_ok n" "unat (pn_next_local n) + length kps < 2 ^ 32"
  shows "pid_ns_ok (fold (\<lambda>k n. snd (alloc_local k n)) kps n) \<and>
         (\<forall>k. kernel_to_local k (fold (\<lambda>k n. snd (alloc_local k n)) kps n) \<noteq> None \<longleftrightarrow>
              k \<in> set kps \<or> kernel_to_local k n \<noteq> None)"
  using assms
proof (induction kps arbitrary: n)
  case (Cons a kps)
  let ?n = "snd (alloc_local a n)"
  have w: "unat (pn_next_local n) + 1 < 2 ^ 32" using Cons.prems(2) by simp
  note al = alloc_local_ok [OF Cons.prems(1) w, of a]
  have "kernel_to_local k ?n \<noteq> None \<longleftrightarrow> k = a \<or> kernel_to_local k n \<noteq> None" for k
    by (auto simp: kernel_to_local_def alloc_local_def bt_simps)
  then show ?case using Cons.IH [OF al(1)] al(2) Cons.prems(2) by auto
qed simp

section \<open>Properties\<close>

text \<open>C38. The text of a user namespace's id map parses back to the same map (at most five
  entries, the limit of the parser): writing and reading uid_map files round trip.\<close>

theorem id_map_round_trip:
  "length m \<le> 5 \<Longrightarrow> id_map_parse (to_file_content m) = m"
  using fold_parse_lines [of "[]" m] by (simp add: id_map_parse_def split_lines_content)

theorem id_map_round_trip_witness:
  "id_map_parse (to_file_content [\<lparr>im_inner = 0, im_outer = 100000, im_count = 65536\<rparr>]) =
     [\<lparr>im_inner = 0, im_outer = 100000, im_count = 65536\<rparr>]"
  by (rule id_map_round_trip) simp

text \<open>C39. User id translation, for the user ids of a user namespace whose map has ranges that
  do not overlap on either side and do not wrap.  The n-th id of an entry's inner range is
  translated to the n-th id of its host range and that one back to it, so on mapped ids the
  two directions are inverse to each other.  Every id outside the inner ranges becomes
  65534 on the host, and every host id outside the host ranges becomes 65534 inside:
  unmapped ids all share that id, which may also be a mapped one.\<close>

theorem id_maps_inverse:
  assumes "bt_get (ns_user s) ns = Some u" "id_map_ok (un_uid_map u)"
  shows "(\<forall>e\<in>set (un_uid_map u). \<forall>j<unat (im_count e).
      map_uid_to_host ns (im_inner e + of_nat j) s = im_outer e + of_nat j \<and>
      map_uid_from_host ns (im_outer e + of_nat j) s = im_inner e + of_nat j) \<and>
    (\<forall>i. (\<forall>e\<in>set (un_uid_map u). unat i \<notin> id_range (im_inner e) (im_count e)) \<longrightarrow>
      map_uid_to_host ns i s = 65534) \<and>
    (\<forall>h. (\<forall>e\<in>set (un_uid_map u). unat h \<notin> id_range (im_outer e) (im_count e)) \<longrightarrow>
      map_uid_from_host ns h s = 65534)"
proof (intro conjI ballI allI impI)
  fix e j assume ej: "e \<in> set (un_uid_map u)" "j < unat (im_count e)"
  note o = to_outer_entry [OF assms(2) ej]
  show "map_uid_to_host ns (im_inner e + of_nat j) s = im_outer e + of_nat j"
    using o assms(1) by (simp add: map_uid_to_host_def unwrap_or_def)
  show "map_uid_from_host ns (im_outer e + of_nat j) s = im_inner e + of_nat j"
    using o assms(1) id_map_inverse [OF assms(2)] by (simp add: map_uid_from_host_def unwrap_or_def)
next
  fix i :: u32 assume "\<forall>e\<in>set (un_uid_map u). unat i \<notin> id_range (im_inner e) (im_count e)"
  then have "to_outer i (un_uid_map u) = None" using to_outer_range [OF assms(2), of i] by fastforce
  then show "map_uid_to_host ns i s = 65534" using assms(1) by (simp add: map_uid_to_host_def unwrap_or_def)
next
  fix h :: u32 assume "\<forall>e\<in>set (un_uid_map u). unat h \<notin> id_range (im_outer e) (im_count e)"
  then have "to_inner h (un_uid_map u) = None" using to_inner_range [OF assms(2), of h] by fastforce
  then show "map_uid_from_host ns h s = 65534" using assms(1) by (simp add: map_uid_from_host_def unwrap_or_def)
qed

definition ns_mapped :: ns_state where
  "ns_mapped = install_uid_map 0 (to_file_content [\<lparr>im_inner = 0, im_outer = 100000, im_count = 1000\<rparr>]) (ns_init ns_boot)"

theorem id_maps_inverse_witness:
  "map_uid_to_host 0 7 ns_mapped = 100007 \<and> map_uid_from_host 0 100007 ns_mapped = 7 \<and>
   map_uid_to_host 0 1000 ns_mapped = 65534 \<and> map_uid_from_host 0 7 ns_mapped = 65534"
proof -
  let ?e = "\<lparr>im_inner = 0, im_outer = 100000, im_count = 1000\<rparr>" and ?g = "\<lparr>im_inner = 0, im_outer = 0, im_count = 65536\<rparr>"
  have p: "id_map_parse (to_file_content [?e]) = [?e]"
    using fold_parse_lines [of "[]" "[?e]"] by (simp add: id_map_parse_def split_lines_content)
  have u: "bt_get (ns_user ns_mapped) 0 = Some \<lparr>un_id = 0, un_uid_map = [?e], un_gid_map = [?g], un_parent = 0\<rparr>"
    by (simp add: ns_mapped_def install_uid_map_def p ns_init_def ns_boot_def user_ns_init_def ipc_ns_init_def
      net_ns_init_def pid_ns_init_def uts_ns_init_def Let_def bt_simps, simp add: bt_get_def)
  have ok: "id_map_ok [?e]" by (simp add: id_map_ok_def)
  note t = id_maps_inverse [OF u, simplified, OF ok]
  show ?thesis
    using t [THEN conjunct1, rule_format, of 7] t [THEN conjunct2, THEN conjunct1, rule_format, of 1000]
      t [THEN conjunct2, THEN conjunct2, rule_format, of 7] by (simp add: id_range_def)
qed



text \<open>A clone with CLONE_NEWPID isolates the child: from its new namespace the only
  process that can be signalled is the child itself, and the child resolves its own
  local pid.  That local pid is 2; the comment in the code says the init process of
  the new namespace gets PID 1.\<close>

theorem clone_newpid_isolates:
  assumes "clone_namespaces parent flags child s = (ns, s')"
    and "flags AND CLONE_NEWPID \<noteq> 0" "ns_next_id s \<noteq> 0"
  shows "(check_kill_permission (Some (n_pid_ns ns)) target s' \<longleftrightarrow> target = child) \<and>
         pid_ns_resolve (n_pid_ns ns) 2 s' = Some child \<and> pid_ns_resolve (n_pid_ns ns) 1 s' = None"
proof -
  let ?i = "ns_next_id s"
  have keep: "n_pid_ns ns = n_pid_ns ns1 \<and> bt_get (ns_pid s') i = bt_get (ns_pid s1) i"
    if "clone_pid_ns flags child parent s = (ns1, s1)" for ns1 s1 i
    using assms(1) that
    by (auto simp: clone_namespaces_def clone_net_ns_def clone_ipc_ns_def clone_uts_ns_def alloc_ns_id_def
        net_ns_new_child_def uts_fork_def Let_def split: if_splits)
  obtain ns1 s1 where c: "clone_pid_ns flags child parent s = (ns1, s1)" by fastforce
  have 1: "n_pid_ns ns1 = ?i"
    "bt_get (ns_pid s1) ?i = Some \<lparr>pn_id = ?i, pn_pid_map = [(2, child)], pn_rev_map = [(child, 2)], pn_next_local = 3\<rparr>"
    using c assms(2)
    by (auto simp: clone_pid_ns_def alloc_ns_id_def pid_ns_new_child_def alloc_local_def bt_simps Let_def)
  show ?thesis
    using keep [OF c, of ?i] 1 assms(3)
    by (auto simp: check_kill_permission_def pid_ns_can_signal_def unwrap_or_def is_visible_def
        pid_ns_resolve_def local_to_kernel_def bt_get_def)
qed

theorem clone_newpid_isolates_witness:
  "\<exists>ns s'. clone_namespaces namespaces_root CLONE_NEWPID 77 (ns_init ns_boot) = (ns, s') \<and>
     \<not> check_kill_permission (Some (n_pid_ns ns)) 1 s' \<and> pid_ns_resolve (n_pid_ns ns) 2 s' = Some 77"
proof -
  obtain ns s' where c: "clone_namespaces namespaces_root CLONE_NEWPID 77 (ns_init ns_boot) = (ns, s')"
    by fastforce
  have "CLONE_NEWPID AND CLONE_NEWPID \<noteq> 0" by (simp add: CLONE_NEWPID_def)
  moreover have "ns_next_id (ns_init ns_boot) \<noteq> 0"
    by (simp add: ns_init_def ns_boot_def user_ns_init_def ipc_ns_init_def net_ns_init_def pid_ns_init_def
      uts_ns_init_def Let_def)
  ultimately show ?thesis using c clone_newpid_isolates [OF c, of 1] by auto
qed

end
