(* ===== verification/Vfs_Types.thy ===== *)
theory Vfs_Types
  imports Kernel_Prelude
begin

text \<open>
  The vocabulary of the virtual file system layer (kernel/src/vfs/mod.rs, first
  part): error numbers, mode bits, open flags, inodes and open file descriptors.
  A result is a sum, \<open>Inl\<close> an error number.  Pipe buffers are shared through
  reference-counted pointers; a descriptor names its pipe by the pipe's address
  in an explicit store.  An \<open>inode\<close> holds the attributes of a file; a \<open>vfs_inode\<close> also holds the operations behind
  \<open>Arc<dyn InodeOps>\<close>, named by the type that implements them: a mounted file system goes by its number.
\<close>

type_synonym vfs_error = u32

abbreviation EPERM :: vfs_error where "EPERM \<equiv> 1"
abbreviation ENOENT :: vfs_error where "ENOENT \<equiv> 2"
abbreviation EBADF :: vfs_error where "EBADF \<equiv> 9"
abbreviation EAGAIN :: vfs_error where "EAGAIN \<equiv> 11"
abbreviation ENOMEM :: vfs_error where "ENOMEM \<equiv> 12"
abbreviation EACCES :: vfs_error where "EACCES \<equiv> 13"
abbreviation EFAULT :: vfs_error where "EFAULT \<equiv> 14"
abbreviation EEXIST :: vfs_error where "EEXIST \<equiv> 17"
abbreviation EXDEV :: vfs_error where "EXDEV \<equiv> 18"
abbreviation ENOTDIR :: vfs_error where "ENOTDIR \<equiv> 20"
abbreviation EISDIR :: vfs_error where "EISDIR \<equiv> 21"
abbreviation EINVAL :: vfs_error where "EINVAL \<equiv> 22"
abbreviation ENOSPC :: vfs_error where "ENOSPC \<equiv> 28"
abbreviation ENAMETOOLONG :: vfs_error where "ENAMETOOLONG \<equiv> 36"
abbreviation EPIPE :: vfs_error where "EPIPE \<equiv> 32"
abbreviation ENOTEMPTY :: vfs_error where "ENOTEMPTY \<equiv> 39"
abbreviation ELOOP :: vfs_error where "ELOOP \<equiv> 40"

abbreviation S_IFMT :: u32 where "S_IFMT \<equiv> 0xF000"
abbreviation S_IFLNK :: u32 where "S_IFLNK \<equiv> 0xA000"
abbreviation S_IFREG :: u32 where "S_IFREG \<equiv> 0x8000"
abbreviation S_IFDIR :: u32 where "S_IFDIR \<equiv> 0x4000"
abbreviation S_IFCHR :: u32 where "S_IFCHR \<equiv> 0x2000"
abbreviation S_IFIFO :: u32 where "S_IFIFO \<equiv> 0x1000"

definition s_isreg :: "u32 \<Rightarrow> bool" where "s_isreg m \<longleftrightarrow> m AND S_IFMT = S_IFREG"
definition s_isdir :: "u32 \<Rightarrow> bool" where "s_isdir m \<longleftrightarrow> m AND S_IFMT = S_IFDIR"
definition s_islnk :: "u32 \<Rightarrow> bool" where "s_islnk m \<longleftrightarrow> m AND S_IFMT = S_IFLNK"
definition s_ischr :: "u32 \<Rightarrow> bool" where "s_ischr m \<longleftrightarrow> m AND S_IFMT = S_IFCHR"
definition s_isfifo :: "u32 \<Rightarrow> bool" where "s_isfifo m \<longleftrightarrow> m AND S_IFMT = S_IFIFO"

abbreviation O_WRONLY :: u32 where "O_WRONLY \<equiv> 0x1"
abbreviation O_RDWR :: u32 where "O_RDWR \<equiv> 0x2"
abbreviation O_CREAT :: u32 where "O_CREAT \<equiv> 0x40"
abbreviation O_EXCL :: u32 where "O_EXCL \<equiv> 0x80"
abbreviation O_TRUNC :: u32 where "O_TRUNC \<equiv> 0x200"
abbreviation O_APPEND :: u32 where "O_APPEND \<equiv> 0x400"
abbreviation O_NONBLOCK :: u32 where "O_NONBLOCK \<equiv> 0x800"
abbreviation O_CLOEXEC :: u32 where "O_CLOEXEC \<equiv> 0x80000"

record inode =
  i_ino :: u64
  i_mode :: u32
  i_uid :: u32
  i_gid :: u32
  i_size :: u64
  i_atime :: int
  i_mtime :: int
  i_ctime :: int
  i_sb_dev :: u64

datatype inode_ops = PipeInodeOps | MemOps "u8 list" | FsOps nat | DummyInodeOps

record vfs_inode = inode +
  i_ops :: inode_ops

definition with_ops :: "inode_ops \<Rightarrow> inode \<Rightarrow> vfs_inode" where
  "with_ops x i = \<lparr>i_ino = i_ino i, i_mode = i_mode i, i_uid = i_uid i, i_gid = i_gid i, i_size = i_size i,
     i_atime = i_atime i, i_mtime = i_mtime i, i_ctime = i_ctime i, i_sb_dev = i_sb_dev i, i_ops = x\<rparr>"

lemma with_ops_simps [simp]:
  "i_ino (with_ops x i) = i_ino i" "i_mode (with_ops x i) = i_mode i" "i_size (with_ops x i) = i_size i"
  "i_ops (with_ops x i) = x"
  by (simp_all add: with_ops_def)

record dir_entry =
  de_name :: string
  de_ino :: u64
  de_file_type :: u8

datatype fd_kind = Regular | Directory | PipeRead nat | PipeWrite nat | Device u32 | Drm
  | Socket u32 | Epoll u32 | IoUring u32 | SeccompNotif u32

record file_descriptor =
  fd_inode :: vfs_inode
  fd_offset :: u64
  fd_flags :: u32
  fd_kind :: fd_kind
  fd_path :: string

definition lseek :: "file_descriptor \<Rightarrow> u64 \<Rightarrow> int \<Rightarrow> (vfs_error + u64) \<times> file_descriptor" where
  "lseek fd offset whence =
     (if whence = 0 then (Inr offset, fd\<lparr>fd_offset := offset\<rparr>)
      else if whence = 1 then (Inr (fd_offset fd + offset), fd\<lparr>fd_offset := fd_offset fd + offset\<rparr>)
      else if whence = 2
      then (Inr (i_size (fd_inode fd) + offset), fd\<lparr>fd_offset := i_size (fd_inode fd) + offset\<rparr>)
      else (Inl EINVAL, fd))"

end
