(* ===== verification/Pipe_Buffer.thy ===== *)
theory Pipe_Buffer
  imports Vfs_Types
begin

text \<open>
  The kernel pipe's ring buffer, \<open>PipeBuf\<close> of kernel/src/ipc/pipe.rs: non-blocking
  read and write, the end counters and the close flags.  The debug assertions
  of the source are inactive in the release build the project ships.  A queue of
  bytes is the abstract specification (locale \<open>byte_queue\<close>).
\<close>

section \<open>The ring buffer\<close>

definition PIPE_CAPACITY :: nat where "PIPE_CAPACITY = 65536"

record pipe_buf =
  pb_buf :: "u8 list"
  pb_read_pos :: nat
  pb_write_pos :: nat
  pb_len :: nat
  pb_write_closed :: bool
  pb_read_closed :: bool
  pb_readers :: nat
  pb_writers :: nat

definition pipe_new :: pipe_buf where
  "pipe_new = \<lparr>pb_buf = replicate PIPE_CAPACITY 0, pb_read_pos = 0, pb_write_pos = 0, pb_len = 0,
     pb_write_closed = False, pb_read_closed = False, pb_readers = 1, pb_writers = 1\<rparr>"

definition readable :: "pipe_buf \<Rightarrow> bool" where
  "readable p \<longleftrightarrow> 0 < pb_len p \<or> pb_write_closed p"

definition writable :: "pipe_buf \<Rightarrow> bool" where
  "writable p \<longleftrightarrow> pb_len p < PIPE_CAPACITY \<and> \<not> pb_read_closed p"

primrec read_bytes :: "nat \<Rightarrow> pipe_buf \<Rightarrow> u8 list \<times> pipe_buf" where
  "read_bytes 0 p = ([], p)"
| "read_bytes (Suc n) p =
     (let b = pb_buf p ! pb_read_pos p;
          (bs, p') = read_bytes n (p\<lparr>pb_read_pos := (pb_read_pos p + 1) mod PIPE_CAPACITY\<rparr>) in
      (b # bs, p'))"

definition try_read :: "nat \<Rightarrow> pipe_buf \<Rightarrow> (vfs_error + u8 list) \<times> pipe_buf" where
  "try_read count p =
     (if pb_len p = 0 then (if pb_write_closed p then Inr [] else Inl EAGAIN, p)
      else let n = min count (pb_len p); (bs, p') = read_bytes n p in
        (Inr bs, p'\<lparr>pb_len := pb_len p' - n\<rparr>))"

primrec write_bytes :: "u8 list \<Rightarrow> pipe_buf \<Rightarrow> pipe_buf" where
  "write_bytes [] p = p"
| "write_bytes (b # bs) p =
     write_bytes bs (p\<lparr>pb_buf := (pb_buf p)[pb_write_pos p := b],
       pb_write_pos := (pb_write_pos p + 1) mod PIPE_CAPACITY\<rparr>)"

definition try_write :: "u8 list \<Rightarrow> pipe_buf \<Rightarrow> (vfs_error + nat) \<times> pipe_buf" where
  "try_write data p =
     (if pb_read_closed p then (Inl EPIPE, p)
      else let space = PIPE_CAPACITY - pb_len p in
        if space = 0 then (Inl EAGAIN, p)
        else let n = min (length data) space; p' = write_bytes (take n data) p in
          (Inr n, p'\<lparr>pb_len := pb_len p' + n\<rparr>))"

definition close_write :: "pipe_buf \<Rightarrow> pipe_buf" where
  "close_write p =
     (let p1 = (if 0 < pb_writers p then p\<lparr>pb_writers := pb_writers p - 1\<rparr> else p) in
      if pb_writers p1 = 0 then p1\<lparr>pb_write_closed := True\<rparr> else p1)"

definition close_read :: "pipe_buf \<Rightarrow> pipe_buf" where
  "close_read p =
     (let p1 = (if 0 < pb_readers p then p\<lparr>pb_readers := pb_readers p - 1\<rparr> else p) in
      if pb_readers p1 = 0 then p1\<lparr>pb_read_closed := True\<rparr> else p1)"

definition dup_write :: "pipe_buf \<Rightarrow> pipe_buf" where
  "dup_write p = p\<lparr>pb_writers := min (pb_writers p + 1) (2 ^ 64 - 1)\<rparr>"

definition dup_read :: "pipe_buf \<Rightarrow> pipe_buf" where
  "dup_read p = p\<lparr>pb_readers := min (pb_readers p + 1) (2 ^ 64 - 1)\<rparr>"

section \<open>The bytes in flight\<close>

definition contents :: "pipe_buf \<Rightarrow> u8 list" where
  "contents p = map (\<lambda>i. pb_buf p ! ((pb_read_pos p + i) mod PIPE_CAPACITY)) [0..<pb_len p]"

definition pipe_inv :: "pipe_buf \<Rightarrow> bool" where
  "pipe_inv p \<longleftrightarrow> length (pb_buf p) = PIPE_CAPACITY \<and> pb_len p \<le> PIPE_CAPACITY \<and>
     pb_read_pos p < PIPE_CAPACITY \<and> pb_write_pos p = (pb_read_pos p + pb_len p) mod PIPE_CAPACITY"

lemma capacity_pos [simp]: "0 < PIPE_CAPACITY"
  by (simp add: PIPE_CAPACITY_def)

lemma length_contents [simp]: "length (contents p) = pb_len p"
  by (simp add: contents_def)

lemma contents_nth: "i < pb_len p \<Longrightarrow> contents p ! i = pb_buf p ! ((pb_read_pos p + i) mod PIPE_CAPACITY)"
  by (simp add: contents_def)

lemma pipe_new_inv: "pipe_inv pipe_new" "contents pipe_new = []"
  by (simp_all add: pipe_inv_def pipe_new_def contents_def)

lemma ring_index_inj:
  assumes "i < C" "j < C" "(r + i) mod C = (r + j) mod C"
  shows "i = (j :: nat)"
proof -
  have "i = j" if "i \<le> j" "i < C" "j < C" "(r + i) mod C = (r + j) mod C" for i j :: nat
  proof -
    have "C dvd (r + j) - (r + i)" using that(4) mod_eq_dvd_iff_nat [of "r + i" "r + j" C] that(1) by simp
    then have "C dvd j - i" by simp
    then show ?thesis using that by (metis diff_is_0_eq' dvd_imp_le le_antisym less_imp_diff_less not_le zero_less_diff)
  qed
  then show ?thesis using assms by (metis nat_le_linear)
qed

text \<open>One byte at a time, with the length kept in step.\<close>

definition put_byte :: "u8 \<Rightarrow> pipe_buf \<Rightarrow> pipe_buf" where
  "put_byte b p = p\<lparr>pb_buf := (pb_buf p)[pb_write_pos p := b],
     pb_write_pos := (pb_write_pos p + 1) mod PIPE_CAPACITY, pb_len := pb_len p + 1\<rparr>"

definition get_byte :: "pipe_buf \<Rightarrow> u8 \<times> pipe_buf" where
  "get_byte p = (pb_buf p ! pb_read_pos p,
     p\<lparr>pb_read_pos := (pb_read_pos p + 1) mod PIPE_CAPACITY, pb_len := pb_len p - 1\<rparr>)"

lemma put_byte_ok:
  assumes "pipe_inv p" "pb_len p < PIPE_CAPACITY"
  shows "pipe_inv (put_byte b p)" "contents (put_byte b p) = contents p @ [b]"
proof -
  let ?C = PIPE_CAPACITY and ?r = "pb_read_pos p"
  have w: "pb_write_pos p = (?r + pb_len p) mod ?C" "pb_write_pos p < ?C" "length (pb_buf p) = ?C"
    using assms by (simp_all add: pipe_inv_def)
  show "pipe_inv (put_byte b p)"
    using assms by (simp add: pipe_inv_def put_byte_def mod_Suc_eq)
  show "contents (put_byte b p) = contents p @ [b]"
  proof (rule nth_equalityI)
    fix i assume i: "i < length (contents (put_byte b p))"
    show "contents (put_byte b p) ! i = (contents p @ [b]) ! i"
    proof (cases "i < pb_len p")
      case True
      then have "(?r + i) mod ?C \<noteq> pb_write_pos p"
        using ring_index_inj [of i ?C "pb_len p" ?r] assms(2) w(1) by auto
      then show ?thesis using True by (simp add: contents_def put_byte_def nth_append)
    next
      case False
      then have "i = pb_len p" using i by (simp add: put_byte_def)
      then show ?thesis using w by (simp add: contents_def put_byte_def nth_append)
    qed
  qed (simp add: put_byte_def)
qed

lemma get_byte_ok:
  assumes "pipe_inv p" "0 < pb_len p"
  shows "pipe_inv (snd (get_byte p))" "contents p = fst (get_byte p) # contents (snd (get_byte p))"
proof -
  let ?C = PIPE_CAPACITY
  have "pb_read_pos p + 1 + (pb_len p - 1) = pb_read_pos p + pb_len p" using assms(2) by simp
  then have "((pb_read_pos p + 1) mod ?C + (pb_len p - 1)) mod ?C = (pb_read_pos p + pb_len p) mod ?C"
    by (metis mod_add_left_eq)
  then show "pipe_inv (snd (get_byte p))"
    using assms by (auto simp: pipe_inv_def get_byte_def)
  show "contents p = fst (get_byte p) # contents (snd (get_byte p))"
  proof (rule nth_equalityI)
    fix i assume i: "i < length (contents p)"
    show "contents p ! i = (fst (get_byte p) # contents (snd (get_byte p))) ! i"
      using i assms
      by (cases i) (simp_all add: contents_def get_byte_def pipe_inv_def mod_add_left_eq)
  qed (use assms in \<open>simp add: get_byte_def\<close>)
qed

lemma write_bytes_len [simp]:
  "write_bytes bs (p\<lparr>pb_len := l\<rparr>) = (write_bytes bs p)\<lparr>pb_len := l\<rparr>"
proof (induction bs arbitrary: p)
  case (Cons b bs)
  let ?upd = "\<lambda>p. p\<lparr>pb_buf := (pb_buf p)[pb_write_pos p := b],
       pb_write_pos := (pb_write_pos p + 1) mod PIPE_CAPACITY\<rparr>"
  have "write_bytes (b # bs) (p\<lparr>pb_len := l\<rparr>) = write_bytes bs (?upd (p\<lparr>pb_len := l\<rparr>))" by simp
  also have "?upd (p\<lparr>pb_len := l\<rparr>) = (?upd p)\<lparr>pb_len := l\<rparr>" by (cases p) simp
  also have "write_bytes bs ((?upd p)\<lparr>pb_len := l\<rparr>) = (write_bytes bs (?upd p))\<lparr>pb_len := l\<rparr>" by (rule Cons.IH)
  finally show ?case by simp
qed simp

lemma write_bytes_puts:
  "(write_bytes bs p)\<lparr>pb_len := pb_len p + length bs\<rparr> = fold put_byte bs p"
proof (induction bs arbitrary: p)
  case (Cons b bs)
  let ?q = "p\<lparr>pb_buf := (pb_buf p)[pb_write_pos p := b],
       pb_write_pos := (pb_write_pos p + 1) mod PIPE_CAPACITY\<rparr>"
  have q: "put_byte b p = ?q\<lparr>pb_len := pb_len p + 1\<rparr>" by (simp add: put_byte_def)
  have "fold put_byte bs (put_byte b p) = (write_bytes bs ?q)\<lparr>pb_len := pb_len p + 1 + length bs\<rparr>"
    unfolding Cons.IH [symmetric] unfolding q by simp
  then show ?case by simp
qed simp

lemma write_bytes_keeps [simp]: "pb_len (write_bytes bs p) = pb_len p"
  "pb_readers (write_bytes bs p) = pb_readers p" "pb_writers (write_bytes bs p) = pb_writers p"
  "pb_read_closed (write_bytes bs p) = pb_read_closed p" "pb_write_closed (write_bytes bs p) = pb_write_closed p"
  by (induction bs arbitrary: p) simp_all

lemma read_bytes_keeps [simp]: "pb_len (snd (read_bytes n p)) = pb_len p"
  "pb_readers (snd (read_bytes n p)) = pb_readers p" "pb_writers (snd (read_bytes n p)) = pb_writers p"
  "pb_read_closed (snd (read_bytes n p)) = pb_read_closed p"
  "pb_write_closed (snd (read_bytes n p)) = pb_write_closed p"
  by (induction n arbitrary: p) (simp_all add: split_def Let_def)

lemma fold_put_ok:
  "pipe_inv p \<Longrightarrow> pb_len p + length bs \<le> PIPE_CAPACITY \<Longrightarrow>
     pipe_inv (fold put_byte bs p) \<and> contents (fold put_byte bs p) = contents p @ bs"
proof (induction bs arbitrary: p)
  case (Cons b bs)
  then show ?case
    using put_byte_ok [of p b] Cons.IH [of "put_byte b p"] by (simp add: put_byte_def)
qed simp

lemma read_bytes_len: "read_bytes n (p\<lparr>pb_len := l\<rparr>) = (fst (read_bytes n p), (snd (read_bytes n p))\<lparr>pb_len := l\<rparr>)"
proof (induction n arbitrary: p)
  case (Suc n)
  let ?upd = "\<lambda>p. p\<lparr>pb_read_pos := (pb_read_pos p + 1) mod PIPE_CAPACITY\<rparr>"
  have rs: "read_bytes (Suc n) p = (pb_buf p ! pb_read_pos p # fst (read_bytes n (?upd p)), snd (read_bytes n (?upd p)))"
    for p by (simp add: split_def Let_def)
  have e: "?upd (p\<lparr>pb_len := l\<rparr>) = (?upd p)\<lparr>pb_len := l\<rparr>" by (cases p) simp
  show ?case unfolding rs e Suc.IH by simp
qed simp

lemma read_bytes_ok:
  "pipe_inv p \<Longrightarrow> n \<le> pb_len p \<Longrightarrow>
    fst (read_bytes n p) = take n (contents p) \<and>
    pipe_inv ((snd (read_bytes n p))\<lparr>pb_len := pb_len p - n\<rparr>) \<and>
    contents ((snd (read_bytes n p))\<lparr>pb_len := pb_len p - n\<rparr>) = drop n (contents p)"
proof (induction n arbitrary: p)
  case (Suc n)
  let ?p = "p\<lparr>pb_read_pos := (pb_read_pos p + 1) mod PIPE_CAPACITY\<rparr>"
  let ?q = "snd (get_byte p)"
  have q: "?q = ?p\<lparr>pb_len := pb_len p - 1\<rparr>" by (simp add: get_byte_def)
  have r: "fst (read_bytes n ?q) = fst (read_bytes n ?p)"
    "\<And>l. (snd (read_bytes n ?q))\<lparr>pb_len := l\<rparr> = (snd (read_bytes n ?p))\<lparr>pb_len := l\<rparr>"
    unfolding q read_bytes_len by simp_all
  have rs: "read_bytes (Suc n) p = (pb_buf p ! pb_read_pos p # fst (read_bytes n ?p), snd (read_bytes n ?p))"
    by (simp add: split_def Let_def)
  have pos: "0 < pb_len p" "n \<le> pb_len ?q" "pb_len ?q - n = pb_len p - Suc n"
    using Suc.prems(2) by (auto simp: get_byte_def)
  have g: "contents p = pb_buf p ! pb_read_pos p # contents ?q" "pipe_inv ?q"
    using get_byte_ok [OF Suc.prems(1) pos(1)] by (simp_all add: get_byte_def)
  show ?case using Suc.IH [OF g(2) pos(2), unfolded r pos(3)] g(1) rs by simp
qed simp

lemma try_read_ok:
  assumes "pipe_inv p"
  shows "fst (try_read count p) =
      (if contents p = [] then if pb_write_closed p then Inr [] else Inl EAGAIN
       else Inr (take count (contents p)))"
    "pipe_inv (snd (try_read count p))" "contents (snd (try_read count p)) = drop count (contents p)"
proof -
  let ?n = "min count (pb_len p)"
  have e: "contents p = [] \<longleftrightarrow> pb_len p = 0" by (metis length_contents length_0_conv)
  have t: "take ?n (contents p) = take count (contents p)" "drop ?n (contents p) = drop count (contents p)"
    by (auto simp: min_def)
  have r: "fst (read_bytes ?n p) = take count (contents p)"
    "pipe_inv ((snd (read_bytes ?n p))\<lparr>pb_len := pb_len p - ?n\<rparr>)"
    "contents ((snd (read_bytes ?n p))\<lparr>pb_len := pb_len p - ?n\<rparr>) = drop count (contents p)"
    using read_bytes_ok [OF assms, of ?n] t by simp_all
  show "fst (try_read count p) =
      (if contents p = [] then if pb_write_closed p then Inr [] else Inl EAGAIN
       else Inr (take count (contents p)))"
    using r(1) e t by (simp add: try_read_def split_def Let_def)
  show "pipe_inv (snd (try_read count p))"
    using r(2) assms by (simp add: try_read_def split_def Let_def)
  show "contents (snd (try_read count p)) = drop count (contents p)"
    using r(3) e by (auto simp: try_read_def split_def Let_def)
qed

lemma try_write_ok:
  assumes "pipe_inv p"
  shows "fst (try_write data p) =
      (if pb_read_closed p then Inl EPIPE
       else if length (contents p) = PIPE_CAPACITY then Inl EAGAIN
       else Inr (min (length data) (PIPE_CAPACITY - length (contents p))))"
    "pipe_inv (snd (try_write data p))"
    "pb_read_closed p \<Longrightarrow> snd (try_write data p) = p"
    "\<not> pb_read_closed p \<Longrightarrow>
       contents (snd (try_write data p)) = contents p @ take (PIPE_CAPACITY - length (contents p)) data"
proof -
  let ?n = "min (length data) (PIPE_CAPACITY - pb_len p)"
  have le: "pb_len p \<le> PIPE_CAPACITY" using assms by (simp add: pipe_inv_def)
  have t: "take ?n data = take (PIPE_CAPACITY - pb_len p) data" by (auto simp: min_def)
  have w: "(write_bytes (take ?n data) p)\<lparr>pb_len := pb_len p + ?n\<rparr> = fold put_byte (take ?n data) p"
    using write_bytes_puts [of p "take ?n data"] by simp
  have f: "pipe_inv (fold put_byte (take ?n data) p)"
    "contents (fold put_byte (take ?n data) p) = contents p @ take ?n data"
    using fold_put_ok [OF assms, of "take ?n data"] le by auto
  show "fst (try_write data p) =
      (if pb_read_closed p then Inl EPIPE
       else if length (contents p) = PIPE_CAPACITY then Inl EAGAIN
       else Inr (min (length data) (PIPE_CAPACITY - length (contents p))))"
    using le by (auto simp: try_write_def Let_def)
  show "pipe_inv (snd (try_write data p))"
    using f(1) assms by (simp add: try_write_def Let_def w)
  show "snd (try_write data p) = p" if "pb_read_closed p" using that by (simp add: try_write_def)
  show "contents (snd (try_write data p)) = contents p @ take (PIPE_CAPACITY - length (contents p)) data"
    if "\<not> pb_read_closed p"
  proof (cases "pb_len p = PIPE_CAPACITY")
    case False
    then have "snd (try_write data p) = fold put_byte (take ?n data) p"
      using that le w by (simp add: try_write_def Let_def)
    then show ?thesis using f(2) t by simp
  qed (use that in \<open>simp add: try_write_def\<close>)
qed

section \<open>A stream of bytes\<close>

text \<open>
  The contract of a byte channel: a write accepts a prefix of the data, a read takes
  a prefix of what is inside.  \<open>transfer\<close> runs any interleaving of writes and reads
  and collects what was accepted and what was delivered.
\<close>

datatype io = Write "u8 list" | Read nat

primrec transfer :: "(u8 list \<Rightarrow> 'q \<Rightarrow> nat \<times> 'q) \<Rightarrow> (nat \<Rightarrow> 'q \<Rightarrow> u8 list \<times> 'q) \<Rightarrow>
    io list \<Rightarrow> 'q \<Rightarrow> u8 list \<times> u8 list \<times> 'q" where
  "transfer w r [] q = ([], [], q)"
| "transfer w r (x # xs) q =
     (case x of
        Write d \<Rightarrow> let (n, q1) = w d q; (acc, dlv, q2) = transfer w r xs q1 in (take n d @ acc, dlv, q2)
      | Read n \<Rightarrow> let (bs, q1) = r n q; (acc, dlv, q2) = transfer w r xs q1 in (acc, bs @ dlv, q2))"

locale byte_queue =
  fixes q_inv :: "'q \<Rightarrow> bool"
    and q_bytes :: "'q \<Rightarrow> u8 list"
    and q_write :: "u8 list \<Rightarrow> 'q \<Rightarrow> nat \<times> 'q"
    and q_read :: "nat \<Rightarrow> 'q \<Rightarrow> u8 list \<times> 'q"
  assumes write_law: "q_inv q \<Longrightarrow> q_write d q = (n, q') \<Longrightarrow>
      q_inv q' \<and> n \<le> length d \<and> q_bytes q' = q_bytes q @ take n d"
    and read_law: "q_inv q \<Longrightarrow> q_read k q = (bs, q') \<Longrightarrow>
      q_inv q' \<and> length bs \<le> k \<and> q_bytes q = bs @ q_bytes q'"
begin

lemma transfer_stream:
  "q_inv q \<Longrightarrow> transfer q_write q_read xs q = (acc, dlv, q') \<Longrightarrow>
     q_inv q' \<and> dlv @ q_bytes q' = q_bytes q @ acc"
proof (induction xs arbitrary: q acc dlv q')
  case (Cons x xs)
  show ?case
  proof (cases x)
    case (Write d)
    obtain n q1 where w: "q_write d q = (n, q1)" by (cases "q_write d q")
    obtain a l q2 where t: "transfer q_write q_read xs q1 = (a, l, q2)" by (cases "transfer q_write q_read xs q1")
    show ?thesis
      using Cons.IH [OF _ t] write_law [OF Cons.prems(1) w] Cons.prems(2) Write w t by simp
  next
    case (Read n)
    obtain bs q1 where r: "q_read n q = (bs, q1)" by (cases "q_read n q")
    obtain a l q2 where t: "transfer q_write q_read xs q1 = (a, l, q2)" by (cases "transfer q_write q_read xs q1")
    show ?thesis
      using Cons.IH [OF _ t] read_law [OF Cons.prems(1) r] Cons.prems(2) Read r t by auto
  qed
qed simp

end

definition pipe_put :: "u8 list \<Rightarrow> pipe_buf \<Rightarrow> nat \<times> pipe_buf" where
  "pipe_put d p = (case try_write d p of (Inl _, p') \<Rightarrow> (0, p') | (Inr n, p') \<Rightarrow> (n, p'))"

definition pipe_get :: "nat \<Rightarrow> pipe_buf \<Rightarrow> u8 list \<times> pipe_buf" where
  "pipe_get n p = (case try_read n p of (Inl _, p') \<Rightarrow> ([], p') | (Inr bs, p') \<Rightarrow> (bs, p'))"

lemma pipe_put_eq: "pipe_put d p = (case fst (try_write d p) of Inl _ \<Rightarrow> 0 | Inr m \<Rightarrow> m, snd (try_write d p))"
  by (simp add: pipe_put_def split: prod.splits sum.splits)

lemma pipe_get_eq: "pipe_get k p = (case fst (try_read k p) of Inl _ \<Rightarrow> [] | Inr m \<Rightarrow> m, snd (try_read k p))"
  by (simp add: pipe_get_def split: prod.splits sum.splits)

interpretation pq: byte_queue pipe_inv contents pipe_put pipe_get
proof unfold_locales
  fix p d n p' assume i: "pipe_inv p" and e: "pipe_put d p = (n, p')"
  have le: "length (contents p) \<le> PIPE_CAPACITY" using i by (simp add: pipe_inv_def)
  have t: "take (min (length d) m) d = take m d" for m by (simp add: min_def)
  show "pipe_inv p' \<and> n \<le> length d \<and> contents p' = contents p @ take n d"
  proof (cases "pb_read_closed p")
    case True
    then show ?thesis using e i try_write_ok(1,3) [OF i, of d] by (simp add: pipe_put_eq)
  next
    case False
    then show ?thesis
      using e try_write_ok(1,2,4) [OF i, of d] t le by (auto simp: pipe_put_eq split: if_splits)
  qed
next
  fix p k bs p' assume i: "pipe_inv p" and e: "pipe_get k p = (bs, p')"
  then show "pipe_inv p' \<and> length bs \<le> k \<and> contents p = bs @ contents p'"
    using try_read_ok [OF i, of k] by (auto simp: pipe_get_eq split: if_splits)
qed

section \<open>Closing the ends\<close>

definition ends_ok :: "pipe_buf \<Rightarrow> bool" where
  "ends_ok p \<longleftrightarrow> (pb_write_closed p \<longleftrightarrow> pb_writers p = 0) \<and> (pb_read_closed p \<longleftrightarrow> pb_readers p = 0)"

lemma close_keeps_bytes [simp]:
  "pipe_inv (close_write p) = pipe_inv p" "contents (close_write p) = contents p"
  "pipe_inv (close_read p) = pipe_inv p" "contents (close_read p) = contents p"
  by (simp_all add: close_write_def close_read_def pipe_inv_def contents_def Let_def)

lemma ends_ok_ops:
  "ends_ok pipe_new" "ends_ok p \<Longrightarrow> ends_ok (close_write p)" "ends_ok p \<Longrightarrow> ends_ok (close_read p)"
  "ends_ok p \<Longrightarrow> \<not> pb_write_closed p \<Longrightarrow> ends_ok (dup_write p)"
  "ends_ok p \<Longrightarrow> \<not> pb_read_closed p \<Longrightarrow> ends_ok (dup_read p)"
  "ends_ok p \<Longrightarrow> ends_ok (snd (try_read n p))" "ends_ok p \<Longrightarrow> ends_ok (snd (try_write d p))"
  by (auto simp: ends_ok_def pipe_new_def close_write_def close_read_def dup_write_def dup_read_def
      try_read_def try_write_def split_def Let_def)

section \<open>Properties of the pipe\<close>

text \<open>
  C35. A pipe is a loss-free byte stream.  Whatever sequence of non-blocking writes and
  reads is run on a well-formed pipe, the bytes delivered followed by the bytes
  still inside are exactly the bytes that were inside followed by the bytes accepted,
  in order: the ring buffer never loses, duplicates or reorders a byte, and its
  invariant is kept.
\<close>
theorem pipe_is_stream:
  assumes "pipe_inv p" "transfer pipe_put pipe_get xs p = (accepted, delivered, p')"
  shows "pipe_inv p' \<and> delivered @ contents p' = contents p @ accepted"
  using pq.transfer_stream [OF assms] .

theorem pipe_is_stream_witness:
  "pipe_inv pipe_new \<and> (\<exists>acc dlv p'. transfer pipe_put pipe_get [Write [1, 2, 3], Read 2] pipe_new = (acc, dlv, p') \<and>
     dlv @ contents p' = acc)"
proof -
  obtain acc dlv p' where t: "transfer pipe_put pipe_get [Write [1, 2, 3], Read 2] pipe_new = (acc, dlv, p')"
    by (cases "transfer pipe_put pipe_get [Write [1, 2, 3], Read 2] pipe_new")
  show ?thesis using pipe_is_stream [OF pipe_new_inv(1) t] pipe_new_inv t by simp
qed

text \<open>
  What a reader and a writer see at the edges.  Reading returns the next bytes in
  order, at most as many as asked for; on an empty pipe it reports end of file
  exactly when the write end is closed and asks to wait otherwise.  Writing
  reports a broken pipe exactly when the read end is closed, asks to wait exactly
  when the buffer is full, and otherwise accepts as much as fits, at least one byte of
  a non-empty request.
\<close>
theorem pipe_edges:
  assumes "pipe_inv p"
  shows "fst (try_read n p) =
      (if contents p = [] then if pb_write_closed p then Inr [] else Inl EAGAIN
       else Inr (take n (contents p))) \<and>
    fst (try_write d p) =
      (if pb_read_closed p then Inl EPIPE
       else if length (contents p) = PIPE_CAPACITY then Inl EAGAIN
       else Inr (min (length d) (PIPE_CAPACITY - length (contents p)))) \<and>
    (d \<noteq> [] \<longrightarrow> fst (try_write d p) \<noteq> Inr 0)"
proof -
  have le: "length (contents p) \<le> PIPE_CAPACITY" using assms by (simp add: pipe_inv_def)
  then show ?thesis
    using try_write_ok(1) [OF assms, of d] try_read_ok(1) [OF assms, of n] by (simp add: min_def)
qed

theorem pipe_edges_witness:
  "pipe_inv pipe_new \<and> fst (try_read 5 pipe_new) = Inl EAGAIN \<and>
   fst (try_read 5 (close_write pipe_new)) = Inr [] \<and> fst (try_write [7] (close_read pipe_new)) = Inl EPIPE"
proof -
  have "\<not> pb_write_closed pipe_new" "pb_write_closed (close_write pipe_new)" "pb_read_closed (close_read pipe_new)"
    by (simp_all add: pipe_new_def close_write_def close_read_def)
  then show ?thesis
    using pipe_edges [OF pipe_new_inv(1), of 5 "[]"]
      pipe_edges [of "close_write pipe_new" 5 "[]"] pipe_edges [of "close_read pipe_new" 0 "[7]"] pipe_new_inv
    by simp
qed

end
