(* ===== verification/Kernel_State.thy ===== *)
theory Kernel_State
  imports Run_Queue Namespaces Pipe_Buffer
begin

text \<open>
  The shared state of the kernel: signal sets and actions (signal/mod.rs), processes
  and thread groups (process/mod.rs), the per-CPU run queues and the reschedule flag
  (sched/mod.rs), pipes and their waiters (ipc/pipe.rs).  Reference-counted objects
  (\<open>Arc<ThreadGroup>\<close>, \<open>Arc<Mutex<PipeBuf>>\<close>) live in stores; the reference is the
  index into the store, and a store only grows, so an index is never reused.  The
  kernel stacks, the protection-key tables and the page tables of a process are not
  part of the state; an address space is the physical address of its root table.
\<close>

section \<open>Signal sets and actions\<close>

type_synonym i32 = "32 word"
type_synonym signal_set = u64

definition sig_add :: "u32 \<Rightarrow> signal_set \<Rightarrow> signal_set" where
  "sig_add sig s = (if sig < 64 then s OR bit_mask (unat sig) else s)"

definition sig_remove :: "u32 \<Rightarrow> signal_set \<Rightarrow> signal_set" where
  "sig_remove sig s = (if sig < 64 then s AND NOT (bit_mask (unat sig)) else s)"

definition sig_has :: "u32 \<Rightarrow> signal_set \<Rightarrow> bool" where
  "sig_has sig s = (sig < 64 \<and> s AND bit_mask (unat sig) \<noteq> 0)"

definition sig_and_not :: "signal_set \<Rightarrow> signal_set \<Rightarrow> signal_set" where
  "sig_and_not s m = s AND NOT m"

definition next_pending :: "signal_set \<Rightarrow> u32 option" where
  "next_pending s = (if s = 0 then None else Some (of_nat (trailing_zeros s)))"

datatype sig_handler = SigDefault | SigIgnore | SigUser u64

record sig_action =
  sa_handler :: sig_handler
  sa_mask :: signal_set
  sa_flags :: u32
  sa_restorer :: u64

definition sig_action_default :: sig_action where
  "sig_action_default = \<lparr>sa_handler = SigDefault, sa_mask = 0, sa_flags = 0, sa_restorer = 0\<rparr>"

definition NSIG :: nat where "NSIG = 32"

section \<open>Processes\<close>

datatype process_state = Runnable | Running | Sleeping | Stopped | Zombie i32

record cpu_context =
  cx_rbx :: u64
  cx_rbp :: u64
  cx_r12 :: u64
  cx_r13 :: u64
  cx_r14 :: u64
  cx_r15 :: u64
  cx_rsp :: u64
  cx_rip :: u64
  cx_rflags :: u64

type_synonym fd_table = "(u32, file_descriptor) btree"

record thread_group =
  tg_tgid :: pid
  tg_fds :: fd_table
  tg_next_fd :: u32
  tg_cwd :: string
  tg_root :: string
  tg_umask :: u32
  tg_sig_actions :: "sig_action list"

record process =
  p_pid :: pid
  p_ppid :: pid
  p_pgid :: u32
  p_sid :: u32
  p_tty :: i32
  p_thread_group :: "nat option"
  p_mac_label :: security_label
  p_syscall_filter :: syscall_filter
  p_namespaces :: namespaces
  p_seccomp :: filter_chain
  p_state :: process_state
  p_context :: cpu_context
  p_nice :: u8
  p_sleep_until :: u64
  p_priority :: u8
  p_static_priority :: u8
  p_pml4 :: u64
  p_fds :: fd_table
  p_next_fd :: u32
  p_cwd :: string
  p_root :: string
  p_umask :: u32
  p_uid :: u32
  p_gid :: u32
  p_euid :: u32
  p_egid :: u32
  p_suid :: u32
  p_sgid :: u32
  p_groups :: "u32 list"
  p_sig_pending :: signal_set
  p_sig_mask :: signal_set
  p_sig_actions :: "sig_action list"
  p_sig_altstack :: u64
  p_exit_code :: i32
  p_children :: "pid list"
  p_name :: string
  p_personality :: u32
  p_flags :: u32
  p_start_time :: u64
  p_fs_base :: u64
  p_clear_child_tid :: u64

definition is_zombie :: "process \<Rightarrow> bool" where
  "is_zombie p = (case p_state p of Zombie _ \<Rightarrow> True | _ \<Rightarrow> False)"

text \<open>A new kernel thread: \<open>rsp\<close> is the top of its stack, \<open>pml4\<close> the root table of the
  kernel address space.\<close>

definition process_new_kernel :: "pid \<Rightarrow> u64 \<Rightarrow> u64 \<Rightarrow> u64 \<Rightarrow> process" where
  "process_new_kernel pd entry rsp pml4 =
     \<lparr>p_pid = pd, p_ppid = 0, p_pgid = pd, p_sid = pd, p_tty = -1, p_thread_group = None,
      p_mac_label = LABEL_KERNEL, p_syscall_filter = filter_allow_all, p_namespaces = namespaces_root,
      p_seccomp = chain_new, p_state = Runnable,
      p_context = \<lparr>cx_rbx = 0, cx_rbp = 0, cx_r12 = 0, cx_r13 = 0, cx_r14 = 0, cx_r15 = 0,
        cx_rsp = rsp, cx_rip = entry, cx_rflags = 0x202\<rparr>,
      p_nice = 0, p_sleep_until = 0, p_priority = 20, p_static_priority = 20, p_pml4 = pml4,
      p_fds = [], p_next_fd = 3, p_cwd = ''/'', p_root = ''/'', p_umask = 18,
      p_uid = 0, p_gid = 0, p_euid = 0, p_egid = 0, p_suid = 0, p_sgid = 0, p_groups = [],
      p_sig_pending = 0, p_sig_mask = 0, p_sig_actions = replicate NSIG sig_action_default,
      p_sig_altstack = 0, p_exit_code = 0, p_children = [], p_name = ''kthread'',
      p_personality = 0xFFFF, p_flags = 0, p_start_time = 0, p_fs_base = 0, p_clear_child_tid = 0\<rparr>"

section \<open>The kernel\<close>

definition MAX_CPUS_SCHED :: nat where "MAX_CPUS_SCHED = 64"

record kernel =
  k_procs :: "(pid, process) btree"
  k_next_pid :: pid
  k_current :: pid
  k_groups :: "thread_group list"
  k_rqs :: "run_queue option list"
  k_need_resched :: bool
  k_cpu :: nat
  k_ncpus :: nat
  k_ticks :: u64
  k_ns :: ns_state
  k_pipes :: "pipe_buf list"
  k_pipe_waiters :: "(nat, pid list \<times> pid list) btree"
  k_pipe_ino :: u64
  k_user_writes :: "(u64 \<times> u64 \<times> u32) list"
  k_futex :: "(u64 \<times> pid) list"

definition with_process :: "pid \<Rightarrow> (process \<Rightarrow> 'a) \<Rightarrow> kernel \<Rightarrow> 'a option" where
  "with_process pd f k = map_option f (bt_get (k_procs k) pd)"

definition with_process_mut :: "pid \<Rightarrow> (process \<Rightarrow> process) \<Rightarrow> kernel \<Rightarrow> kernel" where
  "with_process_mut pd f k = k\<lparr>k_procs := bt_adjust pd f (k_procs k)\<rparr>"

definition set_current :: "pid \<Rightarrow> kernel \<Rightarrow> kernel" where
  "set_current pd k = k\<lparr>k_current := pd\<rparr>"

definition all_pids :: "kernel \<Rightarrow> pid list" where
  "all_pids k = bt_keys (k_procs k)"

definition state_of :: "pid \<Rightarrow> kernel \<Rightarrow> process_state option" where
  "state_of pd k = with_process pd p_state k"

end
