(* ===== verification/Scheduler.thy ===== *)
theory Scheduler
  imports Kernel_State
begin

text \<open>
  The scheduler of sched/mod.rs over all CPUs: adding, removing and waking tasks,
  priorities, the timer tick, work stealing and the switch to the next task.  The
  register switch itself is the outcome of \<open>schedule\<close>: the caller goes on (\<open>Stay\<close>),
  another task continues (\<open>SwitchTo\<close>), or the CPU halts until an interrupt finds
  work (\<open>Idle\<close>).  \<open>None\<close> is a panic: a priority outside the 140 levels.  The plugin
  hook of the tick and the reload of page tables and segment bases are left out.
\<close>

section \<open>Run queues of all CPUs\<close>

definition on_rq :: "nat \<Rightarrow> (run_queue \<Rightarrow> run_queue option) \<Rightarrow> kernel \<Rightarrow> kernel option" where
  "on_rq i f k =
     (case k_rqs k ! i of
        None \<Rightarrow> Some k
      | Some rq \<Rightarrow> map_option (\<lambda>rq'. k\<lparr>k_rqs := (k_rqs k)[i := Some rq']\<rparr>) (f rq))"

primrec find_rq :: "pid \<Rightarrow> nat \<Rightarrow> run_queue option list \<Rightarrow> (nat \<times> sched_entity) option" where
  "find_rq pd i [] = None"
| "find_rq pd i (r # rs) =
     (case Option.bind r (rq_entity pd) of Some e \<Rightarrow> Some (i, e) | None \<Rightarrow> find_rq pd (Suc i) rs)"

definition sched_init :: "kernel \<Rightarrow> kernel" where
  "sched_init k = k\<lparr>k_rqs := (k_rqs k)[0 := Some (run_queue_new 0)]\<rparr>"

definition init_cpu :: "u32 \<Rightarrow> kernel \<Rightarrow> kernel" where
  "init_cpu cpu k =
     (if unat cpu < MAX_CPUS_SCHED then k\<lparr>k_rqs := (k_rqs k)[unat cpu := Some (run_queue_new cpu)]\<rparr> else k)"

definition u32_max :: nat where "u32_max = 2 ^ 32 - 1"

definition select_cpu_for_new_task :: "kernel \<Rightarrow> nat" where
  "select_cpu_for_new_task k =
     fst (fold (\<lambda>cpu (best, min_load).
            let load = (case k_rqs k ! cpu of None \<Rightarrow> u32_max | Some rq \<Rightarrow> rq_nr_running rq) in
            if load < min_load then (cpu, load) else (best, min_load))
          [0..<min (k_ncpus k) MAX_CPUS_SCHED] (0, u32_max))"

definition add_task :: "pid \<Rightarrow> u8 \<Rightarrow> u8 \<Rightarrow> kernel \<Rightarrow> kernel option" where
  "add_task pd prio policy k =
     on_rq (select_cpu_for_new_task k)
       (\<lambda>rq. rq_enqueue pd prio (rq_add_entity (sched_entity_new pd prio policy) rq)) k"

definition remove_task :: "pid \<Rightarrow> kernel \<Rightarrow> kernel option" where
  "remove_task pd k =
     (case find_rq pd 0 (k_rqs k) of
        None \<Rightarrow> Some k
      | Some (i, e) \<Rightarrow> on_rq i (\<lambda>rq. rq_dequeue pd (se_prio e) (rq_remove_entity pd rq)) k)"

definition sched_enqueue :: "pid \<Rightarrow> kernel \<Rightarrow> kernel option" where
  "sched_enqueue pd k =
     (case find_rq pd 0 (k_rqs k) of
        None \<Rightarrow> Some k
      | Some (i, e) \<Rightarrow> on_rq i (rq_enqueue pd (se_prio e)) k)"

definition reprio :: "u8 \<Rightarrow> sched_entity \<Rightarrow> sched_entity" where
  "reprio prio e = e\<lparr>se_prio := prio, se_timeslice_us := timeslice_for prio (se_policy e)\<rparr>"

definition set_priority :: "pid \<Rightarrow> u8 \<Rightarrow> kernel \<Rightarrow> kernel option" where
  "set_priority pd prio k =
     (case find_rq pd 0 (k_rqs k) of
        None \<Rightarrow> Some k
      | Some (i, e) \<Rightarrow> on_rq i (\<lambda>rq. Option.bind (rq_dequeue pd (se_prio e) (rq_entity_adjust pd (reprio prio) rq))
                                  (rq_enqueue pd prio)) k)"

definition this_cpu :: "kernel \<Rightarrow> nat" where
  "this_cpu k = min (k_cpu k) (MAX_CPUS_SCHED - 1)"

definition charge :: "sched_entity \<Rightarrow> sched_entity" where
  "charge e = e\<lparr>se_used_us := se_used_us e + 1000,
     se_vruntime := se_vruntime e + of_nat (1000 * 100 div max (unat (se_prio e) + 1) 1)\<rparr>"

definition tick :: "kernel \<Rightarrow> kernel" where
  "tick k =
     (case k_rqs k ! this_cpu k of
        None \<Rightarrow> k
      | Some rq \<Rightarrow>
          let rq1 = rq\<lparr>rq_clock_us := rq_clock_us rq + 1000\<rparr>;
              rq2 = rq_entity_adjust (k_current k) charge rq1;
              expired = (case rq_entity (k_current k) rq2 of
                  None \<Rightarrow> False | Some e \<Rightarrow> se_timeslice_us e \<le> unat (se_used_us e)) in
          k\<lparr>k_rqs := (k_rqs k)[this_cpu k := Some rq2], k_need_resched := k_need_resched k \<or> expired\<rparr>)"

section \<open>Switching\<close>

datatype outcome = Stay | SwitchTo pid | Idle

definition switch_to :: "pid \<Rightarrow> pid \<Rightarrow> kernel \<Rightarrow> outcome \<times> kernel" where
  "switch_to from to k =
     (let k1 = with_process_mut from (\<lambda>p. if p_state p = Running then p\<lparr>p_state := Runnable\<rparr> else p) k;
          k2 = with_process_mut to (\<lambda>p. p\<lparr>p_state := Running\<rparr>) k1;
          k3 = set_current to k2 in
      (if bt_get (k_procs k3) from = None then Stay else SwitchTo to, k3))"

definition busiest_cpu :: "nat \<Rightarrow> kernel \<Rightarrow> nat \<times> nat" where
  "busiest_cpu my_cpu k =
     fold (\<lambda>cpu (busiest, max_load).
            if cpu = my_cpu then (busiest, max_load)
            else let load = (case k_rqs k ! cpu of None \<Rightarrow> 0 | Some rq \<Rightarrow> rq_nr_running rq) in
              if max_load < load then (cpu, load) else (busiest, max_load))
          [0..<min (k_ncpus k) MAX_CPUS_SCHED] (0, 0)"

definition pick_on :: "nat \<Rightarrow> kernel \<Rightarrow> (pid option \<times> kernel) option" where
  "pick_on i k =
     (case k_rqs k ! i of
        None \<Rightarrow> Some (None, k)
      | Some rq \<Rightarrow> map_option (\<lambda>(n, rq'). (n, k\<lparr>k_rqs := (k_rqs k)[i := Some rq']\<rparr>)) (rq_pick_next rq))"

definition migrate :: "pid \<Rightarrow> nat \<Rightarrow> nat \<Rightarrow> kernel \<Rightarrow> kernel option" where
  "migrate pd src dst k =
     (case Option.bind (k_rqs k ! src) (rq_entity pd) of
        None \<Rightarrow> Some k
      | Some e \<Rightarrow> Option.bind (on_rq src (\<lambda>rq. Some (rq_remove_entity pd rq)) k)
                   (on_rq dst (\<lambda>rq. rq_enqueue pd (se_prio e) (rq_add_entity e rq))))"

definition work_steal :: "nat \<Rightarrow> kernel \<Rightarrow> (pid option \<times> kernel) option" where
  "work_steal my_cpu k =
     (let (busiest, max_load) = busiest_cpu my_cpu k in
      if max_load < 2 then Some (None, k)
      else do {
        (n, k1) \<leftarrow> pick_on busiest k;
        case n of
          None \<Rightarrow> Some (None, k1)
        | Some pd \<Rightarrow> map_option (\<lambda>k2. (Some pd, k2)) (migrate pd busiest my_cpu k1)
      })"

definition is_blocked :: "process_state \<Rightarrow> bool" where
  "is_blocked st = (case st of Sleeping \<Rightarrow> True | Stopped \<Rightarrow> True | Zombie _ \<Rightarrow> True | _ \<Rightarrow> False)"

definition reset_used :: "pid \<Rightarrow> nat \<Rightarrow> kernel \<Rightarrow> kernel" where
  "reset_used pd i k =
     (case k_rqs k ! i of
        None \<Rightarrow> k
      | Some rq \<Rightarrow> k\<lparr>k_rqs := (k_rqs k)[i := Some (rq_entity_adjust pd (\<lambda>e. e\<lparr>se_used_us := 0\<rparr>) rq)]\<rparr>)"

definition schedule :: "kernel \<Rightarrow> (outcome \<times> kernel) option" where
  "schedule k =
     (if \<not> k_need_resched k then Some (Stay, k)
      else let k0 = k\<lparr>k_need_resched := False\<rparr>; cpu = this_cpu k; cur = k_current k in do {
        k1 \<leftarrow> (if state_of cur k0 = Some Running then sched_enqueue cur k0 else Some k0);
        (n, k2) \<leftarrow> pick_on cpu (reset_used cur cpu k1);
        case n of
          Some to \<Rightarrow> Some (if to \<noteq> cur then switch_to cur to k2 else (Stay, k2))
        | None \<Rightarrow> do {
            (st, k3) \<leftarrow> work_steal cpu k2;
            case st of
              Some to \<Rightarrow> Some (switch_to cur to k3)
            | None \<Rightarrow> Some (case state_of cur k3 of
                  None \<Rightarrow> (Stay, k3)
                | Some s \<Rightarrow> (if is_blocked s then Idle else Stay, k3))
          }
      })"

text \<open>One look of the halted CPU at its queue, after an interrupt.\<close>

definition idle_poll :: "kernel \<Rightarrow> kernel option" where
  "idle_poll k =
     (let has_work = (case k_rqs k ! this_cpu k of None \<Rightarrow> False | Some rq \<Rightarrow> 0 < rq_nr_running rq) in
      if has_work \<or> k_need_resched k then Some (k\<lparr>k_need_resched := True\<rparr>) else None)"

definition request_reschedule :: "kernel \<Rightarrow> kernel" where
  "request_reschedule k = k\<lparr>k_need_resched := True\<rparr>"

definition yield_current :: "kernel \<Rightarrow> (outcome \<times> kernel) option" where
  "yield_current k = schedule (request_reschedule k)"

definition schedule_next_from_irq :: "kernel \<Rightarrow> (outcome \<times> kernel) option" where
  "schedule_next_from_irq k = schedule (request_reschedule k)"

text \<open>\<open>block_current\<close> up to the switch, and what it does when the task runs again.\<close>

definition block_current :: "process_state \<Rightarrow> kernel \<Rightarrow> (outcome \<times> kernel) option" where
  "block_current st k =
     schedule (request_reschedule (with_process_mut (k_current k) (\<lambda>p. p\<lparr>p_state := st\<rparr>) k))"

definition block_resume :: "pid \<Rightarrow> kernel \<Rightarrow> kernel" where
  "block_resume pd k =
     with_process_mut pd (\<lambda>p. if p_state p = Sleeping \<or> p_state p = Runnable then p\<lparr>p_state := Running\<rparr> else p) k"

definition sleep_current :: "u64 \<Rightarrow> kernel \<Rightarrow> (outcome \<times> kernel) option" where
  "sleep_current until k =
     schedule (request_reschedule
       (with_process_mut (k_current k) (\<lambda>p. p\<lparr>p_state := Sleeping, p_sleep_until := until\<rparr>) k))"

definition wake_process :: "pid \<Rightarrow> kernel \<Rightarrow> kernel option" where
  "wake_process pd k =
     (if state_of pd k = Some Sleeping
      then map_option request_reschedule
             (sched_enqueue pd (with_process_mut pd (\<lambda>p. p\<lparr>p_state := Runnable\<rparr>) k))
      else Some k)"

primrec wake_all :: "pid list \<Rightarrow> kernel \<Rightarrow> kernel option" where
  "wake_all [] k = Some k"
| "wake_all (p # ps) k = Option.bind (wake_process p k) (wake_all ps)"

definition nr_running :: "kernel \<Rightarrow> nat" where
  "nr_running k = sum_list (map (\<lambda>r. case r of None \<Rightarrow> 0 | Some rq \<Rightarrow> rq_nr_running rq) (k_rqs k))"

section \<open>Sleeping on the clock\<close>

text \<open>time/mod.rs: the sleep call and the wake-up from the timer interrupt.\<close>

definition sleep_ms :: "u64 \<Rightarrow> kernel \<Rightarrow> (outcome \<times> kernel) option" where
  "sleep_ms ms k =
     (if ms = 0 then Some (Stay, k)
      else let wake_at = k_ticks k + ms; pd = k_current k in do {
        k1 \<leftarrow> remove_task pd (with_process_mut pd (\<lambda>p. p\<lparr>p_sleep_until := wake_at, p_state := Sleeping\<rparr>) k);
        schedule (request_reschedule k1)
      })"

primrec wake_due :: "u64 \<Rightarrow> pid list \<Rightarrow> kernel \<Rightarrow> kernel option" where
  "wake_due now [] k = Some k"
| "wake_due now (p # ps) k =
     (let due = (case bt_get (k_procs k) p of
            None \<Rightarrow> False
          | Some q \<Rightarrow> p_state q = Sleeping \<and> p_sleep_until q \<noteq> 0 \<and> p_sleep_until q \<le> now) in
      if due
      then Option.bind (wake_process p (with_process_mut p (\<lambda>q. q\<lparr>p_sleep_until := 0\<rparr>) k)) (wake_due now ps)
      else wake_due now ps k)"

definition wake_sleeping_processes :: "u64 \<Rightarrow> kernel \<Rightarrow> kernel option" where
  "wake_sleeping_processes now k = wake_due now (all_pids k) k"

section \<open>Invariant of the run queues\<close>

definition ent_ok :: "pid \<Rightarrow> sched_entity \<Rightarrow> bool" where
  "ent_ok pd e \<longleftrightarrow> se_pid e = pd \<and> unat (se_prio e) < NUM_PRIO_LEVELS"

definition rq_ok :: "run_queue \<Rightarrow> bool" where
  "rq_ok rq \<longleftrightarrow> rq_inv rq \<and>
     (\<forall>x\<in>set (rq_view rq). \<exists>e. rq_entity (snd x) rq = Some e \<and> unat (se_prio e) = fst x) \<and>
     (\<forall>pd e. rq_entity pd rq = Some e \<longrightarrow> ent_ok pd e)"

definition entity_at :: "nat \<Rightarrow> pid \<Rightarrow> kernel \<Rightarrow> sched_entity option" where
  "entity_at i pd k = Option.bind (k_rqs k ! i) (rq_entity pd)"

definition rqs_inv :: "kernel \<Rightarrow> bool" where
  "rqs_inv k \<longleftrightarrow> length (k_rqs k) = MAX_CPUS_SCHED \<and>
     (\<forall>i<MAX_CPUS_SCHED. \<forall>rq. k_rqs k ! i = Some rq \<longrightarrow> rq_ok rq) \<and>
     (\<forall>i<MAX_CPUS_SCHED. \<forall>j<MAX_CPUS_SCHED. \<forall>pd. entity_at i pd k \<noteq> None \<and> entity_at j pd k \<noteq> None \<longrightarrow> i = j)"

definition known :: "pid \<Rightarrow> kernel \<Rightarrow> bool" where
  "known pd k \<longleftrightarrow> (\<exists>i<MAX_CPUS_SCHED. entity_at i pd k \<noteq> None)"

definition queue_at :: "nat \<Rightarrow> kernel \<Rightarrow> (nat \<times> pid) list" where
  "queue_at i k = (case k_rqs k ! i of None \<Rightarrow> [] | Some rq \<Rightarrow> rq_view rq)"

definition queued :: "pid \<Rightarrow> kernel \<Rightarrow> bool" where
  "queued pd k \<longleftrightarrow> (\<exists>i<MAX_CPUS_SCHED. pd \<in> snd ` set (queue_at i k))"

lemma set_spec_enqueue: "set (spec_enqueue pd p v) = insert (p, pd) (set v)"
proof -
  have "set v = set (takeWhile P v) \<union> set (dropWhile P v)" for P
    by (metis set_append takeWhile_dropWhile_id)
  then show ?thesis by (auto simp: spec_enqueue_def)
qed

lemma set_spec_dequeue: "set (spec_dequeue pd p v) = set v - {(p, pd)}"
  by (auto simp: spec_dequeue_def)

lemma rq_entity_simps [simp]:
  "rq_entity pd (rq_add_entity e rq) = (if pd = se_pid e then Some e else rq_entity pd rq)"
  "rq_entity pd (rq_remove_entity p rq) = (if pd = p then None else rq_entity pd rq)"
  "rq_entity pd (rq_entity_adjust p f rq) = (if pd = p then map_option f (rq_entity p rq) else rq_entity pd rq)"
  by (simp_all add: rq_entity_def rq_add_entity_def rq_remove_entity_def rq_entity_adjust_def bt_simps)

lemma rq_view_entities [simp]:
  "rq_view (rq_add_entity e rq) = rq_view rq" "rq_view (rq_remove_entity p rq) = rq_view rq"
  "rq_view (rq_entity_adjust p f rq) = rq_view rq"
  "rq_view (rq\<lparr>rq_clock_us := c\<rparr>) = rq_view rq"
  by (simp_all add: rq_view_def rq_add_entity_def rq_remove_entity_def rq_entity_adjust_def)

lemma rq_inv_entities [simp]:
  "rq_inv (rq_add_entity e rq) = rq_inv rq" "rq_inv (rq_remove_entity p rq) = rq_inv rq"
  "rq_inv (rq_entity_adjust p f rq) = rq_inv rq"
  "rq_inv (rq\<lparr>rq_clock_us := c\<rparr>) = rq_inv rq"
  by (simp_all add: rq_inv_def rq_add_entity_def rq_remove_entity_def rq_entity_adjust_def)

lemma rq_entity_clock [simp]: "rq_entity pd (rq\<lparr>rq_clock_us := c\<rparr>) = rq_entity pd rq"
  by (simp add: rq_entity_def)

lemma rq_entity_cong: "rq_entities a = rq_entities b \<Longrightarrow> rq_entity pd a = rq_entity pd b"
  by (simp add: rq_entity_def)

lemma rq_ok_new: "rq_ok (run_queue_new cpu)"
  by (simp add: rq_ok_def rq_new_inv rq_entity_def) (simp add: run_queue_new_def)

lemma rq_ok_enqueue:
  assumes "rq_ok rq" "rq_entity pd rq = Some e"
  shows "\<exists>rq'. rq_enqueue pd (se_prio e) rq = Some rq' \<and> rq_ok rq' \<and>
    (\<forall>p. rq_entity p rq' = rq_entity p rq) \<and>
    rq_view rq' = spec_enqueue pd (unat (se_prio e)) (rq_view rq)"
proof -
  have "rq_inv rq" "unat (se_prio e) < NUM_PRIO_LEVELS" using assms by (auto simp: rq_ok_def ent_ok_def)
  then obtain rq' where r: "rq_enqueue pd (se_prio e) rq = Some rq'" "rq_inv rq'"
    "rq_view rq' = spec_enqueue pd (unat (se_prio e)) (rq_view rq)" "rq_entities rq' = rq_entities rq"
    using rq_enqueue_ok by blast
  moreover have ent: "rq_entity p rq' = rq_entity p rq" for p by (rule rq_entity_cong [OF r(4)])
  moreover have "rq_ok rq'"
    using assms r(2) by (auto simp: rq_ok_def ent r(3) set_spec_enqueue)
  ultimately show ?thesis by blast
qed

lemma rq_ok_dequeue:
  assumes "rq_inv rq" "unat prio < NUM_PRIO_LEVELS"
    and v: "\<forall>x\<in>set (rq_view rq). x \<noteq> (unat prio, pd) \<longrightarrow>
      (\<exists>e. rq_entity (snd x) rq = Some e \<and> unat (se_prio e) = fst x)"
    and p: "\<forall>pd e. rq_entity pd rq = Some e \<longrightarrow> ent_ok pd e"
  shows "\<exists>rq'. rq_dequeue pd prio rq = Some rq' \<and> rq_ok rq' \<and>
    (\<forall>q. rq_entity q rq' = rq_entity q rq) \<and> rq_view rq' = spec_dequeue pd (unat prio) (rq_view rq)"
proof -
  obtain rq' where r: "rq_dequeue pd prio rq = Some rq'" "rq_inv rq'"
    "rq_view rq' = spec_dequeue pd (unat prio) (rq_view rq)" "rq_entities rq' = rq_entities rq"
    using rq_dequeue_ok [OF assms(1,2)] by blast
  moreover have ent: "rq_entity q rq' = rq_entity q rq" for q by (rule rq_entity_cong [OF r(4)])
  moreover have "rq_ok rq'"
    using r(2) v p by (auto simp: rq_ok_def ent r(3) set_spec_dequeue)
  ultimately show ?thesis by blast
qed

lemma rq_ok_dequeue_own:
  assumes ok: "rq_ok rq" and e: "rq_entity pd rq = Some e"
    and r1: "rq_inv rq1" "rq_view rq1 = rq_view rq" "\<And>q. q \<noteq> pd \<Longrightarrow> rq_entity q rq1 = rq_entity q rq"
    and p1: "\<And>e'. rq_entity pd rq1 = Some e' \<Longrightarrow> ent_ok pd e'"
  shows "\<exists>rq'. rq_dequeue pd (se_prio e) rq1 = Some rq' \<and> rq_ok rq' \<and>
    (\<forall>q. rq_entity q rq' = rq_entity q rq1) \<and> rq_view rq' = spec_dequeue pd (unat (se_prio e)) (rq_view rq)"
proof -
  have v: "\<exists>d. rq_entity (snd x) rq1 = Some d \<and> unat (se_prio d) = fst x"
    if x: "x \<in> set (rq_view rq1)" "x \<noteq> (unat (se_prio e), pd)" for x
  proof -
    obtain d where d: "rq_entity (snd x) rq = Some d" "unat (se_prio d) = fst x"
      using ok x(1) r1(2) by (auto simp: rq_ok_def)
    then have "snd x \<noteq> pd" using x(2) e by (cases x) auto
    then show ?thesis using d r1(3) by simp
  qed
  have "ent_ok q d" if "rq_entity q rq1 = Some d" for q d
    using that p1 ok r1(3) [of q] by (cases "q = pd") (auto simp: rq_ok_def)
  moreover have "unat (se_prio e) < NUM_PRIO_LEVELS" using ok e by (auto simp: rq_ok_def ent_ok_def)
  ultimately show ?thesis using rq_ok_dequeue [OF r1(1), of "se_prio e" pd] v r1(2) by simp
qed

lemma rq_ok_pick:
  assumes "rq_ok rq"
  shows "\<exists>rq'. rq_pick_next rq = Some (case rq_view rq of [] \<Rightarrow> None | x # _ \<Rightarrow> Some (snd x), rq') \<and>
    rq_ok rq' \<and> (\<forall>q. rq_entity q rq' = rq_entity q rq) \<and> rq_view rq' = tl (rq_view rq)"
proof -
  obtain rq' where r: "rq_pick_next rq = Some (case rq_view rq of [] \<Rightarrow> None | x # _ \<Rightarrow> Some (snd x), rq')"
    "rq_inv rq'" "rq_view rq' = tl (rq_view rq)" "rq_entities rq' = rq_entities rq"
    using rq_pick_next_ok [of rq] assms by (auto simp: rq_ok_def)
  moreover have ent: "rq_entity q rq' = rq_entity q rq" for q by (rule rq_entity_cong [OF r(4)])
  moreover have "rq_ok rq'"
    using assms r(2) list.set_sel(2) [of "rq_view rq"] by (cases "rq_view rq") (auto simp: rq_ok_def ent r(3))
  ultimately show ?thesis by blast
qed

lemma rq_ok_adjust:
  assumes "rq_ok rq" "\<And>e. se_prio (f e) = se_prio e \<and> se_pid (f e) = se_pid e"
  shows "rq_ok (rq_entity_adjust pd f rq)"
  using assms by (fastforce simp: rq_ok_def ent_ok_def)

lemma rq_ok_clock: "rq_ok (rq\<lparr>rq_clock_us := c\<rparr>) = rq_ok rq"
  by (simp add: rq_ok_def)

section \<open>Updating one CPU's queue\<close>

lemma entity_unique:
  assumes "rqs_inv k" "i < MAX_CPUS_SCHED" "j < MAX_CPUS_SCHED"
    "entity_at i pd k \<noteq> None" "entity_at j pd k \<noteq> None"
  shows "i = j"
  using assms unfolding rqs_inv_def by blast

lemma rqs_inv_upd:
  assumes inv: "rqs_inv k" and i: "i < MAX_CPUS_SCHED" and ok: "rq_ok rq'"
    and ent: "\<And>pd j. rq_entity pd rq' \<noteq> None \<Longrightarrow> j < MAX_CPUS_SCHED \<Longrightarrow> j \<noteq> i \<Longrightarrow> entity_at j pd k = None"
    and k': "k_rqs k' = (k_rqs k)[i := Some rq']"
  shows "rqs_inv k'"
proof -
  have len: "length (k_rqs k) = MAX_CPUS_SCHED" using inv by (simp add: rqs_inv_def)
  have at: "entity_at j pd k' = (if j = i then rq_entity pd rq' else entity_at j pd k)"
    if "j < MAX_CPUS_SCHED" for j pd
    using that i len by (auto simp: entity_at_def k')
  show ?thesis
    unfolding rqs_inv_def
  proof (intro conjI allI impI)
    show "length (k_rqs k') = MAX_CPUS_SCHED" using len by (simp add: k')
    show "rq_ok rq" if "j < MAX_CPUS_SCHED" "k_rqs k' ! j = Some rq" for j rq
      using that inv i ok len by (cases "j = i") (auto simp: k' rqs_inv_def)
    show "a = b" if "a < MAX_CPUS_SCHED" "b < MAX_CPUS_SCHED"
      "entity_at a pd k' \<noteq> None \<and> entity_at b pd k' \<noteq> None" for a b pd
      using that ent [of pd] entity_unique [OF inv, of a b pd]
      by (cases "a = i"; cases "b = i") (auto simp: at)
  qed
qed

lemma rqs_inv_same: "k_rqs k' = k_rqs k \<Longrightarrow> rqs_inv k' = rqs_inv k"
  by (simp add: rqs_inv_def entity_at_def)

lemma rqs_inv_upd_same:
  assumes inv: "rqs_inv k" and i: "i < MAX_CPUS_SCHED" and r: "k_rqs k ! i = Some rq" and ok: "rq_ok rq'"
    and ent: "\<And>pd. rq_entity pd rq' \<noteq> None \<Longrightarrow> rq_entity pd rq \<noteq> None"
    and k': "k_rqs k' = (k_rqs k)[i := Some rq']"
  shows "rqs_inv k'"
proof (rule rqs_inv_upd [OF inv i ok _ k'])
  fix pd j assume "rq_entity pd rq' \<noteq> None" "j < MAX_CPUS_SCHED" "j \<noteq> i"
  moreover have "entity_at i pd k \<noteq> None" using calculation(1) ent r by (simp add: entity_at_def)
  ultimately show "entity_at j pd k = None" using entity_unique [OF inv i, of j pd] by blast
qed

lemma find_rq_Some:
  "find_rq pd i rs = Some (j, e) \<Longrightarrow>
   i \<le> j \<and> j < i + length rs \<and> Option.bind (rs ! (j - i)) (rq_entity pd) = Some e"
proof (induction rs arbitrary: i)
  case (Cons r rs)
  show ?case
  proof (cases "Option.bind r (rq_entity pd)")
    case None
    then have "find_rq pd (Suc i) rs = Some (j, e)" using Cons.prems by simp
    from Cons.IH [OF this] show ?thesis by (auto simp: Suc_diff_le nth_Cons')
  qed (use Cons.prems in auto)
qed simp

lemma find_rq_None: "find_rq pd i rs = None \<longleftrightarrow> (\<forall>r\<in>set rs. Option.bind r (rq_entity pd) = None)"
  by (induction rs arbitrary: i) (auto split: option.splits)

lemma find_rq_kernel:
  assumes "rqs_inv k" "find_rq pd 0 (k_rqs k) = Some (i, e)"
  obtains rq where "i < MAX_CPUS_SCHED" "k_rqs k ! i = Some rq" "rq_entity pd rq = Some e" "rq_ok rq"
  using find_rq_Some [OF assms(2)] assms(1) that by (fastforce simp: rqs_inv_def bind_eq_Some_conv)

lemma find_rq_known:
  assumes "rqs_inv k"
  shows "find_rq pd 0 (k_rqs k) = None \<longleftrightarrow> \<not> known pd k"
  using assms by (auto simp: find_rq_None known_def rqs_inv_def entity_at_def all_set_conv_all_nth)

section \<open>Every scheduler operation keeps the invariant\<close>

lemma at_upd:
  assumes "rqs_inv k" "i < MAX_CPUS_SCHED" "k_rqs k' = (k_rqs k)[i := Some rq']"
  shows "entity_at j p k' = (if j = i then rq_entity p rq' else entity_at j p k)"
    "queue_at j k' = (if j = i then rq_view rq' else queue_at j k)"
  using assms by (auto simp: rqs_inv_def entity_at_def queue_at_def)

lemma known_split:
  "i < MAX_CPUS_SCHED \<Longrightarrow>
   known p k \<longleftrightarrow> entity_at i p k \<noteq> None \<or> (\<exists>j<MAX_CPUS_SCHED. j \<noteq> i \<and> entity_at j p k \<noteq> None)"
  unfolding known_def by blast

lemma queued_split:
  "i < MAX_CPUS_SCHED \<Longrightarrow>
   queued p k \<longleftrightarrow> p \<in> snd ` set (queue_at i k) \<or> (\<exists>j<MAX_CPUS_SCHED. j \<noteq> i \<and> p \<in> snd ` set (queue_at j k))"
  unfolding queued_def by blast

lemma known_upd:
  assumes "rqs_inv k" "i < MAX_CPUS_SCHED" "k_rqs k' = (k_rqs k)[i := Some rq']"
  shows "known p k' \<longleftrightarrow> rq_entity p rq' \<noteq> None \<or> (\<exists>j<MAX_CPUS_SCHED. j \<noteq> i \<and> entity_at j p k \<noteq> None)"
  using at_upd(1) [OF assms] by (simp add: known_split [OF assms(2)] cong: conj_cong)

lemma queued_upd:
  assumes "rqs_inv k" "i < MAX_CPUS_SCHED" "k_rqs k' = (k_rqs k)[i := Some rq']"
  shows "queued p k' \<longleftrightarrow> p \<in> snd ` set (rq_view rq') \<or> (\<exists>j<MAX_CPUS_SCHED. j \<noteq> i \<and> p \<in> snd ` set (queue_at j k))"
  using at_upd(2) [OF assms] by (simp add: queued_split [OF assms(2)] cong: conj_cong)

lemma on_rq_frame:
  assumes "on_rq i f k = Some k'"
  shows "k_procs k' = k_procs k" "k_current k' = k_current k" "k_need_resched k' = k_need_resched k"
    "k_cpu k' = k_cpu k" "k_ncpus k' = k_ncpus k" "k_pipes k' = k_pipes k" "k_pipe_waiters k' = k_pipe_waiters k"
    "k_ticks k' = k_ticks k" "k_groups k' = k_groups k" "k_next_pid k' = k_next_pid k"
  using assms by (auto simp: on_rq_def split: option.splits)

lemma sched_enqueue_unknown: "rqs_inv k \<Longrightarrow> \<not> known pd k \<Longrightarrow> sched_enqueue pd k = Some k"
  using find_rq_known [of k pd] by (simp add: sched_enqueue_def)

lemma known_entity:
  assumes inv: "rqs_inv k" and "known pd k"
  obtains i rq e where "find_rq pd 0 (k_rqs k) = Some (i, e)" "i < MAX_CPUS_SCHED" "k_rqs k ! i = Some rq"
    "rq_entity pd rq = Some e" "rq_ok rq"
proof -
  obtain i e where f: "find_rq pd 0 (k_rqs k) = Some (i, e)"
    using assms find_rq_known [OF inv, of pd] by auto
  show ?thesis by (rule find_rq_kernel [OF inv f]) (rule that [OF f])
qed

lemma sched_enqueue_ok:
  assumes inv: "rqs_inv k"
  shows "\<exists>k'. sched_enqueue pd k = Some k' \<and> rqs_inv k' \<and> (\<forall>q. known q k' = known q k) \<and>
    (\<forall>q. queued q k' \<longleftrightarrow> queued q k \<or> q = pd \<and> known pd k)"
proof (cases "known pd k")
  case False
  then show ?thesis using inv sched_enqueue_unknown by auto
next
  case True
  then obtain i rq e where f: "find_rq pd 0 (k_rqs k) = Some (i, e)" and
    r: "i < MAX_CPUS_SCHED" "k_rqs k ! i = Some rq" "rq_entity pd rq = Some e" "rq_ok rq"
    by (rule known_entity [OF inv])
  obtain rq' where q: "rq_enqueue pd (se_prio e) rq = Some rq'" "rq_ok rq'"
    "\<forall>p. rq_entity p rq' = rq_entity p rq" "rq_view rq' = spec_enqueue pd (unat (se_prio e)) (rq_view rq)"
    using rq_ok_enqueue [OF r(4,3)] by blast
  let ?k = "k\<lparr>k_rqs := (k_rqs k)[i := Some rq']\<rparr>"
  have "rqs_inv ?k" by (rule rqs_inv_upd_same [OF inv r(1,2) q(2)]) (simp_all add: q(3))
  moreover have "entity_at j p ?k = entity_at j p k" for j p
    using at_upd(1) [OF inv r(1), of ?k rq'] r(2) q(3) by (simp add: entity_at_def)
  moreover have "queued p ?k \<longleftrightarrow> queued p k \<or> p = pd" for p
    using queued_upd [OF inv r(1), of ?k rq' p] queued_split [OF r(1), of p k] r(2)
    by (auto simp: q(4) set_spec_enqueue queue_at_def image_iff)
  ultimately show ?thesis using f r q True by (simp add: sched_enqueue_def on_rq_def known_def)
qed

lemma queue_entity:
  assumes inv: "rqs_inv k" and i: "i < MAX_CPUS_SCHED" and x: "x \<in> set (queue_at i k)"
  shows "\<exists>e. entity_at i (snd x) k = Some e \<and> unat (se_prio e) = fst x"
proof (cases "k_rqs k ! i")
  case (Some rq)
  then have "rq_ok rq" using inv i by (auto simp: rqs_inv_def)
  then show ?thesis using x Some by (auto simp: queue_at_def entity_at_def rq_ok_def)
qed (use x in \<open>simp add: queue_at_def\<close>)

lemma queued_known: "rqs_inv k \<Longrightarrow> queued pd k \<Longrightarrow> known pd k"
  using queue_entity unfolding queued_def known_def by fastforce

lemma remove_task_ok:
  assumes inv: "rqs_inv k"
  shows "\<exists>k'. remove_task pd k = Some k' \<and> rqs_inv k' \<and> (\<forall>q. known q k' \<longleftrightarrow> known q k \<and> q \<noteq> pd) \<and>
    (\<forall>q. queued q k' \<longleftrightarrow> queued q k \<and> q \<noteq> pd)"
proof (cases "known pd k")
  case False
  then show ?thesis
    using inv find_rq_known [OF inv, of pd] queued_known [OF inv] by (auto simp: remove_task_def)
next
  case True
  then obtain i rq e where f: "find_rq pd 0 (k_rqs k) = Some (i, e)" and
    r: "i < MAX_CPUS_SCHED" "k_rqs k ! i = Some rq" "rq_entity pd rq = Some e" "rq_ok rq"
    by (rule known_entity [OF inv])
  have "\<exists>rq'. rq_dequeue pd (se_prio e) (rq_remove_entity pd rq) = Some rq' \<and> rq_ok rq' \<and>
    (\<forall>q. rq_entity q rq' = rq_entity q (rq_remove_entity pd rq)) \<and>
    rq_view rq' = spec_dequeue pd (unat (se_prio e)) (rq_view (rq_remove_entity pd rq))"
    using rq_ok_dequeue_own [OF r(4,3), of "rq_remove_entity pd rq"] r(4) by (simp add: rq_ok_def)
  then obtain rq' where q: "rq_dequeue pd (se_prio e) (rq_remove_entity pd rq) = Some rq'" "rq_ok rq'"
    "\<forall>q. rq_entity q rq' = (if q = pd then None else rq_entity q rq)"
    "rq_view rq' = spec_dequeue pd (unat (se_prio e)) (rq_view rq)"
    by auto
  let ?k = "k\<lparr>k_rqs := (k_rqs k)[i := Some rq']\<rparr>"
  have at: "entity_at i p k = rq_entity p rq" for p using r by (simp add: entity_at_def)
  have own: "j = i" if "j < MAX_CPUS_SCHED" "entity_at j pd k \<noteq> None" for j
    using entity_unique [OF inv that(1) r(1) that(2)] at r(3) by simp
  have "known p ?k \<longleftrightarrow> known p k \<and> p \<noteq> pd" for p
    using known_upd [OF inv r(1), of ?k rq' p] known_split [OF r(1), of p k] q(3) at own
    by (cases "p = pd") auto
  moreover have "queued p ?k \<longleftrightarrow> queued p k \<and> p \<noteq> pd" for p
  proof (cases "p = pd")
    case True
    have "pd \<notin> snd ` set (rq_view rq')"
      using q(2,3) by (fastforce simp: rq_ok_def)
    moreover have "pd \<notin> snd ` set (queue_at j k)" if "j < MAX_CPUS_SCHED" "j \<noteq> i" for j
      using queue_entity [OF inv that(1)] own [OF that(1)] that(2) by fastforce
    ultimately show ?thesis using queued_upd [OF inv r(1), of ?k rq' pd] True by auto
  next
    case False
    then have "p \<in> snd ` set (rq_view rq') \<longleftrightarrow> p \<in> snd ` set (queue_at i k)"
      using r(2) by (auto simp: q(4) set_spec_dequeue queue_at_def image_iff)
    then show ?thesis
      using queued_upd [OF inv r(1), of ?k rq' p] queued_split [OF r(1), of p k] False by simp
  qed
  moreover have "rqs_inv ?k"
    by (rule rqs_inv_upd_same [OF inv r(1,2) q(2)]) (simp_all add: q(3) split: if_splits)
  ultimately show ?thesis using f r q by (simp add: remove_task_def on_rq_def)
qed

lemma set_priority_ok:
  assumes inv: "rqs_inv k" and p: "unat prio < NUM_PRIO_LEVELS"
  shows "\<exists>k'. set_priority pd prio k = Some k' \<and> rqs_inv k' \<and> (\<forall>q. known q k' = known q k) \<and>
    (\<forall>q. queued q k' \<longleftrightarrow> queued q k \<or> q = pd \<and> known pd k)"
proof (cases "known pd k")
  case False
  then show ?thesis using inv find_rq_known [OF inv, of pd] by (auto simp: set_priority_def)
next
  case True
  then obtain i rq e where f: "find_rq pd 0 (k_rqs k) = Some (i, e)" and
    r: "i < MAX_CPUS_SCHED" "k_rqs k ! i = Some rq" "rq_entity pd rq = Some e" "rq_ok rq"
    by (rule known_entity [OF inv])
  let ?a = "rq_entity_adjust pd (reprio prio) rq"
  have "\<exists>rq'. rq_dequeue pd (se_prio e) ?a = Some rq' \<and> rq_ok rq' \<and> (\<forall>q. rq_entity q rq' = rq_entity q ?a) \<and>
    rq_view rq' = spec_dequeue pd (unat (se_prio e)) (rq_view ?a)"
    using rq_ok_dequeue_own [OF r(4,3), of ?a] r(3,4) p by (simp add: rq_ok_def ent_ok_def reprio_def)
  then obtain rq1 where q1: "rq_dequeue pd (se_prio e) ?a = Some rq1" "rq_ok rq1"
    "\<forall>q. rq_entity q rq1 = rq_entity q ?a" "rq_view rq1 = spec_dequeue pd (unat (se_prio e)) (rq_view rq)"
    by auto
  have "rq_entity pd rq1 = Some (reprio prio e)" using q1(3) r(3) by simp
  from rq_ok_enqueue [OF q1(2) this] obtain rq2 where q2: "rq_enqueue pd prio rq1 = Some rq2" "rq_ok rq2"
    "\<forall>q. rq_entity q rq2 = rq_entity q rq1" "rq_view rq2 = spec_enqueue pd (unat prio) (rq_view rq1)"
    by (auto simp: reprio_def)
  let ?k = "k\<lparr>k_rqs := (k_rqs k)[i := Some rq2]\<rparr>"
  have "rqs_inv ?k"
    by (rule rqs_inv_upd_same [OF inv r(1,2) q2(2)]) (use q1(3) q2(3) in \<open>auto split: if_splits\<close>)
  moreover have "entity_at j p ?k \<noteq> None \<longleftrightarrow> entity_at j p k \<noteq> None" for j p
    using at_upd(1) [OF inv r(1), of ?k rq2] r(2) q1(3) q2(3) by (simp add: entity_at_def)
  moreover have "queued p ?k \<longleftrightarrow> queued p k \<or> p = pd" for p
  proof -
    have "p \<in> snd ` set (rq_view rq2) \<longleftrightarrow> p \<in> snd ` set (queue_at i k) \<or> p = pd"
      using r(2) by (auto simp: queue_at_def q1(4) q2(4) set_spec_enqueue set_spec_dequeue image_iff)
    then show ?thesis
      using queued_upd [OF inv r(1), of ?k rq2 p] queued_split [OF r(1), of p k] by auto
  qed
  ultimately show ?thesis using f r q1 q2 True by (simp add: set_priority_def on_rq_def known_def)
qed

lemma select_cpu_bound: "select_cpu_for_new_task k < MAX_CPUS_SCHED"
proof -
  have "fst (fold g xs (b, m)) < N" if "\<forall>c\<in>set xs. c < N" "b < N"
    "\<And>c b m. fst (g c (b, m)) \<in> {b, c}" for g :: "nat \<Rightarrow> nat \<times> nat \<Rightarrow> nat \<times> nat" and xs b m N
    using that
  proof (induction xs arbitrary: b m)
    case (Cons c xs)
    obtain b' m' where g: "g c (b, m) = (b', m')" by fastforce
    then have "b' < N" using Cons.prems(3) [of c b m] Cons.prems(1,2) by auto
    then show ?case using Cons.IH [of b' m'] Cons.prems g by simp
  qed simp
  then show ?thesis
    unfolding select_cpu_for_new_task_def by (auto simp: MAX_CPUS_SCHED_def Let_def)
qed

lemma select_cpu_online:
  assumes "k_rqs k ! 0 \<noteq> None"
  shows "k_rqs k ! select_cpu_for_new_task k \<noteq> None"
proof -
  let ?g = "\<lambda>cpu (best, min_load).
            let load = (case k_rqs k ! cpu of None \<Rightarrow> u32_max | Some rq \<Rightarrow> rq_nr_running rq) in
            if load < min_load then (cpu, load) else (best, min_load)"
  have "k_rqs k ! fst (fold ?g xs (b, m)) \<noteq> None" if "k_rqs k ! b \<noteq> None" "m \<le> u32_max" for xs b m
    using that by (induction xs arbitrary: b m) (auto simp: Let_def split: option.splits)
  from this [of 0 u32_max] assms show ?thesis unfolding select_cpu_for_new_task_def by simp
qed

lemma add_task_at:
  assumes inv: "rqs_inv k" and new: "\<not> known pd k" and p: "unat prio < NUM_PRIO_LEVELS"
    and on: "k_rqs k ! select_cpu_for_new_task k \<noteq> None"
  shows "\<exists>k'. add_task pd prio policy k = Some k' \<and> rqs_inv k' \<and> (\<forall>q. known q k' \<longleftrightarrow> known q k \<or> q = pd) \<and>
    (\<forall>q. queued q k' \<longleftrightarrow> queued q k \<or> q = pd) \<and>
    queue_at (select_cpu_for_new_task k) k' = spec_enqueue pd (unat prio) (queue_at (select_cpu_for_new_task k) k) \<and>
    (\<forall>i p. entity_at i p k' = (if i = select_cpu_for_new_task k \<and> p = pd
      then Some (sched_entity_new pd prio policy) else entity_at i p k)) \<and> k_ncpus k' = k_ncpus k"
proof -
  let ?i = "select_cpu_for_new_task k" and ?e = "sched_entity_new pd prio policy"
  have i: "?i < MAX_CPUS_SCHED" by (rule select_cpu_bound)
  obtain rq where r: "k_rqs k ! ?i = Some rq" using on by auto
  have e: "se_pid ?e = pd" "se_prio ?e = prio" by (simp_all add: sched_entity_new_def)
  have ok: "rq_ok rq" using inv i r by (auto simp: rqs_inv_def)
  have none: "rq_entity pd rq = None" using new i r by (auto simp: known_def entity_at_def)
  have "rq_ok (rq_add_entity ?e rq)"
    using ok none p e by (fastforce simp: rq_ok_def ent_ok_def)
  then have "\<exists>rq'. rq_enqueue pd (se_prio ?e) (rq_add_entity ?e rq) = Some rq' \<and> rq_ok rq' \<and>
    (\<forall>q. rq_entity q rq' = rq_entity q (rq_add_entity ?e rq)) \<and>
    rq_view rq' = spec_enqueue pd (unat (se_prio ?e)) (rq_view (rq_add_entity ?e rq))"
    by (rule rq_ok_enqueue) (simp add: e)
  then obtain rq' where q: "rq_enqueue pd prio (rq_add_entity ?e rq) = Some rq'" "rq_ok rq'"
    "\<forall>q. rq_entity q rq' = (if q = pd then Some ?e else rq_entity q rq)"
    "rq_view rq' = spec_enqueue pd (unat prio) (rq_view rq)"
    by (auto simp: e)
  let ?k = "k\<lparr>k_rqs := (k_rqs k)[?i := Some rq']\<rparr>"
  have at: "entity_at ?i p k = rq_entity p rq" "queue_at ?i k = rq_view rq" for p
    using r by (simp_all add: entity_at_def queue_at_def)
  have "rqs_inv ?k"
  proof (rule rqs_inv_upd [OF inv i q(2)])
    show "entity_at j p k = None" if "rq_entity p rq' \<noteq> None" "j < MAX_CPUS_SCHED" "j \<noteq> ?i" for p j
      using that q(3) new entity_unique [OF inv i that(2), of p] at(1)
      by (cases "p = pd"; cases "entity_at j p k") (auto simp: known_def)
  qed simp
  moreover have "known p ?k \<longleftrightarrow> known p k \<or> p = pd" for p
    using known_upd [OF inv i, of ?k rq' p] known_split [OF i, of p k] q(3) at(1) by auto
  moreover have "queued p ?k \<longleftrightarrow> queued p k \<or> p = pd" for p
    using queued_upd [OF inv i, of ?k rq' p] queued_split [OF i, of p k] at(2)
    by (auto simp: q(4) set_spec_enqueue image_iff)
  moreover have "queue_at ?i ?k = spec_enqueue pd (unat prio) (queue_at ?i k)"
    using at_upd(2) [OF inv i, of ?k rq'] at(2) q(4) by simp
  moreover have "entity_at j p ?k = (if j = ?i \<and> p = pd then Some ?e else entity_at j p k)" for j p
    using at_upd(1) [OF inv i, of ?k rq'] at(1) q(3) by simp
  ultimately show ?thesis using r q(1) by (simp add: add_task_def on_rq_def)
qed

lemma add_task_ok:
  assumes inv: "rqs_inv k" and new: "\<not> known pd k" and p: "unat prio < NUM_PRIO_LEVELS"
    and on: "k_rqs k ! select_cpu_for_new_task k \<noteq> None"
  shows "\<exists>k'. add_task pd prio policy k = Some k' \<and> rqs_inv k' \<and> (\<forall>q. known q k' \<longleftrightarrow> known q k \<or> q = pd) \<and>
    (\<forall>q. queued q k' \<longleftrightarrow> queued q k \<or> q = pd)"
  using add_task_at [OF assms, of policy] by blast

lemma this_cpu_bound: "this_cpu k < MAX_CPUS_SCHED"
  by (simp add: this_cpu_def MAX_CPUS_SCHED_def)

lemma adjust_inv:
  assumes "rqs_inv k" "i < MAX_CPUS_SCHED" "k_rqs k ! i = Some rq"
    "\<And>e. se_prio (f e) = se_prio e \<and> se_pid (f e) = se_pid e"
    "k_rqs k' = (k_rqs k)[i := Some (rq_entity_adjust pd f (rq\<lparr>rq_clock_us := c\<rparr>))]"
  shows "rqs_inv k'"
proof (rule rqs_inv_upd_same [OF assms(1-3) _ _ assms(5)])
  have "rq_ok rq" using assms(1-3) by (auto simp: rqs_inv_def)
  then show "rq_ok (rq_entity_adjust pd f (rq\<lparr>rq_clock_us := c\<rparr>))"
    by (intro rq_ok_adjust assms(4)) (simp add: rq_ok_clock)
qed (simp split: if_splits)

lemma tick_inv: "rqs_inv k \<Longrightarrow> rqs_inv (tick k)"
proof (cases "k_rqs k ! this_cpu k")
  case (Some rq)
  assume "rqs_inv k"
  then show ?thesis
    by (rule adjust_inv [OF _ this_cpu_bound Some, of charge])
      (simp_all add: charge_def tick_def Some Let_def)
qed (simp add: tick_def)

lemma reset_used_inv: "rqs_inv k \<Longrightarrow> i < MAX_CPUS_SCHED \<Longrightarrow> rqs_inv (reset_used pd i k)"
proof (cases "k_rqs k ! i")
  case (Some rq)
  assume inv: "rqs_inv k" and i: "i < MAX_CPUS_SCHED"
  have "rq = rq\<lparr>rq_clock_us := rq_clock_us rq\<rparr>" by simp
  then show ?thesis
    by (intro adjust_inv [OF inv i Some, of "\<lambda>e. e\<lparr>se_used_us := 0\<rparr>" _ pd "rq_clock_us rq"])
      (simp_all add: reset_used_def Some)
qed (simp add: reset_used_def)

lemma rq_view_distinct: "rq_inv rq \<Longrightarrow> distinct (rq_view rq)"
proof -
  assume inv: "rq_inv rq"
  then have d: "distinct (rq_queues rq ! p)" if "p < NUM_PRIO_LEVELS" for p
    using that nth_mem [of p "rq_queues rq"] by (auto simp: rq_inv_def)
  have "distinct (concat (map (\<lambda>p. map (Pair p) (rq_queues rq ! p)) [0..<n]))" if "n \<le> NUM_PRIO_LEVELS" for n
    using that d by (induction n) (auto simp: distinct_map inj_on_def)
  then show ?thesis by (simp add: rq_view_def)
qed

lemma pick_on_ok:
  assumes inv: "rqs_inv k" and i: "i < MAX_CPUS_SCHED"
  shows "\<exists>k'. pick_on i k = Some (case queue_at i k of [] \<Rightarrow> None | x # _ \<Rightarrow> Some (snd x), k') \<and> rqs_inv k' \<and>
    queue_at i k' = tl (queue_at i k) \<and> (\<forall>j. j \<noteq> i \<longrightarrow> queue_at j k' = queue_at j k) \<and>
    (\<forall>j p. entity_at j p k' = entity_at j p k) \<and> k_procs k' = k_procs k \<and> k_current k' = k_current k \<and> k_ncpus k' = k_ncpus k"
proof (cases "k_rqs k ! i")
  case None
  then show ?thesis using inv by (simp add: pick_on_def queue_at_def)
next
  case (Some rq)
  then have "rq_ok rq" using inv i by (auto simp: rqs_inv_def)
  from rq_ok_pick [OF this] obtain rq' where q:
    "rq_pick_next rq = Some (case rq_view rq of [] \<Rightarrow> None | x # _ \<Rightarrow> Some (snd x), rq')" "rq_ok rq'"
    "\<forall>p. rq_entity p rq' = rq_entity p rq" "rq_view rq' = tl (rq_view rq)" by blast
  let ?k = "k\<lparr>k_rqs := (k_rqs k)[i := Some rq']\<rparr>"
  have "rqs_inv ?k" by (rule rqs_inv_upd_same [OF inv i Some q(2)]) (simp_all add: q(3))
  then show ?thesis
    using at_upd [OF inv i, of ?k rq'] Some q by (simp add: pick_on_def queue_at_def entity_at_def)
qed

lemma busiest_other:
  assumes "busiest_cpu my k = (c, m)" "0 < m"
  shows "c \<noteq> my \<and> c < MAX_CPUS_SCHED"
proof -
  let ?g = "\<lambda>cpu (busiest, max_load).
            if cpu = my then (busiest, max_load)
            else let load = (case k_rqs k ! cpu of None \<Rightarrow> 0 | Some rq \<Rightarrow> rq_nr_running rq) in
              if max_load < load then (cpu, load) else (busiest, max_load)"
  have "snd (fold ?g xs (b, m)) = 0 \<or> fst (fold ?g xs (b, m)) \<noteq> my \<and> fst (fold ?g xs (b, m)) < N"
    if "\<forall>c\<in>set xs. c < N" "m = 0 \<or> b \<noteq> my \<and> b < N" for xs b m N
    using that
  proof (induction xs arbitrary: b m)
    case (Cons c xs)
    obtain b' m' where g: "?g c (b, m) = (b', m')" by fastforce
    have "m' = 0 \<or> b' \<noteq> my \<and> b' < N"
      using g Cons.prems by (auto simp: Let_def split: if_splits)
    then show ?case using Cons.IH [of m' b'] Cons.prems(1) g by simp
  qed auto
  from this [of "[0..<min (k_ncpus k) MAX_CPUS_SCHED]" MAX_CPUS_SCHED 0 0] show ?thesis
    using assms by (auto simp: busiest_cpu_def)
qed

lemma migrate_ok:
  assumes inv: "rqs_inv k" and s: "src < MAX_CPUS_SCHED" and d: "dst < MAX_CPUS_SCHED" and ne: "src \<noteq> dst"
    and nq: "pd \<notin> snd ` set (queue_at src k)" and e: "entity_at src pd k = Some e"
  shows "\<exists>k'. migrate pd src dst k = Some k' \<and> rqs_inv k' \<and> k_procs k' = k_procs k \<and> k_current k' = k_current k \<and>
    (\<forall>q. known q k' \<longrightarrow> known q k) \<and>
    (k_rqs k ! dst \<noteq> None \<longrightarrow> pd \<in> snd ` set (queue_at dst k'))"
proof -
  obtain rq where r: "k_rqs k ! src = Some rq" "rq_entity pd rq = Some e"
    using e by (auto simp: entity_at_def bind_eq_Some_conv)
  have ok: "rq_ok rq" using inv s r by (auto simp: rqs_inv_def)
  have eok: "ent_ok pd e" using ok r by (auto simp: rq_ok_def)
  let ?rq = "rq_remove_entity pd rq" and ?k = "k\<lparr>k_rqs := (k_rqs k)[src := Some (rq_remove_entity pd rq)]\<rparr>"
  have "rq_ok ?rq" using ok nq r(1) by (fastforce simp: rq_ok_def queue_at_def)
  then have inv1: "rqs_inv ?k"
    by (rule rqs_inv_upd_same [OF inv s r(1)]) (auto split: if_splits)
  have kn1: "known q ?k \<Longrightarrow> known q k" for q
    using known_upd [OF inv s, of ?k ?rq q] known_split [OF s, of q k] r(1)
    by (auto simp: entity_at_def split: if_splits)
  have kpd: "known pd k" using s e by (auto simp: known_def)
  have m: "migrate pd src dst k = on_rq dst (\<lambda>rq. rq_enqueue pd (se_prio e) (rq_add_entity e rq)) ?k"
    using r by (simp add: migrate_def on_rq_def)
  show ?thesis
  proof (cases "k_rqs k ! dst")
    case None
    then show ?thesis using m ne inv1 kn1 by (simp add: on_rq_def)
  next
    case (Some rd)
    have unk: "\<not> known pd ?k"
      using known_upd [OF inv s, of ?k ?rq pd] entity_unique [OF inv s, of _ pd] e by auto
    have okd: "rq_ok rd" using inv d Some by (auto simp: rqs_inv_def)
    have nd: "rq_entity pd rd = None" using unk ne Some d by (auto simp: known_def entity_at_def)
    have "rq_ok (rq_add_entity e rd)" using okd nd eok by (fastforce simp: rq_ok_def ent_ok_def)
    then have "\<exists>rq'. rq_enqueue pd (se_prio e) (rq_add_entity e rd) = Some rq' \<and> rq_ok rq' \<and>
      (\<forall>q. rq_entity q rq' = rq_entity q (rq_add_entity e rd)) \<and>
      rq_view rq' = spec_enqueue pd (unat (se_prio e)) (rq_view (rq_add_entity e rd))"
      by (rule rq_ok_enqueue) (use eok in \<open>simp add: ent_ok_def\<close>)
    then obtain rq' where q: "rq_enqueue pd (se_prio e) (rq_add_entity e rd) = Some rq'" "rq_ok rq'"
      "\<forall>q. rq_entity q rq' = (if q = pd then Some e else rq_entity q rd)"
      "rq_view rq' = spec_enqueue pd (unat (se_prio e)) (rq_view rd)"
      using eok by (auto simp: ent_ok_def)
    let ?k2 = "?k\<lparr>k_rqs := (k_rqs ?k)[dst := Some rq']\<rparr>"
    have at: "entity_at dst p ?k = rq_entity p rd" for p using ne Some by (simp add: entity_at_def)
    have "rqs_inv ?k2"
    proof (rule rqs_inv_upd [OF inv1 d q(2)])
      show "entity_at j p ?k = None" if "rq_entity p rq' \<noteq> None" "j < MAX_CPUS_SCHED" "j \<noteq> dst" for p j
        using that q(3) unk entity_unique [OF inv1 d that(2), of p] at
        by (cases "p = pd"; cases "entity_at j p ?k") (auto simp: known_def)
    qed simp
    moreover have "pd \<in> snd ` set (queue_at dst ?k2)"
      using at_upd(2) [OF inv1 d, of ?k2 rq' dst] by (simp add: q(4) set_spec_enqueue)
    moreover have "known p ?k2 \<Longrightarrow> known p k" for p
    proof (cases "p = pd")
      case False
      assume "known p ?k2"
      then have "known p ?k"
        using known_upd [OF inv1 d, of ?k2 rq' p] known_split [OF d, of p ?k] q(3) at False by simp
      then show ?thesis by (rule kn1)
    qed (simp add: kpd)
    ultimately show ?thesis using m ne Some q(1) by (simp add: on_rq_def)
  qed
qed

lemma work_steal_ok:
  assumes inv: "rqs_inv k" and my: "my < MAX_CPUS_SCHED"
  shows "\<exists>n k'. work_steal my k = Some (n, k') \<and> rqs_inv k' \<and> k_procs k' = k_procs k \<and> k_current k' = k_current k \<and>
    (\<forall>q. known q k' \<longrightarrow> known q k) \<and>
    (\<forall>pd. n = Some pd \<and> k_rqs k ! my \<noteq> None \<longrightarrow> pd \<in> snd ` set (queue_at my k'))"
proof -
  obtain c m where b: "busiest_cpu my k = (c, m)" by fastforce
  show ?thesis
  proof (cases "m < 2")
    case True
    then show ?thesis using inv b by (simp add: work_steal_def)
  next
    case False
    then have c: "c \<noteq> my" "c < MAX_CPUS_SCHED" using busiest_other [OF b] by auto
    obtain k1 where p: "pick_on c k = Some (case queue_at c k of [] \<Rightarrow> None | x # _ \<Rightarrow> Some (snd x), k1)"
      "rqs_inv k1" "queue_at c k1 = tl (queue_at c k)" "\<forall>j q. entity_at j q k1 = entity_at j q k"
      "k_procs k1 = k_procs k" "k_current k1 = k_current k"
      using pick_on_ok [OF inv c(2)] by blast
    have kn: "known q k1 = known q k" for q by (simp add: known_def p(4))
    have same: "k_rqs k1 ! my = k_rqs k ! my"
      using p(1) c(1) by (auto simp: pick_on_def split: option.splits)
    show ?thesis
    proof (cases "queue_at c k")
      case Nil
      then show ?thesis using p b False kn by (simp add: work_steal_def)
    next
      case (Cons x xs)
      let ?pd = "snd x"
      obtain e where e: "entity_at c ?pd k = Some e" "unat (se_prio e) = fst x"
        using queue_entity [OF inv c(2), of x] Cons by auto
      have "distinct (queue_at c k)"
        using inv c(2) by (auto simp: queue_at_def rqs_inv_def rq_ok_def split: option.splits intro: rq_view_distinct)
      moreover have "y \<in> set xs \<Longrightarrow> snd y = ?pd \<Longrightarrow> y = x" for y
        using queue_entity [OF inv c(2), of y] Cons e by (cases x; cases y) auto
      ultimately have nq: "?pd \<notin> snd ` set (queue_at c k1)" using Cons p(3) by auto
      obtain k2 where k2: "migrate ?pd c my k1 = Some k2" "rqs_inv k2" "k_procs k2 = k_procs k1"
        "k_current k2 = k_current k1" "\<forall>q. known q k2 \<longrightarrow> known q k1" "k_rqs k1 ! my \<noteq> None \<longrightarrow> ?pd \<in> snd ` set (queue_at my k2)"
        using migrate_ok [OF p(2) c(2) my c(1) nq] p(4) e(1) by auto
      show ?thesis using p(1,5,6) b False Cons k2 same kn by (simp add: work_steal_def)
    qed
  qed
qed

lemma switch_to_frame [simp]:
  "k_rqs (snd (switch_to a b k)) = k_rqs k" "k_current (snd (switch_to a b k)) = b"
  by (simp_all add: switch_to_def with_process_mut_def set_current_def Let_def)

lemma with_process_mut_frame [simp]:
  "k_rqs (with_process_mut pd f k) = k_rqs k" "k_current (with_process_mut pd f k) = k_current k"
  "k_need_resched (with_process_mut pd f k) = k_need_resched k" "k_cpu (with_process_mut pd f k) = k_cpu k"
  "k_ticks (with_process_mut pd f k) = k_ticks k" "k_groups (with_process_mut pd f k) = k_groups k"
  "k_pipes (with_process_mut pd f k) = k_pipes k" "k_pipe_waiters (with_process_mut pd f k) = k_pipe_waiters k"
  "k_ns (with_process_mut pd f k) = k_ns k" "k_next_pid (with_process_mut pd f k) = k_next_pid k"
  by (simp_all add: with_process_mut_def)

lemma get_with_process_mut [simp]:
  "bt_get (k_procs (with_process_mut pd f k)) q =
     (if q = pd then map_option f (bt_get (k_procs k) pd) else bt_get (k_procs k) q)"
  by (simp add: with_process_mut_def bt_simps)

lemma request_reschedule_frame [simp]:
  "k_rqs (request_reschedule k) = k_rqs k" "k_procs (request_reschedule k) = k_procs k"
  "k_current (request_reschedule k) = k_current k" "k_pipes (request_reschedule k) = k_pipes k"
  "k_pipe_waiters (request_reschedule k) = k_pipe_waiters k" "k_groups (request_reschedule k) = k_groups k"
  by (simp_all add: request_reschedule_def)

lemma switch_to_present:
  "bt_get (k_procs k) a \<noteq> None \<Longrightarrow> switch_to a b k = (SwitchTo b, snd (switch_to a b k))"
  by (auto simp: switch_to_def Let_def set_current_def split: if_splits)

lemma known_same: "k_rqs k' = k_rqs k \<Longrightarrow> known pd k' = known pd k"
  by (simp add: known_def entity_at_def)

lemma queued_same: "k_rqs k' = k_rqs k \<Longrightarrow> queued pd k' = queued pd k"
  by (simp add: queued_def queue_at_def)

lemma reset_used_at:
  assumes "rqs_inv k" "i < MAX_CPUS_SCHED"
  shows "queue_at j (reset_used pd i k) = queue_at j k" "known q (reset_used pd i k) = known q k"
proof -
  have at: "queue_at j (reset_used pd i k) = queue_at j k \<and>
    (entity_at j q (reset_used pd i k) = None \<longleftrightarrow> entity_at j q k = None)" for j q
    using assms by (cases "j = i"; cases "k_rqs k ! i")
      (auto simp: reset_used_def queue_at_def entity_at_def rqs_inv_def)
  then show "queue_at j (reset_used pd i k) = queue_at j k" by blast
  show "known q (reset_used pd i k) = known q k" using at by (simp add: known_def)
qed

lemma reset_used_frame [simp]:
  "k_procs (reset_used pd i k) = k_procs k" "k_current (reset_used pd i k) = k_current k"
  by (simp_all add: reset_used_def split: option.splits)

lemma schedule_ok:
  assumes inv: "rqs_inv k"
  shows "\<exists>o' k'. schedule k = Some (o', k') \<and> rqs_inv k' \<and> (\<forall>q. known q k' \<longrightarrow> known q k)"
proof (cases "k_need_resched k")
  case False
  then show ?thesis using inv by (simp add: schedule_def)
next
  case True
  let ?k0 = "k\<lparr>k_need_resched := False\<rparr>" and ?cpu = "this_cpu k" and ?cur = "k_current k"
  let ?good = "\<lambda>k'. rqs_inv k' \<and> (\<forall>q. known q k' \<longrightarrow> known q k)"
  have good0: "?good ?k0" using inv by (subst rqs_inv_same [of _ k]) (simp_all add: known_def entity_at_def)
  obtain k1 where k1: "(if state_of ?cur ?k0 = Some Running then sched_enqueue ?cur ?k0 else Some ?k0) = Some k1" "?good k1"
    using sched_enqueue_ok [of ?k0 ?cur] good0 by (cases "state_of ?cur ?k0 = Some Running") auto
  let ?r = "reset_used ?cur ?cpu k1"
  have r: "rqs_inv ?r" "\<forall>q. known q ?r \<longrightarrow> known q k"
    using reset_used_inv [OF _ this_cpu_bound] reset_used_at(2) [OF _ this_cpu_bound] k1(2) by auto
  from pick_on_ok [OF r(1) this_cpu_bound [of k]] obtain n k2 where
    k2: "pick_on ?cpu ?r = Some (n, k2)" "rqs_inv k2" "\<forall>j p. entity_at j p k2 = entity_at j p ?r" by blast
  then have g2: "?good k2" using r(2) by (simp add: known_def)
  obtain st k3 where k3: "work_steal ?cpu k2 = Some (st, k3)" "?good k3"
    using work_steal_ok [OF k2(2) this_cpu_bound [of k]] g2 by blast
  have sw: "?good (snd (switch_to a b q))" if "?good q" for a b q
    using that by (subst rqs_inv_same [of _ q]) (simp_all add: known_def entity_at_def)
  show ?thesis
  proof (cases n)
    case None
    have "schedule k = (case st of Some to \<Rightarrow> Some (switch_to ?cur to k3)
        | None \<Rightarrow> Some (case state_of ?cur k3 of None \<Rightarrow> (Stay, k3)
            | Some s \<Rightarrow> (if is_blocked s then Idle else Stay, k3)))"
      unfolding schedule_def Let_def using True k1(1) k2(1) k3 None by simp
    moreover have "\<exists>r. (case st of Some to \<Rightarrow> Some (switch_to ?cur to k3)
        | None \<Rightarrow> Some (case state_of ?cur k3 of None \<Rightarrow> (Stay, k3)
            | Some s \<Rightarrow> (if is_blocked s then Idle else Stay, k3))) = Some r \<and> ?good (snd r)"
      using sw [OF k3(2)] k3(2) by (cases st; cases "state_of ?cur k3") simp_all
    ultimately show ?thesis by (metis prod.collapse)
  next
    case (Some to)
    have "\<exists>r. schedule k = Some r \<and> ?good (snd r)"
      unfolding schedule_def Let_def using True k1(1) k2(1) g2 Some sw [OF g2] by simp
    then show ?thesis by (metis prod.collapse)
  qed
qed

lemma wake_process_ok:
  assumes inv: "rqs_inv k"
  shows "\<exists>k'. wake_process pd k = Some k' \<and> rqs_inv k' \<and> (\<forall>q. known q k' = known q k) \<and>
    (\<forall>q. queued q k' \<longleftrightarrow> queued q k \<or> q = pd \<and> known pd k \<and> state_of pd k = Some Sleeping)"
proof (cases "state_of pd k = Some Sleeping")
  case False
  then show ?thesis using inv by (simp add: wake_process_def)
next
  case True
  let ?k = "with_process_mut pd (\<lambda>p. p\<lparr>p_state := Runnable\<rparr>) k"
  have same: "rqs_inv ?k = rqs_inv k" "known q ?k = known q k" "queued q ?k = queued q k" for q
    by (rule rqs_inv_same known_same queued_same; simp)+
  obtain k' where k': "sched_enqueue pd ?k = Some k'" "rqs_inv k'" "\<forall>q. known q k' = known q ?k"
    "\<forall>q. queued q k' \<longleftrightarrow> queued q ?k \<or> q = pd \<and> known pd ?k"
    using sched_enqueue_ok [of ?k pd] inv same by blast
  have "rqs_inv (request_reschedule k') = rqs_inv k'" "known q (request_reschedule k') = known q k'"
    "queued q (request_reschedule k') = queued q k'" for q
    by (rule rqs_inv_same known_same queued_same; simp)+
  then show ?thesis using True k' same by (simp add: wake_process_def)
qed

lemma sched_enqueue_frame:
  assumes "sched_enqueue pd k = Some k'"
  shows "k_procs k' = k_procs k" "k_current k' = k_current k" "k_pipes k' = k_pipes k"
    "k_pipe_waiters k' = k_pipe_waiters k" "k_groups k' = k_groups k" "k_need_resched k' = k_need_resched k"
    "k_next_pid k' = k_next_pid k"
  using assms unfolding sched_enqueue_def by (auto dest: on_rq_frame split: option.splits)

lemma wake_process_procs:
  assumes "wake_process pd k = Some k'"
  shows "bt_get (k_procs k') q = (if q = pd \<and> state_of pd k = Some Sleeping
      then map_option (\<lambda>p. p\<lparr>p_state := Runnable\<rparr>) (bt_get (k_procs k) pd) else bt_get (k_procs k) q)"
    "k_current k' = k_current k" "k_pipes k' = k_pipes k" "k_pipe_waiters k' = k_pipe_waiters k"
    "k_groups k' = k_groups k"
  using assms unfolding wake_process_def
  by (auto dest: sched_enqueue_frame simp: sched_enqueue_frame split: if_splits)

section \<open>Run queues that cannot panic\<close>

text \<open>
  A weaker condition than the full invariant, kept by every operation without
  exception: the queues are well formed and all priorities are below 140.
\<close>

definition rq_safe :: "run_queue \<Rightarrow> bool" where
  "rq_safe rq \<longleftrightarrow> rq_inv rq \<and> (\<forall>pd e. rq_entity pd rq = Some e \<longrightarrow> unat (se_prio e) < NUM_PRIO_LEVELS)"

definition rqs_safe :: "kernel \<Rightarrow> bool" where
  "rqs_safe k \<longleftrightarrow> length (k_rqs k) = MAX_CPUS_SCHED \<and>
     (\<forall>i<MAX_CPUS_SCHED. \<forall>rq. k_rqs k ! i = Some rq \<longrightarrow> rq_safe rq)"

lemma rqs_safe_same: "k_rqs k' = k_rqs k \<Longrightarrow> rqs_safe k' = rqs_safe k"
  by (simp add: rqs_safe_def)

lemma rqs_safe_mut [simp]: "rqs_safe (with_process_mut pd f k) = rqs_safe k"
  "rqs_safe (request_reschedule k) = rqs_safe k" "rqs_safe (k\<lparr>k_need_resched := b\<rparr>) = rqs_safe k"
  "rqs_safe (set_current pd k) = rqs_safe k" "rqs_safe (snd (switch_to a c k)) = rqs_safe k"
  by (rule rqs_safe_same; simp add: set_current_def)+

lemma rqs_inv_safe: "rqs_inv k \<Longrightarrow> rqs_safe k"
  by (auto simp: rqs_inv_def rqs_safe_def rq_safe_def rq_ok_def ent_ok_def)

lemma rqs_safe_upd:
  assumes "rqs_safe k" "rq_safe rq'" "k_rqs k' = (k_rqs k)[i := Some rq']"
  shows "rqs_safe k'"
proof -
  have "rq_safe rq" if "j < MAX_CPUS_SCHED" "k_rqs k' ! j = Some rq" for j rq
    using that assms by (cases "i = j") (auto simp: rqs_safe_def)
  then show ?thesis using assms(1,3) by (simp add: rqs_safe_def)
qed

lemma on_rq_safe:
  assumes k: "rqs_safe k" and i: "i < MAX_CPUS_SCHED"
    and f: "\<And>rq. k_rqs k ! i = Some rq \<Longrightarrow> rq_safe rq \<Longrightarrow> \<exists>rq'. f rq = Some rq' \<and> rq_safe rq'"
  shows "\<exists>k'. on_rq i f k = Some k' \<and> rqs_safe k'"
proof (cases "k_rqs k ! i")
  case None
  then show ?thesis using k by (simp add: on_rq_def)
next
  case (Some rq)
  then have "rq_safe rq" using k i by (simp add: rqs_safe_def)
  then obtain rq' where q: "f rq = Some rq'" "rq_safe rq'" using f Some by blast
  have "rqs_safe (k\<lparr>k_rqs := (k_rqs k)[i := Some rq']\<rparr>)"
    using k i q(2) by (auto simp: rqs_safe_def nth_list_update)
  then show ?thesis using Some q(1) by (simp add: on_rq_def)
qed

lemma rq_safe_enqueue:
  assumes "rq_safe rq" "unat prio < NUM_PRIO_LEVELS"
  shows "\<exists>rq'. rq_enqueue pd prio rq = Some rq' \<and> rq_safe rq'"
  using rq_enqueue_ok [of rq prio pd] assms unfolding rq_safe_def rq_entity_def by metis

lemma rq_safe_dequeue:
  assumes "rq_safe rq" "unat prio < NUM_PRIO_LEVELS"
  shows "\<exists>rq'. rq_dequeue pd prio rq = Some rq' \<and> rq_safe rq'"
  using rq_dequeue_ok [of rq prio pd] assms unfolding rq_safe_def rq_entity_def by metis

lemma rq_safe_entities:
  "rq_safe rq \<Longrightarrow> unat (se_prio e) < NUM_PRIO_LEVELS \<Longrightarrow> rq_safe (rq_add_entity e rq)"
  "rq_safe rq \<Longrightarrow> rq_safe (rq_remove_entity pd rq)"
  "rq_safe rq \<Longrightarrow> (\<And>e. se_prio (f e) = se_prio e) \<Longrightarrow> rq_safe (rq_entity_adjust pd f rq)"
  by (auto simp: rq_safe_def split: if_splits)

lemma find_rq_safe:
  assumes "rqs_safe k" "find_rq pd 0 (k_rqs k) = Some (i, e)"
  shows "i < MAX_CPUS_SCHED" "unat (se_prio e) < NUM_PRIO_LEVELS"
  using find_rq_Some [OF assms(2)] assms(1)
  by (auto simp: rqs_safe_def rq_safe_def bind_eq_Some_conv)

lemma sched_enqueue_safe: "rqs_safe k \<Longrightarrow> \<exists>k'. sched_enqueue pd k = Some k' \<and> rqs_safe k'"
proof (cases "find_rq pd 0 (k_rqs k)")
  case (Some x)
  assume k: "rqs_safe k"
  obtain i e where f: "find_rq pd 0 (k_rqs k) = Some (i, e)" using Some by (cases x) auto
  note s = find_rq_safe [OF k f]
  show ?thesis
    using on_rq_safe [OF k s(1), of "rq_enqueue pd (se_prio e)"] rq_safe_enqueue [OF _ s(2)] f
    by (simp add: sched_enqueue_def)
qed (simp add: sched_enqueue_def)

lemma remove_task_safe: "rqs_safe k \<Longrightarrow> \<exists>k'. remove_task pd k = Some k' \<and> rqs_safe k'"
proof (cases "find_rq pd 0 (k_rqs k)")
  case (Some x)
  assume k: "rqs_safe k"
  obtain i e where f: "find_rq pd 0 (k_rqs k) = Some (i, e)" using Some by (cases x) auto
  note s = find_rq_safe [OF k f]
  show ?thesis
    using on_rq_safe [OF k s(1), of "\<lambda>rq. rq_dequeue pd (se_prio e) (rq_remove_entity pd rq)"]
      rq_safe_dequeue [OF rq_safe_entities(2) s(2)] f
    by (simp add: remove_task_def)
qed (simp add: remove_task_def)

lemma add_task_safe:
  assumes "rqs_safe k" "unat prio < NUM_PRIO_LEVELS"
  shows "\<exists>k'. add_task pd prio policy k = Some k' \<and> rqs_safe k'"
  unfolding add_task_def
  by (rule on_rq_safe [OF assms(1) select_cpu_bound])
    (intro rq_safe_enqueue rq_safe_entities assms(2); simp add: sched_entity_new_def assms(2))

lemma wake_process_safe: "rqs_safe k \<Longrightarrow> \<exists>k'. wake_process pd k = Some k' \<and> rqs_safe k'"
  using sched_enqueue_safe [of "with_process_mut pd (\<lambda>p. p\<lparr>p_state := Runnable\<rparr>) k" pd]
  by (auto simp: wake_process_def)

lemma pick_on_safe:
  assumes k: "rqs_safe k" and i: "i < MAX_CPUS_SCHED"
  shows "\<exists>n k'. pick_on i k = Some (n, k') \<and> rqs_safe k'"
proof (cases "k_rqs k ! i")
  case None
  then show ?thesis using k by (simp add: pick_on_def)
next
  case (Some rq)
  then have s: "rq_safe rq" using k i by (simp add: rqs_safe_def)
  then obtain n rq' where q: "rq_pick_next rq = Some (n, rq')" "rq_inv rq'" "rq_entities rq' = rq_entities rq"
    using rq_pick_next_ok [of rq] by (auto simp: rq_safe_def)
  have "rq_safe rq'" using s q(2,3) by (simp add: rq_safe_def rq_entity_def)
  then have "rqs_safe (k\<lparr>k_rqs := (k_rqs k)[i := Some rq']\<rparr>)"
    using k i by (auto simp: rqs_safe_def nth_list_update)
  then show ?thesis using Some q(1) by (simp add: pick_on_def)
qed

lemma migrate_safe:
  assumes k: "rqs_safe k" and s: "src < MAX_CPUS_SCHED" and d: "dst < MAX_CPUS_SCHED"
  shows "\<exists>k'. migrate pd src dst k = Some k' \<and> rqs_safe k'"
proof (cases "Option.bind (k_rqs k ! src) (rq_entity pd)")
  case None
  then show ?thesis using k by (simp add: migrate_def)
next
  case (Some e)
  then have p: "unat (se_prio e) < NUM_PRIO_LEVELS"
    using k s by (auto simp: rqs_safe_def rq_safe_def bind_eq_Some_conv)
  obtain k1 where k1: "on_rq src (\<lambda>rq. Some (rq_remove_entity pd rq)) k = Some k1" "rqs_safe k1"
    using on_rq_safe [OF k s, of "\<lambda>rq. Some (rq_remove_entity pd rq)"] rq_safe_entities(2) by blast
  have "\<exists>k'. on_rq dst (\<lambda>rq. rq_enqueue pd (se_prio e) (rq_add_entity e rq)) k1 = Some k' \<and> rqs_safe k'"
    by (rule on_rq_safe [OF k1(2) d]) (intro rq_safe_enqueue rq_safe_entities p)
  then show ?thesis using Some k1(1) by (simp add: migrate_def)
qed

lemma work_steal_safe:
  assumes k: "rqs_safe k" and my: "my < MAX_CPUS_SCHED"
  shows "\<exists>n k'. work_steal my k = Some (n, k') \<and> rqs_safe k'"
proof -
  obtain c m where b: "busiest_cpu my k = (c, m)" by fastforce
  show ?thesis
  proof (cases "m < 2")
    case False
    then have c: "c < MAX_CPUS_SCHED" using busiest_other [OF b] by auto
    obtain n k1 where p: "pick_on c k = Some (n, k1)" "rqs_safe k1" using pick_on_safe [OF k c] by blast
    show ?thesis
      using p b False migrate_safe [OF p(2) c my] by (cases n) (auto simp: work_steal_def)
  qed (use k b in \<open>simp add: work_steal_def\<close>)
qed

lemma reset_used_safe: "rqs_safe k \<Longrightarrow> rqs_safe (reset_used pd i k)"
proof (cases "k_rqs k ! i")
  case (Some rq)
  assume k: "rqs_safe k"
  have adj: "rq_safe rq \<Longrightarrow> rq_safe (rq_entity_adjust pd (\<lambda>e. e\<lparr>se_used_us := 0\<rparr>) rq)"
    by (rule rq_safe_entities) simp_all
  show ?thesis
  proof (cases "i < MAX_CPUS_SCHED")
    case True
    then have "rq_safe rq" using k Some by (simp add: rqs_safe_def)
    then show ?thesis by (intro rqs_safe_upd [OF k adj, of _ i]) (simp_all add: reset_used_def Some)
  next
    case False
    then show ?thesis using k Some by (auto simp: reset_used_def rqs_safe_def)
  qed
qed (simp add: reset_used_def)

lemma schedule_safe:
  assumes k: "rqs_safe k"
  shows "\<exists>r k'. schedule k = Some (r, k') \<and> rqs_safe k'"
proof (cases "k_need_resched k")
  case True
  let ?k0 = "k\<lparr>k_need_resched := False\<rparr>" and ?cpu = "this_cpu k" and ?cur = "k_current k"
  have s0: "rqs_safe ?k0" using k by simp
  obtain k1 where k1: "(if state_of ?cur ?k0 = Some Running then sched_enqueue ?cur ?k0 else Some ?k0) = Some k1" "rqs_safe k1"
    using sched_enqueue_safe [OF s0, of ?cur] s0 by (cases "state_of ?cur ?k0 = Some Running") auto
  obtain n k2 where k2: "pick_on ?cpu (reset_used ?cur ?cpu k1) = Some (n, k2)" "rqs_safe k2"
    using pick_on_safe [OF reset_used_safe [OF k1(2)] this_cpu_bound [of k]] by blast
  obtain st k3 where k3: "work_steal ?cpu k2 = Some (st, k3)" "rqs_safe k3"
    using work_steal_safe [OF k2(2) this_cpu_bound [of k]] by blast
  let ?res = "case n of
      Some to \<Rightarrow> (if to \<noteq> ?cur then switch_to ?cur to k2 else (Stay, k2))
    | None \<Rightarrow> (case st of Some to \<Rightarrow> switch_to ?cur to k3
        | None \<Rightarrow> (case state_of ?cur k3 of None \<Rightarrow> (Stay, k3)
            | Some s \<Rightarrow> (if is_blocked s then Idle else Stay, k3)))"
  have "schedule k = Some ?res"
    using True k1(1) k2(1) k3(1) by (cases n; cases st) (simp_all add: schedule_def Let_def)
  then have "schedule k = Some (fst ?res, snd ?res)" by (simp only: prod.collapse)
  moreover have "rqs_safe (snd ?res)"
    using k2(2) k3(2) by (simp split: option.splits)
  ultimately show ?thesis by blast
qed (use k in \<open>simp add: schedule_def\<close>)

lemma set_priority_safe:
  assumes k: "rqs_safe k" and p: "unat prio < NUM_PRIO_LEVELS"
  shows "\<exists>k'. set_priority pd prio k = Some k' \<and> rqs_safe k'"
proof (cases "find_rq pd 0 (k_rqs k)")
  case (Some x)
  obtain i e where f: "find_rq pd 0 (k_rqs k) = Some (i, e)" using Some by (cases x) auto
  note s = find_rq_safe [OF k f]
  have "\<exists>rq'. Option.bind (rq_dequeue pd (se_prio e) (rq_entity_adjust pd (reprio prio) rq)) (rq_enqueue pd prio) = Some rq' \<and>
      rq_safe rq'" if "rq_safe rq" for rq
  proof -
    have "rq_safe (rq_entity_adjust pd (reprio prio) rq)"
      using that p by (auto simp: rq_safe_def reprio_def split: if_splits)
    then obtain rq1 where "rq_dequeue pd (se_prio e) (rq_entity_adjust pd (reprio prio) rq) = Some rq1" "rq_safe rq1"
      using rq_safe_dequeue [OF _ s(2)] by blast
    then show ?thesis using rq_safe_enqueue [OF _ p, of rq1 pd] by simp
  qed
  then show ?thesis
    using on_rq_safe [OF k s(1), of "\<lambda>rq. Option.bind (rq_dequeue pd (se_prio e) (rq_entity_adjust pd (reprio prio) rq))
        (rq_enqueue pd prio)"] f by (simp add: set_priority_def)
qed (use k in \<open>simp add: set_priority_def\<close>)

lemma tick_safe: "rqs_safe k \<Longrightarrow> rqs_safe (tick k)"
proof (cases "k_rqs k ! this_cpu k")
  case (Some rq)
  assume k: "rqs_safe k"
  then have "rq_safe rq" using Some this_cpu_bound [of k] by (simp add: rqs_safe_def)
  then have "rq_safe (rq_entity_adjust (k_current k) charge (rq\<lparr>rq_clock_us := rq_clock_us rq + 1000\<rparr>))"
    by (intro rq_safe_entities(3)) (simp_all add: rq_safe_def charge_def)
  then show ?thesis by (rule rqs_safe_upd [OF k, of _ _ "this_cpu k"]) (simp add: tick_def Some Let_def)
qed (simp add: tick_def)

lemma init_cpu_safe: "rqs_safe k \<Longrightarrow> rqs_safe (init_cpu cpu k)"
proof (cases "unat cpu < MAX_CPUS_SCHED")
  case True
  assume k: "rqs_safe k"
  have "rq_safe (run_queue_new cpu)" using rq_ok_new [of cpu] by (auto simp: rq_ok_def rq_safe_def ent_ok_def)
  then show ?thesis by (rule rqs_safe_upd [OF k, of _ _ "unat cpu"]) (simp add: init_cpu_def True)
qed (simp add: init_cpu_def)

section \<open>Runs of the scheduler\<close>

text \<open>
  The steps that touch the run queues.  Everything else the kernel does leaves them
  alone and is one rule.  Only \<open>add\<close> brings a task in; \<open>add_task\<close> does not look whether the task
  has an entity already, so neither does the step.  Priorities are below 140, as all
  callers pass them.  The steps of \<open>fresh_step\<close> add only tasks that have no entity.
\<close>

inductive task_step :: "kernel \<Rightarrow> kernel \<Rightarrow> bool" where
  tick: "task_step k (tick k)"
| wake: "wake_process pd k = Some k' \<Longrightarrow> task_step k k'"
| sched: "schedule k = Some (r, k') \<Longrightarrow> task_step k k'"
| prio: "unat prio < NUM_PRIO_LEVELS \<Longrightarrow> set_priority pd prio k = Some k' \<Longrightarrow> task_step k k'"
| remove: "remove_task pd k = Some k' \<Longrightarrow> task_step k k'"
| other: "k_rqs k' = k_rqs k \<Longrightarrow> task_step k k'"

inductive sched_step :: "kernel \<Rightarrow> kernel \<Rightarrow> bool" where
  task: "task_step k k' \<Longrightarrow> sched_step k k'"
| add: "unat prio < NUM_PRIO_LEVELS \<Longrightarrow> add_task pd prio policy k = Some k' \<Longrightarrow> sched_step k k'"
| cpu: "sched_step k (init_cpu cpu k)"

inductive fresh_step :: "kernel \<Rightarrow> kernel \<Rightarrow> bool" where
  task: "task_step k k' \<Longrightarrow> fresh_step k k'"
| add: "\<not> known pd k \<Longrightarrow> unat prio < NUM_PRIO_LEVELS \<Longrightarrow> add_task pd prio policy k = Some k' \<Longrightarrow> fresh_step k k'"
| cpu: "fresh_step k (init_cpu cpu k)"

definition kernel_boot :: "nat \<Rightarrow> kernel" where
  "kernel_boot ncpus = \<lparr>k_procs = [], k_next_pid = 1, k_current = 0, k_groups = [],
     k_rqs = replicate MAX_CPUS_SCHED None, k_need_resched = False, k_cpu = 0, k_ncpus = ncpus, k_ticks = 0,
     k_ns = ns_boot, k_pipes = [], k_pipe_waiters = [], k_pipe_ino = 0x80000000, k_user_writes = [], k_futex = []\<rparr>"

lemma tick_known: "rqs_inv k \<Longrightarrow> known q (tick k) = known q k"
proof -
  assume inv: "rqs_inv k"
  have "entity_at j q (tick k) = None \<longleftrightarrow> entity_at j q k = None" for j
    using inv this_cpu_bound [of k] by (cases "j = this_cpu k"; cases "k_rqs k ! this_cpu k")
      (auto simp: tick_def entity_at_def rqs_inv_def Let_def)
  then show ?thesis by (simp add: known_def)
qed

lemma task_step_ok:
  assumes "task_step k k'" "rqs_inv k"
  shows "rqs_inv k' \<and> (\<forall>q. known q k' \<longrightarrow> known q k)"
  using assms
proof (cases rule: task_step.cases)
  case tick
  then show ?thesis using assms(2) tick_inv tick_known by auto
next
  case (wake pd)
  then show ?thesis using wake_process_ok [OF assms(2), of pd] by auto
next
  case (sched r)
  then show ?thesis using schedule_ok [OF assms(2)] by auto
next
  case (prio prio pd)
  then show ?thesis using set_priority_ok [OF assms(2), of prio pd] by auto
next
  case (remove pd)
  then show ?thesis using remove_task_ok [OF assms(2), of pd] by auto
next
  case other
  then show ?thesis using assms(2) rqs_inv_same [OF other] known_same [OF other] by simp
qed

lemma init_cpu_inv:
  assumes inv: "rqs_inv k"
  shows "rqs_inv (init_cpu cpu k)"
proof (cases "unat cpu < MAX_CPUS_SCHED")
  case True
  show ?thesis
    by (rule rqs_inv_upd [OF inv True rq_ok_new [of cpu]])
      (auto simp: init_cpu_def True rq_entity_def run_queue_new_def)
qed (use inv in \<open>simp add: init_cpu_def\<close>)

lemma sched_init_inv: "rqs_inv (sched_init (kernel_boot n))"
proof -
  have b: "rqs_inv (kernel_boot n)" by (simp add: rqs_inv_def kernel_boot_def entity_at_def)
  have "sched_init (kernel_boot n) = init_cpu 0 (kernel_boot n)"
    by (simp add: sched_init_def init_cpu_def MAX_CPUS_SCHED_def)
  then show ?thesis using init_cpu_inv [OF b] by simp
qed

lemma fresh_step_inv:
  assumes "fresh_step k k'" "rqs_inv k"
  shows "rqs_inv k'"
  using assms
proof (cases rule: fresh_step.cases)
  case (add pd prio policy)
  then show ?thesis
    using add_task_ok [OF assms(2), of pd prio policy] assms(2)
    by (cases "k_rqs k ! select_cpu_for_new_task k") (auto simp: add_task_def on_rq_def)
qed (use assms task_step_ok init_cpu_inv in blast)+

lemma task_step_safe:
  assumes "task_step k k'" "rqs_safe k"
  shows "rqs_safe k'"
  using assms
proof (cases rule: task_step.cases)
  case tick
  then show ?thesis using assms(2) tick_safe by auto
next
  case (wake pd)
  then show ?thesis using wake_process_safe [OF assms(2), of pd] by auto
next
  case (sched r)
  then show ?thesis using schedule_safe [OF assms(2)] by auto
next
  case (prio prio pd)
  then show ?thesis using set_priority_safe [OF assms(2), of prio pd] by auto
next
  case (remove pd)
  then show ?thesis using remove_task_safe [OF assms(2), of pd] by auto
next
  case other
  then show ?thesis using assms(2) rqs_safe_same [OF other] by simp
qed

lemma sched_step_safe:
  assumes "sched_step k k'" "rqs_safe k"
  shows "rqs_safe k'"
  using assms
proof (cases rule: sched_step.cases)
  case (add prio pd policy)
  then show ?thesis using add_task_safe [OF assms(2), of prio pd policy] by auto
qed (use assms task_step_safe init_cpu_safe in blast)+

lemma sched_enqueue_at:
  assumes inv: "rqs_inv k" and i: "i < MAX_CPUS_SCHED" and e: "entity_at i pd k = Some e"
  shows "\<exists>k'. sched_enqueue pd k = Some k' \<and> rqs_inv k' \<and>
    queue_at i k' = spec_enqueue pd (unat (se_prio e)) (queue_at i k)"
proof -
  have "known pd k" using i e by (auto simp: known_def)
  then obtain j rq d where f: "find_rq pd 0 (k_rqs k) = Some (j, d)" and
    r: "j < MAX_CPUS_SCHED" "k_rqs k ! j = Some rq" "rq_entity pd rq = Some d" "rq_ok rq"
    by (rule known_entity [OF inv])
  have "j = i" using entity_unique [OF inv r(1) i, of pd] r(2,3) e by (simp add: entity_at_def)
  then have d: "d = e" using e r(2,3) by (simp add: entity_at_def)
  obtain rq' where q: "rq_enqueue pd (se_prio e) rq = Some rq'" "rq_ok rq'"
    "\<forall>p. rq_entity p rq' = rq_entity p rq" "rq_view rq' = spec_enqueue pd (unat (se_prio e)) (rq_view rq)"
    using rq_ok_enqueue [OF r(4,3)] d by blast
  let ?k = "k\<lparr>k_rqs := (k_rqs k)[i := Some rq']\<rparr>"
  have "rqs_inv ?k"
    by (rule rqs_inv_upd_same [OF inv i r(2) [unfolded \<open>j = i\<close>] q(2)]) (simp_all add: q(3))
  moreover have "queue_at i ?k = spec_enqueue pd (unat (se_prio e)) (queue_at i k)"
    using at_upd(2) [OF inv i, of ?k rq'] r(2) \<open>j = i\<close> q(4) by (simp add: queue_at_def)
  ultimately show ?thesis using f r(2) \<open>j = i\<close> d q(1) by (simp add: sched_enqueue_def on_rq_def)
qed

lemma spec_enqueue_sorted:
  assumes "sorted (map fst v)"
  shows "sorted (map fst (spec_enqueue pd p v))"
proof (cases "(p, pd) \<in> set v")
  case False
  let ?P = "\<lambda>x. fst x \<le> p"
  have v: "sorted (map fst (takeWhile ?P v @ dropWhile ?P v))" using assms by simp
  have "\<forall>x\<in>set (dropWhile ?P v). p \<le> fst x"
  proof
    fix x assume x: "x \<in> set (dropWhile ?P v)"
    then obtain y ys where d: "dropWhile ?P v = y # ys" by (cases "dropWhile ?P v") auto
    then have "p < fst y" using hd_dropWhile [of ?P v] by simp
    moreover have "fst y \<le> fst x" using v x d by (auto simp: sorted_append)
    ultimately show "p \<le> fst x" by simp
  qed
  moreover have "\<forall>x\<in>set (takeWhile ?P v). fst x \<le> p" by (auto dest: set_takeWhileD)
  moreover have "sorted (map fst (takeWhile ?P v))" "sorted (map fst (dropWhile ?P v))"
    using v unfolding map_append sorted_append by blast+
  ultimately show ?thesis using False by (fastforce simp: spec_enqueue_def sorted_append)
qed (use assms in \<open>simp add: spec_enqueue_def\<close>)

lemma queue_at_sorted: "sorted (map fst (queue_at i k))"
  by (simp add: queue_at_def rq_view_sorted split: option.splits)

section \<open>Properties\<close>

text \<open>C8. Consistency of the run queues.  However tasks are added, removed, woken,
  rescheduled, stolen and given other priorities (priorities below 140), and whichever CPUs are brought up, in
  every state reached from boot the queues of all CPUs are well formed and every
  scheduling entity has a priority below 140; so scheduling, waking, removing, adding and
  reprioritising a task (with a priority below 140) never panic.  If moreover no task is
  added while it still has an entity, then every queued task has its entity on the same
  CPU with the priority it is queued at, and no task has an entity on two CPUs.
  (\<open>add_task\<close> does not check that condition, and the default action of SIGCONT can break it.)\<close>

theorem sched_invariant:
  assumes "sched_step\<^sup>*\<^sup>* (sched_init (kernel_boot n)) k" "unat prio < NUM_PRIO_LEVELS"
  shows "rqs_safe k \<and> schedule k \<noteq> None \<and> wake_process pd k \<noteq> None \<and> remove_task pd k \<noteq> None \<and>
    add_task pd prio policy k \<noteq> None \<and> set_priority pd prio k \<noteq> None \<and>
    (fresh_step\<^sup>*\<^sup>* (sched_init (kernel_boot n)) k \<longrightarrow> rqs_inv k)"
proof -
  have safe: "rqs_safe k"
    using assms(1) by (induction rule: rtranclp_induct) (auto intro: rqs_inv_safe sched_init_inv sched_step_safe)
  have "rqs_inv k" if "fresh_step\<^sup>*\<^sup>* (sched_init (kernel_boot n)) k"
    using that by (induction rule: rtranclp_induct) (auto intro: sched_init_inv fresh_step_inv)
  then show ?thesis
    using safe schedule_safe [OF safe] wake_process_safe [OF safe, of pd] remove_task_safe [OF safe, of pd]
      add_task_safe [OF safe assms(2), of pd policy] set_priority_safe [OF safe assms(2), of pd] by auto
qed

theorem sched_invariant_witness:
  "\<exists>k. add_task 1 120 SCHED_NORMAL (sched_init (kernel_boot 1)) = Some k \<and> queued 1 k \<and> schedule k \<noteq> None \<and> rqs_inv k"
proof -
  let ?k = "sched_init (kernel_boot 1)"
  have r: "k_rqs ?k = (replicate 64 None)[0 := Some (run_queue_new 0)]"
    by (simp add: sched_init_def kernel_boot_def MAX_CPUS_SCHED_def)
  have new: "\<not> known 1 ?k"
    unfolding known_def entity_at_def r
    by (auto simp: MAX_CPUS_SCHED_def nth_list_update rq_entity_def run_queue_new_def)
  have p: "unat (120 :: u8) < NUM_PRIO_LEVELS" by (simp add: NUM_PRIO_LEVELS_def)
  have on: "k_rqs ?k ! select_cpu_for_new_task ?k \<noteq> None"
    by (rule select_cpu_online) (simp add: sched_init_def kernel_boot_def MAX_CPUS_SCHED_def)
  obtain k where k: "add_task 1 120 SCHED_NORMAL ?k = Some k" "queued 1 k"
    using add_task_ok [OF sched_init_inv new p on] by blast
  have "sched_step\<^sup>*\<^sup>* ?k k" "fresh_step\<^sup>*\<^sup>* ?k k"
    using sched_step.add [OF p k(1)] fresh_step.add [OF new p k(1)] by blast+
  then have "schedule k \<noteq> None" "rqs_inv k" using sched_invariant [of 1 k 120 1 0] p by auto
  then show ?thesis using k by blast
qed

lemma schedule_head:
  assumes inv: "rqs_inv k" and need: "k_need_resched k"
    and run: "state_of (k_current k) k = Some Running"
    and e: "entity_at (this_cpu k) (k_current k) k = Some e"
    and v: "v = spec_enqueue (k_current k) (unat (se_prio e)) (queue_at (this_cpu k) k)"
  obtains x xs k2 where "v = x # xs" "\<forall>y\<in>set v. fst x \<le> fst y" "queue_at (this_cpu k) k2 = xs" "k_procs k2 = k_procs k"
    "k_current k2 = k_current k"
    "schedule k = Some (if snd x \<noteq> k_current k then switch_to (k_current k) (snd x) k2 else (Stay, k2))"
proof -
  let ?k0 = "k\<lparr>k_need_resched := False\<rparr>" and ?cpu = "this_cpu k" and ?cur = "k_current k"
  have inv0: "rqs_inv ?k0" using inv by (subst rqs_inv_same [of _ k]) simp_all
  have e0: "entity_at ?cpu ?cur ?k0 = Some e" using e by (simp add: entity_at_def)
  obtain k1 where k1: "sched_enqueue ?cur ?k0 = Some k1" "rqs_inv k1" "queue_at ?cpu k1 = v"
    using sched_enqueue_at [OF inv0 this_cpu_bound e0] v by (auto simp: queue_at_def)
  note fr = sched_enqueue_frame [OF k1(1)]
  let ?r = "reset_used ?cur ?cpu k1"
  have "(unat (se_prio e), ?cur) \<in> set v" by (simp add: v set_spec_enqueue)
  then obtain x xs where x: "v = x # xs" by (cases v) auto
  have srt: "\<forall>y\<in>set v. fst x \<le> fst y"
    using spec_enqueue_sorted [OF queue_at_sorted, of ?cur "unat (se_prio e)" ?cpu k] x v by auto
  have "rqs_inv ?r" by (rule reset_used_inv [OF k1(2) this_cpu_bound])
  moreover have "queue_at ?cpu ?r = v" by (simp add: reset_used_at(1) [OF k1(2) this_cpu_bound] k1(3))
  ultimately obtain k2 where k2: "pick_on ?cpu ?r = Some (Some (snd x), k2)" "queue_at ?cpu k2 = xs"
    "k_procs k2 = k_procs k" "k_current k2 = ?cur"
    using pick_on_ok [of ?r ?cpu] this_cpu_bound x fr(1,2) by auto
  have st: "state_of ?cur ?k0 = Some Running" using run by (simp add: state_of_def with_process_def)
  have sch: "schedule k = Some (if snd x \<noteq> ?cur then switch_to ?cur (snd x) k2 else (Stay, k2))"
    unfolding schedule_def Let_def using need st k1(1) k2(1) by simp
  show thesis using that [OF x srt k2(2,3,4) sch] .
qed

text \<open>C9. The scheduler picks the best task.  When a running task is rescheduled it goes
  behind the tasks of its own priority and the task switched to is the first of the
  resulting list: no queued task of this CPU has a better priority, and among equals
  the longest waiting one is taken (round robin).\<close>

theorem schedule_picks_best:
  assumes inv: "rqs_inv k" and need: "k_need_resched k"
    and run: "state_of (k_current k) k = Some Running"
    and e: "entity_at (this_cpu k) (k_current k) k = Some e"
    and v: "v = spec_enqueue (k_current k) (unat (se_prio e)) (queue_at (this_cpu k) k)"
  shows "\<exists>k'. schedule k = Some (if snd (hd v) = k_current k then Stay else SwitchTo (snd (hd v)), k') \<and>
    k_current k' = snd (hd v) \<and> queue_at (this_cpu k) k' = tl v \<and> (\<forall>x\<in>set v. fst (hd v) \<le> fst x)"
proof -
  let ?cpu = "this_cpu k" and ?cur = "k_current k"
  obtain x xs k2 where x: "v = x # xs" "\<forall>y\<in>set v. fst x \<le> fst y" and
    k2: "queue_at ?cpu k2 = xs" "k_procs k2 = k_procs k" "k_current k2 = ?cur" and
    sch: "schedule k = Some (if snd x \<noteq> ?cur then switch_to ?cur (snd x) k2 else (Stay, k2))"
    by (rule schedule_head [OF assms])
  obtain b where b: "switch_to ?cur (snd x) k2 = (SwitchTo (snd x), b)" "k_current b = snd x" "k_rqs b = k_rqs k2"
    using run k2(2) switch_to_present [of k2 ?cur "snd x"] that [of "snd (switch_to ?cur (snd x) k2)"]
    by (auto simp: state_of_def with_process_def)
  have "queue_at ?cpu b = xs" using k2(1) b(3) by (simp add: queue_at_def)
  then show ?thesis using sch x k2 b by auto
qed

lemma one_task_kernel:
  obtains k e where "rqs_inv k" "k_need_resched k" "k_current k = 1" "this_cpu k < MAX_CPUS_SCHED"
    "bt_get (k_procs k) 1 = Some ((process_new_kernel 1 0 0 0)\<lparr>p_state := Running\<rparr>)"
    "entity_at (this_cpu k) 1 k = Some e"
proof -
  let ?k = "sched_init (kernel_boot 1)"
  have new: "\<not> known 1 ?k"
    unfolding known_def entity_at_def
    by (auto simp: sched_init_def kernel_boot_def MAX_CPUS_SCHED_def nth_list_update rq_entity_def run_queue_new_def)
  have p: "unat (120 :: u8) < NUM_PRIO_LEVELS" by (simp add: NUM_PRIO_LEVELS_def)
  have on: "k_rqs ?k ! select_cpu_for_new_task ?k \<noteq> None"
    by (rule select_cpu_online) (simp add: sched_init_def kernel_boot_def MAX_CPUS_SCHED_def)
  obtain k where k: "rqs_inv k" "known 1 k"
    using add_task_ok [OF sched_init_inv new p on] by blast
  then obtain i e where i: "i < MAX_CPUS_SCHED" "entity_at i 1 k = Some e" by (auto simp: known_def)
  let ?k' = "k\<lparr>k_cpu := i, k_current := 1, k_need_resched := True,
    k_procs := [(1, (process_new_kernel 1 0 0 0)\<lparr>p_state := Running\<rparr>)]\<rparr>"
  have "rqs_inv ?k'" using k(1) by (subst rqs_inv_same [of _ k]) simp_all
  moreover have "this_cpu ?k' = i" using i(1) by (simp add: this_cpu_def MAX_CPUS_SCHED_def)
  ultimately show ?thesis using that [of ?k' e] i by (simp add: entity_at_def bt_get_def)
qed

theorem schedule_picks_best_witness:
  "\<exists>k k'. k_current k = 1 \<and> schedule k = Some (Stay, k') \<and> k_current k' = 1 \<or>
          (\<exists>q. schedule k = Some (SwitchTo q, k'))"
proof -
  obtain k e where k: "rqs_inv k" "k_need_resched k" "k_current k = 1"
    "bt_get (k_procs k) 1 = Some ((process_new_kernel 1 0 0 0)\<lparr>p_state := Running\<rparr>)"
    "entity_at (this_cpu k) 1 k = Some e" by (rule one_task_kernel)
  have "state_of (k_current k) k = Some Running" using k by (simp add: state_of_def with_process_def)
  from schedule_picks_best [OF k(1,2) this, of e] k(3,5) show ?thesis by (auto split: if_splits)
qed

text \<open>C10. Waking is never lost for a task the scheduler knows.  If a sleeping task still has its
  scheduling entity, waking it makes it runnable, puts it in a run queue and asks for
  a reschedule; waking a task in any other state changes nothing.\<close>

theorem wake_process_queues:
  assumes "rqs_inv k" "wake_process pd k = Some k'"
  shows "(state_of pd k = Some Sleeping \<and> known pd k \<longrightarrow>
            state_of pd k' = Some Runnable \<and> queued pd k' \<and> k_need_resched k') \<and>
         (state_of pd k \<noteq> Some Sleeping \<longrightarrow> k' = k)"
proof -
  have "state_of pd k' = Some Runnable \<and> queued pd k' \<and> k_need_resched k'"
    if s: "state_of pd k = Some Sleeping" "known pd k"
  proof -
    have "queued pd k'" using s wake_process_ok [OF assms(1), of pd] assms(2) by auto
    moreover have "state_of pd k' = Some Runnable"
      using s wake_process_procs(1) [OF assms(2), of pd] by (auto simp: state_of_def with_process_def)
    moreover have "k_need_resched k'" using assms(2) s by (auto simp: wake_process_def request_reschedule_def)
    ultimately show ?thesis by blast
  qed
  moreover have "state_of pd k \<noteq> Some Sleeping \<Longrightarrow> k' = k" using assms(2) by (simp add: wake_process_def)
  ultimately show ?thesis by blast
qed

theorem wake_process_queues_witness:
  "\<exists>k k'. state_of 1 k = Some Sleeping \<and> wake_process 1 k = Some k' \<and> queued 1 k'"
proof -
  obtain k e where k: "rqs_inv k" "this_cpu k < MAX_CPUS_SCHED"
    "bt_get (k_procs k) 1 = Some ((process_new_kernel 1 0 0 0)\<lparr>p_state := Running\<rparr>)"
    "entity_at (this_cpu k) 1 k = Some e" by (rule one_task_kernel)
  let ?k = "with_process_mut 1 (\<lambda>p. p\<lparr>p_state := Sleeping\<rparr>) k"
  have inv: "rqs_inv ?k" using k(1) by (subst rqs_inv_same [of _ k]) simp_all
  have "state_of 1 ?k = Some Sleeping" using k(3) by (simp add: state_of_def with_process_def)
  moreover have "known 1 ?k" using k(2,4) by (auto simp: known_def entity_at_def)
  moreover obtain k' where "wake_process 1 ?k = Some k'" using wake_process_ok [OF inv] by blast
  ultimately show ?thesis using wake_process_queues [OF inv, of 1 k'] by blast
qed

text \<open>C11. A task that sleeps on the clock is lost.  \<open>sleep_ms\<close> removes the caller from the
  scheduler together with its entity, although the timer later wakes it with
  \<open>wake_process\<close>, which only finds tasks that still have an entity.  Whatever the kernel
  does afterwards, short of adding the task anew, the caller is never in a run queue
  again, so it is never scheduled.\<close>

theorem sleep_ms_loses_task:
  assumes "rqs_inv k" "ms \<noteq> 0" "sleep_ms ms k = Some (r, k1)" "task_step\<^sup>*\<^sup>* k1 k2"
  shows "\<not> queued (k_current k) k2"
proof -
  let ?pd = "k_current k"
  let ?k0 = "with_process_mut ?pd (\<lambda>p. p\<lparr>p_sleep_until := k_ticks k + ms, p_state := Sleeping\<rparr>) k"
  have inv0: "rqs_inv ?k0" using assms(1) by (subst rqs_inv_same [of _ k]) simp_all
  obtain k' where k': "remove_task ?pd ?k0 = Some k'" "rqs_inv k'" "\<not> known ?pd k'"
    using remove_task_ok [OF inv0, of ?pd] by auto
  have inv': "rqs_inv (request_reschedule k')" using k'(2) by (subst rqs_inv_same [of _ k']) simp_all
  have "schedule (request_reschedule k') = Some (r, k1)" using assms(2,3) k'(1) by (simp add: sleep_ms_def Let_def)
  then have "rqs_inv k1 \<and> \<not> known ?pd k1"
    using schedule_ok [OF inv'] k'(3) known_same [of "request_reschedule k'" k' ?pd] by auto
  with assms(4) have "rqs_inv k2 \<and> \<not> known ?pd k2"
    by (induction rule: rtranclp_induct) (auto dest: task_step_ok)
  then show ?thesis using queued_known by blast
qed

theorem sleep_ms_loses_task_witness:
  "\<exists>k r k1 k2. state_of 1 k = Some Running \<and> k_current k = 1 \<and> sleep_ms 10 k = Some (r, k1) \<and>
     wake_process 1 k1 = Some k2 \<and> \<not> queued 1 k2"
proof -
  obtain k e where k: "rqs_inv k" "k_current k = 1"
    "bt_get (k_procs k) 1 = Some ((process_new_kernel 1 0 0 0)\<lparr>p_state := Running\<rparr>)" by (rule one_task_kernel)
  let ?k0 = "with_process_mut 1 (\<lambda>p. p\<lparr>p_sleep_until := k_ticks k + 10, p_state := Sleeping\<rparr>) k"
  have inv0: "rqs_inv ?k0" using k(1) by (subst rqs_inv_same [of _ k]) simp_all
  obtain k' where k': "remove_task 1 ?k0 = Some k'" "rqs_inv k'" using remove_task_ok [OF inv0] by blast
  have inv': "rqs_inv (request_reschedule k')" using k'(2) by (subst rqs_inv_same [of _ k']) simp_all
  obtain r k1 where k1: "schedule (request_reschedule k') = Some (r, k1)" "rqs_inv k1"
    using schedule_ok [OF inv'] by blast
  have sl: "sleep_ms 10 k = Some (r, k1)" using k(2) k'(1) k1(1) by (simp add: sleep_ms_def Let_def)
  obtain k2 where k2: "wake_process 1 k1 = Some k2" using wake_process_ok [OF k1(2)] by blast
  have "task_step k1 k2" using k2 by (rule task_step.wake)
  then have "\<not> queued 1 k2" using sleep_ms_loses_task [OF k(1) _ sl, of k2] k(2) by auto
  moreover have "state_of 1 k = Some Running" using k(3) by (simp add: state_of_def with_process_def)
  ultimately show ?thesis using k(2) sl k2 by blast
qed

end
