(* ===== verification/Signals.thy ===== *)
theory Signals
  imports Scheduler
begin

text \<open>
  Signals of signal/mod.rs: sending, default dispositions, dispatch from the timer
  interrupt, and the delivery at the end of a system call.  The user signal frame is
  built by page-table code that is not modelled; whether it can be built, and at which
  stack address, is an argument of the delivery.
\<close>

section \<open>Sending\<close>

abbreviation SIGKILL :: u32 where "SIGKILL \<equiv> 9"
abbreviation SIGPIPE :: u32 where "SIGPIPE \<equiv> 13"
abbreviation SIGCHLD :: u32 where "SIGCHLD \<equiv> 17"
abbreviation SIGCONT :: u32 where "SIGCONT \<equiv> 18"
abbreviation SIGSTOP :: u32 where "SIGSTOP \<equiv> 19"
abbreviation SIGTSTP :: u32 where "SIGTSTP \<equiv> 20"
abbreviation SIGTTIN :: u32 where "SIGTTIN \<equiv> 21"
abbreviation SIGTTOU :: u32 where "SIGTTOU \<equiv> 22"
abbreviation SIGURG :: u32 where "SIGURG \<equiv> 23"
abbreviation SIGWINCH :: u32 where "SIGWINCH \<equiv> 28"

definition post_signal :: "u32 \<Rightarrow> process \<Rightarrow> process" where
  "post_signal sig p =
     (let blocked = (sig \<noteq> SIGKILL \<and> sig \<noteq> SIGSTOP \<and> sig_has sig (p_sig_mask p));
          p1 = (if blocked then p else p\<lparr>p_sig_pending := sig_add sig (p_sig_pending p)\<rparr>) in
      if sig = SIGKILL then p1\<lparr>p_state := Zombie (-1)\<rparr>
      else if sig = SIGSTOP then p1\<lparr>p_state := Stopped\<rparr>
      else p1)"

definition may_signal :: "pid \<Rightarrow> kernel \<Rightarrow> bool" where
  "may_signal pd k =
     (k_current k = 0 \<or>
      check_kill_permission (with_process (k_current k) (\<lambda>p. n_pid_ns (p_namespaces p)) k) pd (k_ns k))"

definition send_signal :: "pid \<Rightarrow> u32 \<Rightarrow> kernel \<Rightarrow> kernel" where
  "send_signal pd sig k =
     (if sig = 0 \<or> NSIG \<le> unat sig then k
      else if \<not> may_signal pd k then k
      else with_process_mut pd (post_signal sig) k)"

definition send_signal_group :: "u32 \<Rightarrow> u32 \<Rightarrow> kernel \<Rightarrow> kernel" where
  "send_signal_group pgid sig k =
     fold (\<lambda>pd k. if with_process pd (\<lambda>p. p_pgid p = pgid) k = Some True then send_signal pd sig k else k)
       (all_pids k) k"

definition kill_current :: "u32 \<Rightarrow> kernel \<Rightarrow> kernel" where
  "kill_current sig k = send_signal (k_current k) sig k"

section \<open>Default dispositions\<close>

datatype disposition = DispIgnore | DispStop | DispCont | DispTerminate

definition disposition_of :: "u32 \<Rightarrow> disposition" where
  "disposition_of sig =
     (if sig \<in> {SIGCHLD, SIGWINCH, SIGURG} then DispIgnore
      else if sig \<in> {SIGSTOP, SIGTSTP, SIGTTIN, SIGTTOU} then DispStop
      else if sig = SIGCONT then DispCont else DispTerminate)"

definition apply_cont :: "pid \<Rightarrow> kernel \<Rightarrow> kernel option" where
  "apply_cont pd k =
     (let was_stopped = (state_of pd k = Some Stopped);
          k1 = with_process_mut pd (\<lambda>p. if p_state p = Stopped then p\<lparr>p_state := Runnable\<rparr> else p) k in
      if was_stopped then add_task pd PRIO_NORMAL SCHED_NORMAL k1 else wake_process pd k1)"

definition apply_terminate :: "pid \<Rightarrow> u32 \<Rightarrow> kernel \<Rightarrow> (outcome \<times> kernel) option" where
  "apply_terminate pd sig k =
     (let code = - sig;
          ppid = unwrap_or (with_process pd p_ppid k) 0;
          k1 = with_process_mut pd (\<lambda>p. p\<lparr>p_state := Zombie code, p_exit_code := code\<rparr>) k in do {
        k2 \<leftarrow> remove_task pd k1;
        k3 \<leftarrow> (if ppid \<noteq> 0 then wake_process ppid (send_signal ppid SIGCHLD k2) else Some k2);
        if pd = k_current k3 then schedule_next_from_irq k3 else Some (Stay, k3)
      })"

definition apply_default :: "pid \<Rightarrow> u32 \<Rightarrow> kernel \<Rightarrow> (outcome \<times> kernel) option" where
  "apply_default pd sig k =
     (case disposition_of sig of
        DispIgnore \<Rightarrow> Some (Stay, k)
      | DispStop \<Rightarrow> map_option (Pair Stay) (remove_task pd (with_process_mut pd (\<lambda>p. p\<lparr>p_state := Stopped\<rparr>) k))
      | DispCont \<Rightarrow> map_option (Pair Stay) (apply_cont pd k)
      | DispTerminate \<Rightarrow> apply_terminate pd sig k)"

section \<open>Dispatch\<close>

definition action_of :: "pid \<Rightarrow> u32 \<Rightarrow> kernel \<Rightarrow> sig_action" where
  "action_of pd sig k =
     (case bt_get (k_procs k) pd of
        None \<Rightarrow> sig_action_default
      | Some p \<Rightarrow> if unat sig < NSIG then p_sig_actions p ! unat sig else sig_action_default)"

definition deliver :: "pid \<Rightarrow> u32 \<Rightarrow> kernel \<Rightarrow> (outcome \<times> kernel) option" where
  "deliver pd sig k =
     (case sa_handler (action_of pd sig k) of
        SigIgnore \<Rightarrow> Some (Stay, k)
      | SigUser _ \<Rightarrow> Some (Stay, k)
      | SigDefault \<Rightarrow> apply_default pd sig k)"

definition pending_unmasked :: "pid \<Rightarrow> kernel \<Rightarrow> signal_set" where
  "pending_unmasked pd k =
     (case bt_get (k_procs k) pd of None \<Rightarrow> 0 | Some p \<Rightarrow> sig_and_not (p_sig_pending p) (p_sig_mask p))"

definition take_pending :: "pid \<Rightarrow> u32 \<Rightarrow> kernel \<Rightarrow> kernel" where
  "take_pending pd sig k = with_process_mut pd (\<lambda>p. p\<lparr>p_sig_pending := sig_remove sig (p_sig_pending p)\<rparr>) k"

definition is_user :: "sig_handler \<Rightarrow> bool" where
  "is_user h = (case h of SigUser _ \<Rightarrow> True | _ \<Rightarrow> False)"

partial_function (option) dispatch_loop ::
    "bool \<Rightarrow> signal_set \<Rightarrow> pid \<Rightarrow> kernel \<Rightarrow> (outcome \<times> kernel) option" where
  "dispatch_loop from_irq irq_skip pd k =
     (let pending = pending_unmasked pd k;
          deliverable = (if from_irq then sig_and_not pending irq_skip else pending) in
      case next_pending deliverable of
        None \<Rightarrow> Some (Stay, k)
      | Some sig \<Rightarrow>
          if from_irq \<and> is_user (sa_handler (action_of pd sig k))
          then dispatch_loop from_irq (sig_add sig irq_skip) pd k
          else Option.bind (deliver pd sig (take_pending pd sig k))
            (\<lambda>(r, k'). if r = Stay then dispatch_loop from_irq irq_skip pd k' else Some (r, k')))"

definition dispatch_pending :: "pid \<Rightarrow> kernel \<Rightarrow> (outcome \<times> kernel) option" where
  "dispatch_pending pd k = dispatch_loop False 0 pd k"

definition dispatch_pending_from_irq :: "pid \<Rightarrow> kernel \<Rightarrow> (outcome \<times> kernel) option" where
  "dispatch_pending_from_irq pd k = dispatch_loop True 0 pd k"

text \<open>
  The timer interrupt of time/mod.rs: wake the sleepers, account the tick, deliver
  default signals to the current process.  Polling the keyboard is left out.
\<close>

definition timer_irq :: "kernel \<Rightarrow> (outcome \<times> kernel) option" where
  "timer_irq k =
     (let t = k_ticks k + 1 in do {
        k1 \<leftarrow> wake_sleeping_processes t (k\<lparr>k_ticks := t\<rparr>);
        let k2 = tick k1;
        dispatch_pending_from_irq (k_current k2) k2
      })"

section \<open>Delivery at the end of a system call\<close>

abbreviation SA_NODEFER :: u32 where "SA_NODEFER \<equiv> 0x40000000"
abbreviation SA_RESETHAND :: u32 where "SA_RESETHAND \<equiv> 0x80000000"

text \<open>What the user code sees after the call: where it continues and its stack.\<close>

record user_frame =
  uf_rip :: u64
  uf_rsp :: u64

definition enter_handler :: "u32 \<Rightarrow> sig_action \<Rightarrow> process \<Rightarrow> process" where
  "enter_handler sig a p =
     (let m1 = (if sa_flags a AND SA_NODEFER = 0 then sig_add sig (p_sig_mask p) else p_sig_mask p);
          m2 = fold (\<lambda>s m. if sig_has (of_nat s) (sa_mask a) then sig_add (of_nat s) m else m) [0..<64] m1;
          p1 = p\<lparr>p_sig_mask := m2\<rparr> in
      if sa_flags a AND SA_RESETHAND \<noteq> 0
      then p1\<lparr>p_sig_actions := (p_sig_actions p1)[unat sig := (p_sig_actions p1 ! unat sig)\<lparr>sa_handler := SigDefault\<rparr>]\<rparr>
      else p1)"

definition deliver_with_frame ::
    "u64 option \<Rightarrow> pid \<Rightarrow> u32 \<Rightarrow> user_frame \<Rightarrow> kernel \<Rightarrow> (user_frame \<times> outcome \<times> kernel) option" where
  "deliver_with_frame new_rsp pd sig fr k =
     (let a = action_of pd sig k in
      case sa_handler a of
        SigIgnore \<Rightarrow> Some (fr, Stay, k)
      | SigUser h \<Rightarrow> (case new_rsp of
          Some sp \<Rightarrow> Some (fr\<lparr>uf_rip := h, uf_rsp := sp\<rparr>, Stay, with_process_mut pd (enter_handler sig a) k)
        | None \<Rightarrow> map_option (Pair fr) (apply_default pd sig k))
      | SigDefault \<Rightarrow> map_option (Pair fr) (apply_default pd sig k))"

partial_function (option) exit_loop ::
    "(u32 \<Rightarrow> kernel \<Rightarrow> u64 option) \<Rightarrow> pid \<Rightarrow> user_frame \<Rightarrow> kernel \<Rightarrow> (user_frame \<times> outcome \<times> kernel) option" where
  "exit_loop build pd fr k =
     (case next_pending (pending_unmasked pd k) of
        None \<Rightarrow> Some (fr, Stay, k)
      | Some sig \<Rightarrow>
          let k1 = take_pending pd sig k in
          (case sa_handler (action_of pd sig k1) of
             SigIgnore \<Rightarrow> exit_loop build pd fr k1
           | SigUser _ \<Rightarrow> deliver_with_frame (build sig k1) pd sig fr k1
           | SigDefault \<Rightarrow> Option.bind (apply_default pd sig k1)
               (\<lambda>(r, k2).
                  if r \<noteq> Stay then Some (fr, r, k2)
                  else if unwrap_or (with_process pd (\<lambda>p. is_zombie p \<or> p_state p = Stopped) k2) True
                  then Some (fr, Stay, k2)
                  else exit_loop build pd fr k2)))"

definition deliver_pending_at_syscall_exit ::
    "(u32 \<Rightarrow> kernel \<Rightarrow> u64 option) \<Rightarrow> user_frame \<Rightarrow> kernel \<Rightarrow> (user_frame \<times> outcome \<times> kernel) option" where
  "deliver_pending_at_syscall_exit build fr k = exit_loop build (k_current k) fr k"

section \<open>System calls\<close>

text \<open>
  The result of a call is the \<open>i64\<close> it returns, an error being the negated number.
  A pointer argument is \<open>None\<close> when it is null and otherwise the value read from it;
  the value stored through an output pointer is a component of the result.
\<close>

definition sys_kill :: "i32 \<Rightarrow> i32 \<Rightarrow> kernel \<Rightarrow> int \<times> kernel" where
  "sys_kill pd sig k =
     (if sint sig < 0 \<or> 64 < sint sig then (-22, k)
      else if 0 < sint pd then
        (if pd \<notin> set (all_pids k) then (-3, k)
         else (0, if sig \<noteq> 0 then send_signal pd sig k else k))
      else if pd = 0 then
        (0, if sig \<noteq> 0 then send_signal_group (unwrap_or (with_process (k_current k) p_pgid k) 0) sig k else k)
      else if pd = -1 then
        (0, fold (\<lambda>p k. if p \<noteq> 1 \<and> p \<noteq> k_current k \<and> sig \<noteq> 0 then send_signal p sig k else k) (all_pids k) k)
      else (0, if sig \<noteq> 0 then send_signal_group (- pd) sig k else k))"

record ksigaction =
  ka_handler :: u64
  ka_flags :: u64
  ka_restorer :: u64
  ka_mask :: u64

definition ksigaction_of :: "sig_action \<Rightarrow> ksigaction" where
  "ksigaction_of a =
     \<lparr>ka_handler = (case sa_handler a of SigUser h \<Rightarrow> h | SigIgnore \<Rightarrow> 1 | SigDefault \<Rightarrow> 0),
      ka_flags = ucast (sa_flags a), ka_restorer = sa_restorer a, ka_mask = sa_mask a\<rparr>"

definition sig_action_of :: "ksigaction \<Rightarrow> sig_action" where
  "sig_action_of src =
     \<lparr>sa_handler = (if ka_handler src = 0 then SigDefault else if ka_handler src = 1 then SigIgnore
                    else SigUser (ka_handler src)),
      sa_mask = ka_mask src, sa_flags = ucast (ka_flags src), sa_restorer = ka_restorer src\<rparr>"

definition sys_rt_sigaction ::
    "i32 \<Rightarrow> ksigaction option \<Rightarrow> bool \<Rightarrow> kernel \<Rightarrow> int \<times> ksigaction option \<times> kernel" where
  "sys_rt_sigaction sig act oldact k =
     (if sint sig \<le> 0 \<or> int NSIG \<le> sint sig then (-22, None, k)
      else (0,
        if oldact then with_process (k_current k) (\<lambda>p. ksigaction_of (p_sig_actions p ! unat sig)) k else None,
        case act of None \<Rightarrow> k
        | Some src \<Rightarrow> with_process_mut (k_current k)
            (\<lambda>p. p\<lparr>p_sig_actions := (p_sig_actions p)[unat sig := sig_action_of src]\<rparr>) k))"

definition change_mask :: "i32 \<Rightarrow> signal_set \<Rightarrow> signal_set \<Rightarrow> signal_set" where
  "change_mask how new_mask m =
     (if how = 0 then fold (\<lambda>s m. if sig_has (of_nat s) new_mask then sig_add (of_nat s) m else m) [0..<64] m
      else if how = 1 then fold (\<lambda>s m. if sig_has (of_nat s) new_mask then sig_remove (of_nat s) m else m) [0..<64] m
      else if how = 2 then new_mask else m)"

definition sys_rt_sigprocmask ::
    "i32 \<Rightarrow> u64 option \<Rightarrow> bool \<Rightarrow> kernel \<Rightarrow> int \<times> u64 option \<times> kernel" where
  "sys_rt_sigprocmask how newset oldset k =
     (0, if oldset then Some (unwrap_or (with_process (k_current k) p_sig_mask k) 0) else None,
      case newset of None \<Rightarrow> k
      | Some m \<Rightarrow> with_process_mut (k_current k) (\<lambda>p. p\<lparr>p_sig_mask := change_mask how m (p_sig_mask p)\<rparr>) k)"

text \<open>\<open>sys_rt_sigsuspend\<close> up to the switch; it returns -4 when the task runs again.\<close>

definition sys_rt_sigsuspend :: "u64 option \<Rightarrow> kernel \<Rightarrow> (outcome \<times> kernel) option" where
  "sys_rt_sigsuspend newset k =
     block_current Sleeping
       (case newset of None \<Rightarrow> k | Some m \<Rightarrow> with_process_mut (k_current k) (\<lambda>p. p\<lparr>p_sig_mask := m\<rparr>) k)"

section \<open>What the scheduler leaves of a process\<close>

text \<open>The scheduler changes nothing of a process but its state.\<close>

definition erased :: "kernel \<Rightarrow> pid \<Rightarrow> process option" where
  "erased k q = map_option (\<lambda>p. p\<lparr>p_state := Running\<rparr>) (bt_get (k_procs k) q)"

lemma erased_same: "k_procs k' = k_procs k \<Longrightarrow> erased k' = erased k"
  by (simp add: erased_def fun_eq_iff)

lemma erased_state [simp]:
  "erased (with_process_mut pd (\<lambda>p. p\<lparr>p_state := st\<rparr>) k) = erased k"
  "erased (with_process_mut pd (\<lambda>p. if b p then p\<lparr>p_state := st\<rparr> else p) k) = erased k"
  "erased (request_reschedule k) = erased k" "erased (set_current c k) = erased k"
  "erased (k\<lparr>k_need_resched := d\<rparr>) = erased k" "erased (reset_used pd i k) = erased k"
  by (auto simp: erased_def fun_eq_iff option.map_comp comp_def set_current_def intro!: option.map_cong)

lemma erased_on_rq: "on_rq i f k = Some k' \<Longrightarrow> erased k' = erased k"
  by (rule erased_same) (rule on_rq_frame)

lemma erased_switch [simp]: "erased (snd (switch_to a b k)) = erased k"
  by (simp add: switch_to_def Let_def)

lemma erased_sched_enqueue: "sched_enqueue pd k = Some k' \<Longrightarrow> erased k' = erased k"
  by (rule erased_same) (rule sched_enqueue_frame)

lemma erased_remove_task: "remove_task pd k = Some k' \<Longrightarrow> erased k' = erased k"
  by (auto simp: remove_task_def split: option.splits dest: erased_on_rq)

lemma erased_add_task: "add_task pd prio pol k = Some k' \<Longrightarrow> erased k' = erased k"
  by (auto simp: add_task_def dest: erased_on_rq)

lemma erased_wake: "wake_process pd k = Some k' \<Longrightarrow> erased k' = erased k"
  by (auto simp: wake_process_def dest: erased_sched_enqueue split: if_splits)

lemma erased_pick_on: "pick_on i k = Some (n, k') \<Longrightarrow> erased k' = erased k"
  by (rule erased_same) (auto simp: pick_on_def split: option.splits)

lemma erased_migrate: "migrate pd a b k = Some k' \<Longrightarrow> erased k' = erased k"
  by (auto simp: migrate_def bind_eq_Some_conv dest!: erased_on_rq split: option.splits)

lemma erased_work_steal: "work_steal my k = Some (n, k') \<Longrightarrow> erased k' = erased k"
  by (auto simp: work_steal_def bind_eq_Some_conv dest!: erased_pick_on erased_migrate
      split: option.splits if_splits prod.splits)

lemma schedule_cases:
  assumes "schedule k = Some (r, k')"
  obtains (same) "r = Stay" "k' = k"
  | (pick) k1 k2 n where
      "(if state_of (k_current k) (k\<lparr>k_need_resched := False\<rparr>) = Some Running
        then sched_enqueue (k_current k) (k\<lparr>k_need_resched := False\<rparr>) else Some (k\<lparr>k_need_resched := False\<rparr>)) = Some k1"
      "pick_on (this_cpu k) (reset_used (k_current k) (this_cpu k) k1) = Some (n, k2)"
      "case n of
         Some to \<Rightarrow> (r, k') = (if to \<noteq> k_current k then switch_to (k_current k) to k2 else (Stay, k2))
       | None \<Rightarrow> (\<exists>st k3. work_steal (this_cpu k) k2 = Some (st, k3) \<and>
           (case st of Some to \<Rightarrow> (r, k') = switch_to (k_current k) to k3 | None \<Rightarrow> k' = k3))"
proof (cases "k_need_resched k")
  case True
  with assms obtain k1 n k2 where
    1: "(if state_of (k_current k) (k\<lparr>k_need_resched := False\<rparr>) = Some Running
        then sched_enqueue (k_current k) (k\<lparr>k_need_resched := False\<rparr>) else Some (k\<lparr>k_need_resched := False\<rparr>)) = Some k1"
    "pick_on (this_cpu k) (reset_used (k_current k) (this_cpu k) k1) = Some (n, k2)"
    unfolding schedule_def Let_def by (auto simp: bind_eq_Some_conv)
  have sch: "schedule k = (case n of
      Some to \<Rightarrow> Some (if to \<noteq> k_current k then switch_to (k_current k) to k2 else (Stay, k2))
    | None \<Rightarrow> Option.bind (work_steal (this_cpu k) k2) (\<lambda>(st, k3). case st of Some to \<Rightarrow> Some (switch_to (k_current k) to k3)
        | None \<Rightarrow> Some (case state_of (k_current k) k3 of None \<Rightarrow> (Stay, k3)
            | Some s \<Rightarrow> (if is_blocked s then Idle else Stay, k3))))"
    unfolding schedule_def Let_def using True 1 by simp
  show ?thesis
  proof (rule pick [OF 1])
    show "case n of
         Some to \<Rightarrow> (r, k') = (if to \<noteq> k_current k then switch_to (k_current k) to k2 else (Stay, k2))
       | None \<Rightarrow> (\<exists>st k3. work_steal (this_cpu k) k2 = Some (st, k3) \<and>
           (case st of Some to \<Rightarrow> (r, k') = switch_to (k_current k) to k3 | None \<Rightarrow> k' = k3))"
    proof (cases n)
      case None
      then obtain st k3 where w: "work_steal (this_cpu k) k2 = Some (st, k3)"
        using assms sch by (auto simp: bind_eq_Some_conv)
      then show ?thesis using None assms sch by (cases st) (auto split: option.splits)
    qed (use assms sch in simp)
  qed
qed (use assms same in \<open>simp add: schedule_def\<close>)

lemma erased_schedule:
  assumes "schedule k = Some (r, k')"
  shows "erased k' = erased k"
  using assms
proof (cases rule: schedule_cases)
  case (pick k1 k2 n)
  have sw: "(r, k') = switch_to a b q \<Longrightarrow> erased k' = erased q" for a b q
    using erased_switch [of a b q] by (metis snd_conv)
  have "erased k2 = erased k"
    using pick(1) erased_pick_on [OF pick(2)] by (auto dest: erased_sched_enqueue split: if_splits)
  show ?thesis
  proof (cases n)
    case None
    then obtain st k3 where w: "work_steal (this_cpu k) k2 = Some (st, k3)"
      "case st of Some to \<Rightarrow> (r, k') = switch_to (k_current k) to k3 | None \<Rightarrow> k' = k3"
      using pick(3) by auto
    have "erased k' = erased k3" using w(2) sw by (cases st) auto
    then show ?thesis using erased_work_steal [OF w(1)] \<open>erased k2 = erased k\<close> by simp
  next
    case (Some to)
    then have "erased k' = erased k2" using pick(3) sw by (cases "to = k_current k") auto
    then show ?thesis using \<open>erased k2 = erased k\<close> by simp
  qed
qed simp

section \<open>What delivery leaves of the signal state\<close>

definition sig_view :: "kernel \<Rightarrow> pid \<Rightarrow> (signal_set \<times> signal_set \<times> sig_action list \<times> pid) option" where
  "sig_view k q =
     map_option (\<lambda>p. (p_sig_pending p, p_sig_mask p, p_sig_actions p, p_ppid p)) (bt_get (k_procs k) q)"

lemma sig_view_erased: "erased k' = erased k \<Longrightarrow> sig_view k' = sig_view k"
proof
  fix q
  have "sig_view k q = map_option (\<lambda>p. (p_sig_pending p, p_sig_mask p, p_sig_actions p, p_ppid p)) (erased k q)" for k
    by (simp add: sig_view_def erased_def option.map_comp comp_def)
  then show "erased k' = erased k \<Longrightarrow> sig_view k' q = sig_view k q" by simp
qed

lemma sig_view_reads:
  assumes "sig_view k' pd = sig_view k pd"
  shows "pending_unmasked pd k' = pending_unmasked pd k" "action_of pd sig k' = action_of pd sig k"
    "with_process pd p_ppid k' = with_process pd p_ppid k"
  using assms by (cases "bt_get (k_procs k') pd"; cases "bt_get (k_procs k) pd";
    simp add: sig_view_def pending_unmasked_def action_of_def with_process_def)+

lemma sig_view_other: "q \<noteq> pd \<Longrightarrow> sig_view (with_process_mut q f k) pd = sig_view k pd"
  by (simp add: sig_view_def)

lemma sig_view_send: "q \<noteq> pd \<Longrightarrow> sig_view (send_signal q sig k) pd = sig_view k pd"
  by (simp add: send_signal_def sig_view_other)

lemma rqs_safe_send [simp]: "rqs_safe (send_signal q sig k) = rqs_safe k"
  by (simp add: send_signal_def)

lemma apply_cont_ok: "rqs_safe k \<Longrightarrow> \<exists>k'. apply_cont pd k = Some k' \<and> rqs_safe k' \<and> sig_view k' = sig_view k"
proof -
  let ?k = "with_process_mut pd (\<lambda>p. if p_state p = Stopped then p\<lparr>p_state := Runnable\<rparr> else p) k"
  assume "rqs_safe k"
  then have s: "rqs_safe ?k" by simp
  have "erased ?k = erased k" by (rule erased_state(2))
  then have v: "sig_view ?k = sig_view k" by (rule sig_view_erased)
  obtain a where a: "add_task pd PRIO_NORMAL SCHED_NORMAL ?k = Some a" "rqs_safe a"
    using add_task_safe [OF s, of PRIO_NORMAL pd SCHED_NORMAL] by (auto simp: PRIO_NORMAL_def NUM_PRIO_LEVELS_def)
  obtain b where b: "wake_process pd ?k = Some b" "rqs_safe b" using wake_process_safe [OF s] by blast
  have "sig_view a = sig_view k" "sig_view b = sig_view k"
    using sig_view_erased [OF erased_add_task [OF a(1)]] sig_view_erased [OF erased_wake [OF b(1)]] v by simp_all
  then show ?thesis using a b by (simp add: apply_cont_def Let_def)
qed

lemma yield_ok: "rqs_safe k \<Longrightarrow> \<exists>r k'. schedule_next_from_irq k = Some (r, k') \<and> rqs_safe k' \<and> sig_view k' = sig_view k"
proof -
  assume "rqs_safe k"
  then obtain r k' where y: "schedule (request_reschedule k) = Some (r, k')" "rqs_safe k'"
    using schedule_safe [of "request_reschedule k"] by auto
  have "erased k' = erased k" using erased_schedule [OF y(1)] by simp
  then have "sig_view k' = sig_view k" by (rule sig_view_erased)
  then show ?thesis using y by (simp add: schedule_next_from_irq_def)
qed

lemma remove_ok: "rqs_safe k \<Longrightarrow> \<exists>k'. remove_task pd k = Some k' \<and> rqs_safe k' \<and> sig_view k' = sig_view k"
  using remove_task_safe [of k pd] by (auto intro!: sig_view_erased dest: erased_remove_task)

lemma wake_ok: "rqs_safe k \<Longrightarrow> \<exists>k'. wake_process pd k = Some k' \<and> rqs_safe k' \<and> sig_view k' = sig_view k"
  using wake_process_safe [of k pd] by (auto intro!: sig_view_erased dest: erased_wake)

lemma apply_terminate_ok:
  assumes k: "rqs_safe k" and pp: "with_process pd p_ppid k \<noteq> Some pd"
  shows "\<exists>r k'. apply_terminate pd sig k = Some (r, k') \<and> rqs_safe k' \<and> sig_view k' pd = sig_view k pd"
proof -
  let ?pp = "unwrap_or (with_process pd p_ppid k) 0"
  let ?k1 = "with_process_mut pd (\<lambda>p. p\<lparr>p_state := Zombie (- sig), p_exit_code := - sig\<rparr>) k"
  have v1: "sig_view ?k1 pd = sig_view k pd" by (simp add: sig_view_def option.map_comp comp_def)
  obtain k2 where k2: "remove_task pd ?k1 = Some k2" "rqs_safe k2" "sig_view k2 = sig_view ?k1"
    using remove_ok [of ?k1 pd] k by auto
  obtain w where w: "wake_process ?pp (send_signal ?pp SIGCHLD k2) = Some w" "rqs_safe w"
    "sig_view w = sig_view (send_signal ?pp SIGCHLD k2)"
    using wake_ok [of "send_signal ?pp SIGCHLD k2" ?pp] k2(2) by auto
  define k3 where "k3 = (if ?pp \<noteq> 0 then w else k2)"
  have "?pp \<noteq> 0 \<Longrightarrow> ?pp \<noteq> pd" using pp by (auto simp: unwrap_or_def split: option.splits)
  then have k3: "rqs_safe k3" "sig_view k3 pd = sig_view k pd"
    using w(2,3) k2(2,3) v1 sig_view_send [of ?pp pd SIGCHLD k2] by (auto simp: k3_def)
  obtain r k4 where y: "schedule_next_from_irq k3 = Some (r, k4)" "rqs_safe k4" "sig_view k4 = sig_view k3"
    using yield_ok [OF k3(1)] by blast
  have "(if ?pp \<noteq> 0 then wake_process ?pp (send_signal ?pp SIGCHLD k2) else Some k2) = Some k3"
    by (simp add: k3_def w(1))
  then have "apply_terminate pd sig k = (if pd = k_current k3 then schedule_next_from_irq k3 else Some (Stay, k3))"
    by (simp only: apply_terminate_def Let_def k2(1) bind.bind_lunit)
  then show ?thesis using y k3 by auto
qed

lemma deliver_ok:
  assumes k: "rqs_safe k" and pp: "with_process pd p_ppid k \<noteq> Some pd"
  shows "\<exists>r k'. deliver pd sig k = Some (r, k') \<and> rqs_safe k' \<and> sig_view k' pd = sig_view k pd"
proof -
  let ?s = "with_process_mut pd (\<lambda>p. p\<lparr>p_state := Stopped\<rparr>) k"
  have v: "sig_view ?s = sig_view k" by (rule sig_view_erased) simp
  obtain a where a: "remove_task pd ?s = Some a" "rqs_safe a" "sig_view a = sig_view k"
    using remove_ok [of ?s pd] k v by auto
  obtain b where b: "apply_cont pd k = Some b" "rqs_safe b" "sig_view b = sig_view k" using apply_cont_ok [OF k] by blast
  have "\<exists>r k'. apply_default pd sig k = Some (r, k') \<and> rqs_safe k' \<and> sig_view k' pd = sig_view k pd"
    using k a b apply_terminate_ok [OF assms, of sig] by (cases "disposition_of sig") (simp_all add: apply_default_def)
  then show ?thesis using k by (simp add: deliver_def split: sig_handler.split)
qed

section \<open>Dispatch returns\<close>

lemma next_pending_Some:
  assumes "next_pending s = Some sig"
  obtains i where "i < 64" "sig = of_nat i" "bit s i"
  using assms trailing_zeros_least [of s] that [of "trailing_zeros s"]
  by (auto simp: next_pending_def split: if_splits)

lemma sig_of_nat: "i < 64 \<Longrightarrow> (of_nat i :: u32) < 64" "i < 64 \<Longrightarrow> unat (of_nat i :: u32) = i"
  by (simp_all add: word_less_nat_alt unat_of_nat)

lemma bit_sig_ops:
  "i < 64 \<Longrightarrow> bit (sig_remove (of_nat i) s) j \<longleftrightarrow> j \<noteq> i \<and> bit s j"
  "i < 64 \<Longrightarrow> bit (sig_add (of_nat i) s) j \<longleftrightarrow> j = i \<or> bit s j"
  "bit (sig_and_not s m) j \<longleftrightarrow> bit s j \<and> \<not> bit m j"
  by (auto simp: sig_remove_def sig_add_def sig_and_not_def sig_of_nat bits_simps bit_and_iff bit_not_iff
      dest: bit_imp_le_length)

definition sigs :: "signal_set \<Rightarrow> nat set" where "sigs s = {i. bit s i}"

lemma sigs_finite [simp]: "finite (sigs s)"
  by (rule finite_subset [of _ "{..<64}"]) (auto simp: sigs_def dest: bit_imp_le_length)

lemma sigs_empty: "sigs w = {} \<longleftrightarrow> w = 0"
  by (auto simp: sigs_def intro!: bit_eqI)

lemma sigs_ops:
  "i < 64 \<Longrightarrow> sigs (sig_remove (of_nat i) s) = sigs s - {i}"
  "i < 64 \<Longrightarrow> sigs (sig_add (of_nat i) s) = insert i (sigs s)"
  "sigs (sig_and_not s m) = sigs s - sigs m"
  by (auto simp: sigs_def bit_sig_ops)

lemma take_pending_ok:
  assumes "i < 64"
  shows "sigs (pending_unmasked pd (take_pending pd (of_nat i) k)) = sigs (pending_unmasked pd k) - {i}"
    "action_of pd s (take_pending pd (of_nat i) k) = action_of pd s k"
    "with_process pd p_ppid (take_pending pd (of_nat i) k) = with_process pd p_ppid k"
    "rqs_safe (take_pending pd (of_nat i) k) = rqs_safe k"
  using assms
  by (auto simp: take_pending_def pending_unmasked_def action_of_def with_process_def sigs_ops option.map_comp comp_def
      split: option.splits) (auto simp: sigs_def)

text \<open>The pending signals with a user handler, which the interrupt must leave alone.\<close>

definition user_sigs :: "pid \<Rightarrow> kernel \<Rightarrow> nat set" where
  "user_sigs pd k = {i \<in> sigs (pending_unmasked pd k). is_user (sa_handler (action_of pd (of_nat i) k))}"

lemma dispatch_loop_ok:
  assumes "rqs_safe k" "with_process pd p_ppid k \<noteq> Some pd" "irq \<longrightarrow> sigs skip \<inter> sigs (pending_unmasked pd k) \<subseteq> user_sigs pd k"
  shows "\<exists>r k'. dispatch_loop irq skip pd k = Some (r, k') \<and> rqs_safe k' \<and>
    (irq \<longrightarrow> user_sigs pd k \<subseteq> sigs (pending_unmasked pd k')) \<and>
    (r = Stay \<longrightarrow> sigs (pending_unmasked pd k') = (if irq then user_sigs pd k else {}))"
  using assms
proof (induction "card (sigs (pending_unmasked pd k) - (if irq then sigs skip else {}))" arbitrary: skip k rule: less_induct)
  case less
  let ?p = "pending_unmasked pd k"
  let ?d = "if irq then sig_and_not ?p skip else ?p"
  have d: "sigs ?d = sigs ?p - (if irq then sigs skip else {})" by (simp add: sigs_ops)
  show ?case
  proof (cases "next_pending ?d")
    case None
    then have "?d = 0" by (simp add: next_pending_def split: if_splits)
    then have "sigs ?d = {}" by (simp add: sigs_def)
    then have "sigs ?p \<subseteq> (if irq then sigs skip else {})" using d by auto
    have us: "user_sigs pd k \<subseteq> sigs ?p" by (auto simp: user_sigs_def)
    have e: "sigs ?p = (if irq then user_sigs pd k else {})"
    proof (cases irq)
      case True
      then have "sigs ?p \<subseteq> sigs skip" "sigs skip \<inter> sigs ?p \<subseteq> user_sigs pd k"
        using \<open>sigs ?p \<subseteq> (if irq then sigs skip else {})\<close> less.prems(3) by simp_all
      then have "sigs ?p \<subseteq> user_sigs pd k" by (simp only: Int_absorb1)
      with us True show ?thesis by simp
    qed (use \<open>sigs ?p \<subseteq> (if irq then sigs skip else {})\<close> in simp)
    have "dispatch_loop irq skip pd k = Some (Stay, k)" using None by (subst dispatch_loop.simps) (simp add: Let_def)
    then show ?thesis using e us less.prems(1) by (intro exI [of _ Stay] exI [of _ k] conjI impI) simp_all
  next
    case (Some sig)
    then obtain i where i: "i < 64" "sig = of_nat i" "bit ?d i" by (rule next_pending_Some)
    then have iD: "i \<in> sigs ?p - (if irq then sigs skip else {})" using d by (auto simp: sigs_def)
    show ?thesis
    proof (cases "irq \<and> is_user (sa_handler (action_of pd sig k))")
      case True
      then have iu: "i \<in> user_sigs pd k" using iD i(2) by (simp add: user_sigs_def)
      have "card (sigs ?p - sigs (sig_add sig skip)) < card (sigs ?p - sigs skip)"
        using iD True i(1,2) by (intro psubset_card_mono) (auto simp: sigs_ops)
      moreover have "sigs (sig_add sig skip) \<inter> sigs ?p \<subseteq> user_sigs pd k"
        using less.prems(3) True iu i(1,2) by (auto simp: sigs_ops)
      ultimately show ?thesis
        using less.hyps [of k "sig_add sig skip"] less.prems(1,2) True Some
        by (subst dispatch_loop.simps) (simp add: Let_def)
    next
      case False
      let ?k1 = "take_pending pd sig k"
      note t = take_pending_ok [OF i(1), of pd, folded i(2)]
      obtain r k' where dl: "deliver pd sig ?k1 = Some (r, k')" "rqs_safe k'" "sig_view k' pd = sig_view ?k1 pd"
        using deliver_ok [of ?k1 pd sig] t(3,4) [of k] less.prems(1,2) by auto
      note v = sig_view_reads [OF dl(3)]
      have p': "sigs (pending_unmasked pd k') = sigs ?p - {i}" using v(1) t(1) by simp
      have ni: "irq \<Longrightarrow> i \<notin> user_sigs pd k" using False i(2) by (simp add: user_sigs_def)
      have u': "irq \<Longrightarrow> user_sigs pd k' = user_sigs pd k" using p' v(2) t(2) ni by (auto simp: user_sigs_def)
      have step: "dispatch_loop irq skip pd k = (if r = Stay then dispatch_loop irq skip pd k' else Some (r, k'))"
        using Some False dl(1) by (subst dispatch_loop.simps) (auto simp: Let_def)
      have "card (sigs (pending_unmasked pd k') - (if irq then sigs skip else {}))
          < card (sigs ?p - (if irq then sigs skip else {}))"
        unfolding p' by (rule psubset_card_mono [OF finite_Diff [OF sigs_finite]]) (use iD in blast)
      moreover have "with_process pd p_ppid k' \<noteq> Some pd" using v(3) t(3) less.prems(2) by simp
      moreover have "irq \<longrightarrow> sigs skip \<inter> sigs (pending_unmasked pd k') \<subseteq> user_sigs pd k'"
      proof
        assume irq
        then have "sigs skip \<inter> sigs ?p \<subseteq> user_sigs pd k" using less.prems(3) by simp
        then show "sigs skip \<inter> sigs (pending_unmasked pd k') \<subseteq> user_sigs pd k'"
          using p' u' [OF \<open>irq\<close>] by (simp only:) blast
      qed
      ultimately have ih: "\<exists>r k''. dispatch_loop irq skip pd k' = Some (r, k'') \<and> rqs_safe k'' \<and>
          (irq \<longrightarrow> user_sigs pd k' \<subseteq> sigs (pending_unmasked pd k'')) \<and>
          (r = Stay \<longrightarrow> sigs (pending_unmasked pd k'') = (if irq then user_sigs pd k' else {}))"
        by (intro less.hyps dl(2))
      have "irq \<Longrightarrow> user_sigs pd k \<subseteq> sigs (pending_unmasked pd k')" using p' ni by (auto simp: user_sigs_def)
      then show ?thesis using step ih dl(2) u' by (cases "r = Stay") auto
    qed
  qed
qed

text \<open>C12. Signal dispatch always ends.  For a process that is not its own parent and run queues
  that are well formed, the loop over the pending signals returns.  If the process still
  runs afterwards, a call from the timer interrupt has left pending exactly the unmasked
  signals with a user handler, and any other call has left none; and whether it runs or
  not, the interrupt never takes a signal with a user handler away.\<close>

theorem dispatch_returns:
  assumes "rqs_safe k" "with_process pd p_ppid k \<noteq> Some pd"
  shows "(\<exists>r k'. dispatch_pending_from_irq pd k = Some (r, k') \<and> rqs_safe k' \<and>
      user_sigs pd k \<subseteq> sigs (pending_unmasked pd k') \<and>
      (r = Stay \<longrightarrow> sigs (pending_unmasked pd k') = user_sigs pd k)) \<and>
    (\<exists>r k'. dispatch_pending pd k = Some (r, k') \<and> rqs_safe k' \<and>
      (r = Stay \<longrightarrow> pending_unmasked pd k' = 0))"
proof (intro conjI)
  have z: "sigs 0 = {}" by (simp add: sigs_def)
  show "\<exists>r k'. dispatch_pending_from_irq pd k = Some (r, k') \<and> rqs_safe k' \<and>
      user_sigs pd k \<subseteq> sigs (pending_unmasked pd k') \<and>
      (r = Stay \<longrightarrow> sigs (pending_unmasked pd k') = user_sigs pd k)"
    using dispatch_loop_ok [OF assms, of True 0] z by (simp add: dispatch_pending_from_irq_def)
  show "\<exists>r k'. dispatch_pending pd k = Some (r, k') \<and> rqs_safe k' \<and>
      (r = Stay \<longrightarrow> pending_unmasked pd k' = 0)"
    using dispatch_loop_ok [OF assms, of False 0] by (auto simp: dispatch_pending_def sigs_empty)
qed

definition signal_demo :: kernel where
  "signal_demo = (sched_init (kernel_boot 1))\<lparr>k_procs := [(1, (process_new_kernel 1 0 0 0)
     \<lparr>p_ppid := 0, p_sig_pending := 0x2200,
      p_sig_actions := (replicate NSIG sig_action_default)[9 := sig_action_default\<lparr>sa_handler := SigUser 0x400000\<rparr>]\<rparr>)]\<rparr>"

theorem dispatch_returns_witness:
  "(\<exists>r k'. dispatch_pending_from_irq 1 signal_demo = Some (r, k') \<and>
      user_sigs 1 signal_demo \<subseteq> sigs (pending_unmasked 1 k')) \<and>
   (\<exists>r k'. dispatch_pending 1 signal_demo = Some (r, k') \<and>
      (r = Stay \<longrightarrow> pending_unmasked 1 k' = 0))"
proof -
  have "rqs_safe (sched_init (kernel_boot 1))" by (intro rqs_inv_safe sched_init_inv)
  then have "rqs_safe signal_demo" unfolding signal_demo_def by (subst rqs_safe_same [of _ "sched_init (kernel_boot 1)"]) simp_all
  moreover have "with_process 1 p_ppid signal_demo \<noteq> Some 1" by (simp add: signal_demo_def with_process_def bt_get_def)
  ultimately show ?thesis using dispatch_returns [of signal_demo 1] by blast
qed

text \<open>C13. A process that has blocked SIGKILL survives it.  \<open>sys_rt_sigprocmask\<close> stores any mask a
  caller passes, with SIGKILL in it or not.  Let a process have SIGKILL masked and no
  other signal to deliver, and let it be the first in the queue of the sender's CPU with a priority not
  worse than the sender's.  When the running sender sends it SIGKILL, the process becomes a
  zombie but stays in the queue; at the sender's next reschedule the scheduler switches to
  the zombie and its state becomes running again; and the dispatch of its pending signals then
  delivers nothing, so it goes on.\<close>

theorem sigkill_can_be_blocked:
  assumes inv: "rqs_inv k" and run: "state_of (k_current k) k = Some Running"
    and e: "entity_at (this_cpu k) (k_current k) k = Some e"
    and p: "bt_get (k_procs k) pd = Some p" "pd \<noteq> k_current k" "sig_has SIGKILL (p_sig_mask p)" "pending_unmasked pd k = 0"
    and first: "queue_at (this_cpu k) k = (n, pd) # rest" "n \<le> unat (se_prio e)" and may: "may_signal pd k"
  shows "with_process (k_current k) p_sig_mask (snd (snd (sys_rt_sigprocmask 2 (Some m) old k))) = Some m \<and>
    state_of pd (send_signal pd SIGKILL k) = Some (Zombie (-1)) \<and> queued pd (send_signal pd SIGKILL k) \<and>
    (\<exists>k'. yield_current (send_signal pd SIGKILL k) = Some (SwitchTo pd, k') \<and> k_current k' = pd \<and>
      state_of pd k' = Some Running \<and> dispatch_pending_from_irq pd k' = Some (Stay, k'))"
proof -
  let ?cur = "k_current k"
  define k1 where "k1 = request_reschedule (send_signal pd SIGKILL k)"
  let ?p = "p\<lparr>p_sig_pending := sig_add SIGKILL (p_sig_pending p), p_state := Zombie (-1)\<rparr>"
  have p1: "bt_get (k_procs k1) pd = Some ?p"
    using p(1) may by (simp add: k1_def send_signal_def NSIG_def post_signal_def)
  have same: "k_rqs k1 = k_rqs k" "k_current k1 = ?cur" "this_cpu k1 = this_cpu k" "k_need_resched k1"
    by (simp_all add: k1_def send_signal_def this_cpu_def request_reschedule_def)
  have cur: "bt_get (k_procs k1) ?cur = bt_get (k_procs k) ?cur"
    using p(2) by (simp add: k1_def send_signal_def)
  have inv1: "rqs_inv k1" using inv rqs_inv_same [OF same(1)] by simp
  have run1: "state_of (k_current k1) k1 = Some Running"
    using run cur same(2) by (simp add: state_of_def with_process_def)
  have e1: "entity_at (this_cpu k1) (k_current k1) k1 = Some e" using e same by (simp add: entity_at_def)
  have q1: "queue_at (this_cpu k1) k1 = (n, pd) # rest" using first(1) same by (simp add: queue_at_def)
  obtain x xs k2 where x: "spec_enqueue (k_current k1) (unat (se_prio e)) (queue_at (this_cpu k1) k1) = x # xs"
    and k2: "k_procs k2 = k_procs k1"
      "schedule k1 = Some (if snd x \<noteq> k_current k1 then switch_to (k_current k1) (snd x) k2 else (Stay, k2))"
    by (rule schedule_head [OF inv1 same(4) run1 e1 refl])
  have "snd x = pd" using x first(2) unfolding q1 by (auto simp: spec_enqueue_def split: if_splits)
  moreover have "bt_get (k_procs k2) ?cur \<noteq> None"
    using run1 k2(1) same(2) by (auto simp: state_of_def with_process_def)
  ultimately have sch: "schedule k1 = Some (SwitchTo pd, snd (switch_to ?cur pd k2))"
    using k2(2) p(2) same(2) switch_to_present [of k2 ?cur pd] by simp
  let ?k3 = "snd (switch_to ?cur pd k2)"
  have p3: "bt_get (k_procs ?k3) pd = Some (?p\<lparr>p_state := Running\<rparr>)"
    using p1 p(2) k2(1) by (simp add: switch_to_def Let_def set_current_def)
  have pm: "sig_and_not (p_sig_pending p) (p_sig_mask p) = 0" "bit (p_sig_mask p) 9"
    using p(1,3,4) by (simp_all add: pending_unmasked_def sig_has_def bits_simps)
  have "bit (p_sig_mask p) i" if "bit (p_sig_pending p) i" for i
    using arg_cong [OF pm(1), of "\<lambda>w. bit w i"] that bit_imp_le_length [OF that]
    by (simp add: sig_and_not_def bit_and_iff bit_not_iff)
  then have "sig_and_not (sig_add SIGKILL (p_sig_pending p)) (p_sig_mask p) = 0"
    using pm(2) by (intro bit_eqI) (auto simp: sig_and_not_def sig_add_def bit_and_iff bit_or_iff bit_not_iff bits_simps)
  then have "pending_unmasked pd ?k3 = 0" using p3 by (simp add: pending_unmasked_def)
  then have d: "dispatch_pending_from_irq pd ?k3 = Some (Stay, ?k3)"
    unfolding dispatch_pending_from_irq_def
    by (subst dispatch_loop.simps) (simp add: sig_and_not_def next_pending_def)
  have "queued pd k" using first(1) this_cpu_bound [of k] unfolding queued_def by force
  then have "queued pd (send_signal pd SIGKILL k)" using queued_same [of "send_signal pd SIGKILL k" k] by (simp add: send_signal_def)
  moreover have "state_of pd (send_signal pd SIGKILL k) = Some (Zombie (-1))"
    using p1 by (simp add: k1_def state_of_def with_process_def)
  moreover have "with_process ?cur p_sig_mask (snd (snd (sys_rt_sigprocmask 2 (Some m) old k))) = Some m"
    using run by (auto simp: sys_rt_sigprocmask_def change_mask_def state_of_def with_process_def)
  moreover have "state_of pd ?k3 = Some Running" using p3 by (simp add: state_of_def with_process_def)
  ultimately show ?thesis using sch d unfolding yield_current_def k1_def [symmetric] by auto
qed

lemma two_task_kernel:
  obtains k e where "rqs_inv k" "this_cpu k < MAX_CPUS_SCHED" "k_current k = 1" "queue_at (this_cpu k) k = [(120, 2), (120, 1)]"
    "entity_at (this_cpu k) 1 k = Some e" "unat (se_prio e) = 120" "k_ns k = k_ns (kernel_boot 1)"
    "k_procs k = [(1, (process_new_kernel 1 0 0 0)\<lparr>p_state := Running\<rparr>),
       (2, (process_new_kernel 2 0 0 0)\<lparr>p_sig_mask := 0x200\<rparr>)]"
proof -
  let ?k = "sched_init (kernel_boot 1)"
  have r: "k_rqs ?k ! 0 = Some (run_queue_new 0)" by (simp add: sched_init_def kernel_boot_def MAX_CPUS_SCHED_def)
  have one: "select_cpu_for_new_task k = 0" if "k_ncpus k = 1" for k
    using that by (simp add: select_cpu_for_new_task_def MAX_CPUS_SCHED_def Let_def)
  have new: "\<not> known q ?k" for q
    unfolding known_def entity_at_def
    by (auto simp: sched_init_def kernel_boot_def MAX_CPUS_SCHED_def nth_list_update rq_entity_def run_queue_new_def)
  have p: "unat (120 :: u8) < NUM_PRIO_LEVELS" by (simp add: NUM_PRIO_LEVELS_def)
  have n: "k_ncpus ?k = 1" "queue_at 0 ?k = []"
    using r rq_new_inv by (simp_all add: sched_init_def kernel_boot_def queue_at_def)
  obtain k1 where k1: "rqs_inv k1" "\<And>q. known q k1 \<longleftrightarrow> q = 2" "queue_at 0 k1 = [(120, 2)]" "k_ncpus k1 = 1"
    "add_task 2 120 SCHED_NORMAL ?k = Some k1"
    using add_task_at [OF sched_init_inv new p, of 2 SCHED_NORMAL] r one [OF n(1)] n new by (auto simp: spec_enqueue_def)
  have on: "k_rqs k1 ! 0 \<noteq> None" using k1(3) by (auto simp: queue_at_def split: option.splits)
  obtain k2 where k2: "rqs_inv k2" "queue_at 0 k2 = [(120, 2), (120, 1)]"
    "entity_at 0 1 k2 = Some (sched_entity_new 1 120 SCHED_NORMAL)"
    using add_task_at [OF k1(1) _ p, of 1 SCHED_NORMAL] one [OF k1(4)] k1(2,3) on by (auto simp: spec_enqueue_def)
  let ?k' = "k2\<lparr>k_cpu := 0, k_current := 1, k_ns := k_ns (kernel_boot 1), k_procs := [(1, (process_new_kernel 1 0 0 0)\<lparr>p_state := Running\<rparr>),
       (2, (process_new_kernel 2 0 0 0)\<lparr>p_sig_mask := 0x200\<rparr>)]\<rparr>"
  have "rqs_inv ?k'" using k2(1) by (subst rqs_inv_same [of _ k2]) simp_all
  moreover have "this_cpu ?k' = 0" by (simp add: this_cpu_def)
  ultimately show ?thesis using that [of ?k' "sched_entity_new 1 120 SCHED_NORMAL"] k2
    by (simp add: entity_at_def queue_at_def sched_entity_new_def MAX_CPUS_SCHED_def)
qed

theorem sigkill_can_be_blocked_witness:
  "\<exists>k k'. state_of 2 (send_signal 2 SIGKILL k) = Some (Zombie (-1)) \<and>
     yield_current (send_signal 2 SIGKILL k) = Some (SwitchTo 2, k') \<and> state_of 2 k' = Some Running"
proof -
  obtain k e where k: "rqs_inv k" "this_cpu k < MAX_CPUS_SCHED" "k_current k = 1" "queue_at (this_cpu k) k = [(120, 2), (120, 1)]"
    "entity_at (this_cpu k) 1 k = Some e" "unat (se_prio e) = 120" "k_ns k = k_ns (kernel_boot 1)"
    "k_procs k = [(1, (process_new_kernel 1 0 0 0)\<lparr>p_state := Running\<rparr>),
       (2, (process_new_kernel 2 0 0 0)\<lparr>p_sig_mask := 0x200\<rparr>)]" by (rule two_task_kernel)
  have a: "state_of (k_current k) k = Some Running" using k by (simp add: state_of_def with_process_def bt_get_def)
  have b: "bt_get (k_procs k) 2 = Some ((process_new_kernel 2 0 0 0)\<lparr>p_sig_mask := 0x200\<rparr>)" using k by (simp add: bt_get_def)
  have c: "pending_unmasked 2 k = 0" using b by (simp add: pending_unmasked_def process_new_kernel_def sig_and_not_def)
  have d: "sig_has SIGKILL (p_sig_mask ((process_new_kernel 2 0 0 0)\<lparr>p_sig_mask := 0x200\<rparr>))"
    by (simp add: sig_has_def bit_mask_def)
  have m: "may_signal 2 k"
    using k(3,8) by (simp add: may_signal_def with_process_def bt_get_def process_new_kernel_def namespaces_root_def
        check_kill_permission_def unwrap_or_def)
  obtain k' where "state_of 2 (send_signal 2 SIGKILL k) = Some (Zombie (-1))"
    "yield_current (send_signal 2 SIGKILL k) = Some (SwitchTo 2, k')" "state_of 2 k' = Some Running"
    using sigkill_can_be_blocked [OF k(1) a _ b _ d c, of e 120 "[(120, 1)]" 0 False] k(3-6) m by auto
  then show ?thesis by blast
qed

end
