(* ===== verification/Pipe_Ipc.thy ===== *)
theory Pipe_Ipc
  imports Signals
begin

text \<open>
  Pipes of ipc/pipe.rs on top of the ring buffer: the table of waiting processes,
  blocking reads and writes, closing an end, and the constructors.  A pipe is named
  by its index in the store of buffers, which stands for the address of the shared
  buffer.  A blocking operation is modelled up to the call of \<open>block_current\<close>; the
  retry after the task has been woken is a new call.
\<close>

section \<open>Waiters\<close>

definition waiters :: "nat \<Rightarrow> kernel \<Rightarrow> pid list \<times> pid list" where
  "waiters i k = unwrap_or (bt_get (k_pipe_waiters k) i) ([], [])"

definition register_reader_waiter :: "nat \<Rightarrow> pid \<Rightarrow> kernel \<Rightarrow> kernel" where
  "register_reader_waiter i pd k =
     (let (rs, ws) = waiters i k in k\<lparr>k_pipe_waiters := bt_insert i (rs @ [pd], ws) (k_pipe_waiters k)\<rparr>)"

definition register_writer_waiter :: "nat \<Rightarrow> pid \<Rightarrow> kernel \<Rightarrow> kernel" where
  "register_writer_waiter i pd k =
     (let (rs, ws) = waiters i k in k\<lparr>k_pipe_waiters := bt_insert i (rs, ws @ [pd]) (k_pipe_waiters k)\<rparr>)"

definition unregister_reader :: "nat \<Rightarrow> pid \<Rightarrow> kernel \<Rightarrow> kernel" where
  "unregister_reader i pd k =
     k\<lparr>k_pipe_waiters := bt_adjust i (\<lambda>(rs, ws). (filter (\<lambda>p. p \<noteq> pd) rs, ws)) (k_pipe_waiters k)\<rparr>"

definition wake_readers :: "nat \<Rightarrow> kernel \<Rightarrow> kernel option" where
  "wake_readers i k =
     wake_all (fst (waiters i k))
       (k\<lparr>k_pipe_waiters := bt_adjust i (\<lambda>(rs, ws). ([], ws)) (k_pipe_waiters k)\<rparr>)"

definition wake_writers :: "nat \<Rightarrow> kernel \<Rightarrow> kernel option" where
  "wake_writers i k =
     wake_all (snd (waiters i k))
       (k\<lparr>k_pipe_waiters := bt_adjust i (\<lambda>(rs, ws). (rs, [])) (k_pipe_waiters k)\<rparr>)"

definition cleanup_waiters :: "nat \<Rightarrow> kernel \<Rightarrow> kernel" where
  "cleanup_waiters i k = k\<lparr>k_pipe_waiters := bt_remove i (k_pipe_waiters k)\<rparr>"

section \<open>Blocking read and write\<close>

datatype 'a io_result = Finished 'a | Blocked outcome

definition pipe_upd :: "nat \<Rightarrow> (pipe_buf \<Rightarrow> pipe_buf) \<Rightarrow> kernel \<Rightarrow> kernel" where
  "pipe_upd i f k = k\<lparr>k_pipes := (k_pipes k)[i := f (k_pipes k ! i)]\<rparr>"

definition park :: "kernel \<Rightarrow> ('a io_result \<times> kernel) option" where
  "park k = map_option (\<lambda>(r, k'). (Blocked r, k')) (block_current Sleeping k)"

definition pipe_read :: "nat \<Rightarrow> nat \<Rightarrow> bool \<Rightarrow> kernel \<Rightarrow> ((vfs_error + u8 list) io_result \<times> kernel) option" where
  "pipe_read i count nonblock k =
     (let pd = k_current k;
          k1 = register_reader_waiter i pd k;
          (res, p') = try_read count (k_pipes k1 ! i);
          k2 = pipe_upd i (\<lambda>_. p') k1 in
      case res of
        Inr bs \<Rightarrow> do {
          let k3 = unregister_reader i pd k2;
          k4 \<leftarrow> (if bs \<noteq> [] then wake_writers i k3 else Some k3);
          Some (Finished (Inr bs), k4)
        }
      | Inl e \<Rightarrow>
          if e = EAGAIN then
            (if nonblock then Some (Finished (Inl EAGAIN), unregister_reader i pd k2) else park k2)
          else Some (Finished (Inl e), k2))"

lemma try_write_progress:
  assumes "try_write data p = (Inr n, p')" "data \<noteq> []"
  shows "0 < n \<and> n \<le> length data"
  using assms by (auto simp: try_write_def Let_def split: if_splits)

function pipe_write_loop ::
    "nat \<Rightarrow> bool \<Rightarrow> u8 list \<Rightarrow> nat \<Rightarrow> kernel \<Rightarrow> ((vfs_error + nat) io_result \<times> kernel) option" where
  "pipe_write_loop i nonblock data written k =
     (if data = [] then Some (Finished (Inr written), k)
      else case try_write data (k_pipes k ! i) of
        (Inr n, p') \<Rightarrow> Option.bind (wake_readers i (pipe_upd i (\<lambda>_. p') k))
          (pipe_write_loop i nonblock (drop n data) (written + n))
      | (Inl e, _) \<Rightarrow>
          if e = EPIPE then
            Some (Finished (if 0 < written then Inr written else Inl EPIPE), send_signal (k_current k) SIGPIPE k)
          else if e = EAGAIN then
            (if nonblock then Some (Finished (if 0 < written then Inr written else Inl EAGAIN), k)
             else park (register_writer_waiter i (k_current k) k))
          else Some (Finished (Inl e), k))"
  by pat_completeness auto

termination
  by (relation "measure (\<lambda>(i, nb, data, w, k). length data)") (auto dest!: try_write_progress [OF sym])

definition pipe_write :: "nat \<Rightarrow> u8 list \<Rightarrow> bool \<Rightarrow> kernel \<Rightarrow> ((vfs_error + nat) io_result \<times> kernel) option" where
  "pipe_write i data nonblock k = pipe_write_loop i nonblock data 0 k"

section \<open>Closing an end\<close>

definition cleanup_if_closed :: "nat \<Rightarrow> kernel \<Rightarrow> kernel" where
  "cleanup_if_closed i k =
     (let g = k_pipes k ! i in if pb_write_closed g \<and> pb_read_closed g then cleanup_waiters i k else k)"

definition pipe_close_write :: "nat \<Rightarrow> kernel \<Rightarrow> kernel option" where
  "pipe_close_write i k = map_option (cleanup_if_closed i) (wake_readers i (pipe_upd i close_write k))"

definition pipe_close_read :: "nat \<Rightarrow> kernel \<Rightarrow> kernel option" where
  "pipe_close_read i k = map_option (cleanup_if_closed i) (wake_writers i (pipe_upd i close_read k))"

definition pipe_dup_inc :: "fd_kind \<Rightarrow> kernel \<Rightarrow> kernel" where
  "pipe_dup_inc kind k =
     (case kind of PipeWrite i \<Rightarrow> pipe_upd i dup_write k | PipeRead i \<Rightarrow> pipe_upd i dup_read k | _ \<Rightarrow> k)"

section \<open>New pipes\<close>

definition make_pipe_inode :: "kernel \<Rightarrow> vfs_inode \<times> kernel" where
  "make_pipe_inode k =
     (\<lparr>i_ino = k_pipe_ino k, i_mode = S_IFIFO OR 0x180, i_uid = 0, i_gid = 0, i_size = 0,
       i_atime = 0, i_mtime = 0, i_ctime = 0, i_sb_dev = 0,
       i_ops = PipeInodeOps\<rparr>, k\<lparr>k_pipe_ino := k_pipe_ino k + 1\<rparr>)"

definition new_pipe :: "kernel \<Rightarrow> (file_descriptor \<times> file_descriptor) \<times> kernel" where
  "new_pipe k =
     (let i = length (k_pipes k);
          k0 = k\<lparr>k_pipes := k_pipes k @ [pipe_new]\<rparr>;
          (ri, k1) = make_pipe_inode k0;
          (wi, k2) = make_pipe_inode k1 in
      ((\<lparr>fd_inode = ri, fd_offset = 0, fd_flags = 0, fd_kind = PipeRead i, fd_path = []\<rparr>,
        \<lparr>fd_inode = wi, fd_offset = 0, fd_flags = 0, fd_kind = PipeWrite i, fd_path = []\<rparr>), k2))"

definition new_pipe2 :: "u32 \<Rightarrow> kernel \<Rightarrow> (file_descriptor \<times> file_descriptor) \<times> kernel" where
  "new_pipe2 flags k =
     (let ((r, w), k') = new_pipe k;
          nb = (\<lambda>f. if flags AND O_NONBLOCK \<noteq> 0 then f\<lparr>fd_flags := fd_flags f OR O_NONBLOCK\<rparr> else f);
          ce = (\<lambda>f. if flags AND O_CLOEXEC \<noteq> 0 then f\<lparr>fd_flags := fd_flags f OR O_CLOEXEC\<rparr> else f) in
      ((ce (nb r), ce (nb w)), k'))"

section \<open>Waking\<close>

lemma wake_all_ok:
  assumes "rqs_inv k"
  shows "\<exists>k'. wake_all ps k = Some k' \<and> rqs_inv k' \<and> (\<forall>q. known q k' = known q k) \<and>
    (\<forall>q. queued q k' \<longleftrightarrow> queued q k \<or> q \<in> set ps \<and> known q k \<and> state_of q k = Some Sleeping) \<and>
    (\<forall>q. bt_get (k_procs k') q = (if q \<in> set ps \<and> state_of q k = Some Sleeping
      then map_option (\<lambda>p. p\<lparr>p_state := Runnable\<rparr>) (bt_get (k_procs k) q) else bt_get (k_procs k) q)) \<and>
    k_pipes k' = k_pipes k \<and> k_pipe_waiters k' = k_pipe_waiters k \<and> k_current k' = k_current k \<and>
    k_groups k' = k_groups k"
  using assms
proof (induction ps arbitrary: k)
  case (Cons p ps)
  obtain k1 where k1: "wake_process p k = Some k1" "rqs_inv k1" "\<forall>q. known q k1 = known q k"
    "\<forall>q. queued q k1 \<longleftrightarrow> queued q k \<or> q = p \<and> known p k \<and> state_of p k = Some Sleeping"
    using wake_process_ok [OF Cons.prems, of p] by blast
  note w = wake_process_procs [OF k1(1)]
  obtain k2 where k2: "wake_all ps k1 = Some k2" "rqs_inv k2" "\<forall>q. known q k2 = known q k1"
    "\<forall>q. queued q k2 \<longleftrightarrow> queued q k1 \<or> q \<in> set ps \<and> known q k1 \<and> state_of q k1 = Some Sleeping"
    "\<forall>q. bt_get (k_procs k2) q = (if q \<in> set ps \<and> state_of q k1 = Some Sleeping
      then map_option (\<lambda>p. p\<lparr>p_state := Runnable\<rparr>) (bt_get (k_procs k1) q) else bt_get (k_procs k1) q)"
    "k_pipes k2 = k_pipes k1" "k_pipe_waiters k2 = k_pipe_waiters k1" "k_current k2 = k_current k1"
    "k_groups k2 = k_groups k1"
    using Cons.IH [OF k1(2)] by blast
  have st: "state_of q k1 = (if q = p \<and> state_of p k = Some Sleeping then Some Runnable else state_of q k)" for q
    using w(1) [of q] by (auto simp: state_of_def with_process_def option.map_comp comp_def split: if_splits)
  show ?case using k1 k2 w st by (auto simp: option.map_comp comp_def)
qed simp

section \<open>What the scheduler leaves of the kernel\<close>

definition rest :: "kernel \<Rightarrow> kernel" where
  "rest k = k\<lparr>k_procs := [], k_rqs := [], k_need_resched := False, k_current := 0\<rparr>"

lemma rest_fields:
  assumes "rest k' = rest k"
  shows "k_pipes k' = k_pipes k" "k_pipe_waiters k' = k_pipe_waiters k" "k_groups k' = k_groups k"
    "k_next_pid k' = k_next_pid k"
proof -
  have "k_pipes (rest k') = k_pipes (rest k)" "k_pipe_waiters (rest k') = k_pipe_waiters (rest k)"
    "k_groups (rest k') = k_groups (rest k)" "k_next_pid (rest k') = k_next_pid (rest k)"
    using assms by simp_all
  then show "k_pipes k' = k_pipes k" "k_pipe_waiters k' = k_pipe_waiters k" "k_groups k' = k_groups k"
    "k_next_pid k' = k_next_pid k" by (simp_all add: rest_def)
qed

lemma rest_simps [simp]:
  "rest (with_process_mut pd f k) = rest k" "rest (request_reschedule k) = rest k" "rest (set_current c k) = rest k"
  "rest (k\<lparr>k_need_resched := d\<rparr>) = rest k" "rest (reset_used pd i k) = rest k" "rest (snd (switch_to a b k)) = rest k"
  by (simp_all add: rest_def with_process_mut_def request_reschedule_def set_current_def reset_used_def switch_to_def
      Let_def split: option.splits)

lemma rest_on_rq: "on_rq i f k = Some k' \<Longrightarrow> rest k' = rest k"
  by (auto simp: on_rq_def rest_def split: option.splits)

lemma rest_sched_enqueue: "sched_enqueue pd k = Some k' \<Longrightarrow> rest k' = rest k"
  by (auto simp: sched_enqueue_def dest: rest_on_rq split: option.splits)

lemma rest_pick_on: "pick_on i k = Some (n, k') \<Longrightarrow> rest k' = rest k"
  by (auto simp: pick_on_def rest_def split: option.splits)

lemma rest_migrate: "migrate pd a b k = Some k' \<Longrightarrow> rest k' = rest k"
  by (auto simp: migrate_def bind_eq_Some_conv dest!: rest_on_rq split: option.splits)

lemma rest_work_steal: "work_steal my k = Some (n, k') \<Longrightarrow> rest k' = rest k"
  by (auto simp: work_steal_def bind_eq_Some_conv dest!: rest_pick_on rest_migrate
      split: option.splits if_splits prod.splits)

lemma rest_schedule:
  assumes "schedule k = Some (r, k')"
  shows "rest k' = rest k"
  using assms
proof (cases rule: schedule_cases)
  case (pick k1 k2 n)
  have sw: "(r, k') = switch_to a b q \<Longrightarrow> rest k' = rest q" for a b q
    using rest_simps(6) [of a b q] by (metis snd_conv)
  have k2: "rest k2 = rest k"
    using pick(1) rest_pick_on [OF pick(2)] by (auto dest: rest_sched_enqueue split: if_splits)
  show ?thesis
  proof (cases n)
    case None
    then obtain st k3 where w: "work_steal (this_cpu k) k2 = Some (st, k3)"
      "case st of Some to \<Rightarrow> (r, k') = switch_to (k_current k) to k3 | None \<Rightarrow> k' = k3"
      using pick(3) by auto
    have "rest k' = rest k3" using w(2) sw by (cases st) auto
    then show ?thesis using rest_work_steal [OF w(1)] k2 by simp
  next
    case (Some to)
    then have "rest k' = rest k2" using pick(3) sw by (cases "to = k_current k") auto
    then show ?thesis using k2 by simp
  qed
qed simp

lemma rest_block: "block_current st k = Some (r, k') \<Longrightarrow> rest k' = rest k"
  unfolding block_current_def by (drule rest_schedule) simp

section \<open>Readers and writers meet\<close>

lemma waiters_simps:
  "waiters i (register_reader_waiter i pd k) = (fst (waiters i k) @ [pd], snd (waiters i k))"
  "waiters i (k\<lparr>k_pipe_waiters := bt_adjust i (\<lambda>(rs, ws). ([], ws)) (k_pipe_waiters k)\<rparr>) = ([], snd (waiters i k))"
  by (auto simp: waiters_def register_reader_waiter_def unwrap_or_def bt_simps split_def split: option.splits)

lemma waiters_same: "k_pipe_waiters k' = k_pipe_waiters k \<Longrightarrow> waiters i k' = waiters i k"
  by (simp add: waiters_def)

lemma sched_views_same:
  assumes "k_rqs k' = k_rqs k"
  shows "rqs_inv k' = rqs_inv k" "known q k' = known q k" "queued q k' = queued q k"
  using assms by (simp_all add: rqs_inv_def known_def queued_def queue_at_def entity_at_def)

lemma wake_readers_ok:
  assumes "rqs_inv k"
  obtains k' where "wake_readers i k = Some k'" "rqs_inv k'" "k_pipes k' = k_pipes k" "fst (waiters i k') = []"
    "\<And>q. q \<in> set (fst (waiters i k)) \<Longrightarrow> known q k \<Longrightarrow> state_of q k = Some Sleeping \<Longrightarrow>
      queued q k' \<and> state_of q k' = Some Runnable"
proof -
  let ?k = "k\<lparr>k_pipe_waiters := bt_adjust i (\<lambda>(rs, ws). ([], ws)) (k_pipe_waiters k)\<rparr>"
  have v: "rqs_inv ?k" "known q ?k = known q k" "state_of q ?k = state_of q k" for q
    using assms sched_views_same [of ?k k] by (simp_all add: state_of_def with_process_def)
  obtain k' where k': "wake_all (fst (waiters i k)) ?k = Some k'" "rqs_inv k'"
    "\<forall>q. queued q k' \<longleftrightarrow> queued q ?k \<or> q \<in> set (fst (waiters i k)) \<and> known q ?k \<and> state_of q ?k = Some Sleeping"
    "\<forall>q. bt_get (k_procs k') q = (if q \<in> set (fst (waiters i k)) \<and> state_of q ?k = Some Sleeping
      then map_option (\<lambda>p. p\<lparr>p_state := Runnable\<rparr>) (bt_get (k_procs ?k) q) else bt_get (k_procs ?k) q)"
    "k_pipes k' = k_pipes ?k" "k_pipe_waiters k' = k_pipe_waiters ?k"
    using wake_all_ok [OF v(1), of "fst (waiters i k)"] by blast
  show thesis
  proof (rule that [of k'])
    show "wake_readers i k = Some k'" using k'(1) by (simp add: wake_readers_def)
    show "fst (waiters i k') = []" using waiters_same [OF k'(6)] waiters_simps(2) by simp
    show "queued q k' \<and> state_of q k' = Some Runnable"
      if "q \<in> set (fst (waiters i k))" "known q k" "state_of q k = Some Sleeping" for q
      using that v k'(3,4) by (auto simp: state_of_def with_process_def)
  qed (use k' in simp_all)
qed

lemma pipe_read_Blocked:
  assumes "pipe_inv (k_pipes k ! i)" "pipe_read i n nb k = Some (Blocked r, k1)"
  shows "contents (k_pipes k ! i) = []" "\<not> pb_write_closed (k_pipes k ! i)" "k_pipes k1 = k_pipes k"
    "k_current k \<in> set (fst (waiters i k1))" "\<not> nb"
proof -
  let ?k = "register_reader_waiter i (k_current k) k"
  obtain res p' where t: "try_read n (k_pipes k ! i) = (res, p')" by fastforce
  have pk: "k_pipes ?k = k_pipes k" by (simp add: register_reader_waiter_def Let_def split_def)
  have e: "res = Inl EAGAIN"
    using assms(2) t by (auto simp: pipe_read_def Let_def pk split: sum.splits if_splits simp: bind_eq_Some_conv)
  then show c: "contents (k_pipes k ! i) = []" "\<not> pb_write_closed (k_pipes k ! i)"
    using try_read_ok(1) [OF assms(1), of n] t by (auto split: if_splits)
  have p': "p' = k_pipes k ! i" using t c(1) by (auto simp: try_read_def contents_def)
  then have same: "pipe_upd i (\<lambda>_. p') ?k = ?k" by (simp add: pipe_upd_def pk)
  show "\<not> nb" using assms(2) t e by (auto simp: pipe_read_def Let_def pk)
  then have "(park ?k :: ((vfs_error + u8 list) io_result \<times> kernel) option) = Some (Blocked r, k1)"
    using assms(2) t e same by (simp add: pipe_read_def Let_def pk)
  then obtain r' where b: "block_current Sleeping ?k = Some (r', k1)" by (auto simp: park_def)
  note f = rest_fields [OF rest_block [OF b]]
  show "k_pipes k1 = k_pipes k" using f(1) pk by simp
  have "waiters i k1 = waiters i ?k" using f(2) by (rule waiters_same)
  then show "k_current k \<in> set (fst (waiters i k1))" by (simp add: waiters_simps)
qed

lemma wake_writers_returns: "rqs_inv k \<Longrightarrow> \<exists>k'. wake_writers i k = Some k'"
  unfolding wake_writers_def
  using wake_all_ok [of "k\<lparr>k_pipe_waiters := bt_adjust i (\<lambda>(rs, ws). (rs, [])) (k_pipe_waiters k)\<rparr>" "snd (waiters i k)"]
    sched_views_same(1) [of "k\<lparr>k_pipe_waiters := bt_adjust i (\<lambda>(rs, ws). (rs, [])) (k_pipe_waiters k)\<rparr>" k]
  by auto

lemma pipe_read_data:
  assumes "rqs_inv k" "i < length (k_pipes k)" "pipe_inv (k_pipes k ! i)" "contents (k_pipes k ! i) \<noteq> []"
  shows "\<exists>k'. pipe_read i n nb k = Some (Finished (Inr (take n (contents (k_pipes k ! i)))), k')"
proof -
  let ?k = "register_reader_waiter i (k_current k) k"
  obtain p' where t: "try_read n (k_pipes k ! i) = (Inr (take n (contents (k_pipes k ! i))), p')"
    using try_read_ok(1) [OF assms(3), of n] assms(4) by (cases "try_read n (k_pipes k ! i)") simp
  have pk: "k_pipes ?k = k_pipes k" by (simp add: register_reader_waiter_def Let_def split_def)
  let ?k3 = "unregister_reader i (k_current k) (pipe_upd i (\<lambda>_. p') ?k)"
  have "k_rqs ?k3 = k_rqs k"
    by (simp add: unregister_reader_def pipe_upd_def register_reader_waiter_def Let_def split_def)
  then have "rqs_inv ?k3" using assms(1) sched_views_same(1) by blast
  then obtain k4 where "wake_writers i ?k3 = Some k4" using wake_writers_returns by blast
  then show ?thesis using t by (simp add: pipe_read_def Let_def pk)
qed

lemma pipe_write_fits:
  assumes inv: "rqs_inv k" and i: "i < length (k_pipes k)" and p: "pipe_inv (k_pipes k ! i)"
    and op: "\<not> pb_read_closed (k_pipes k ! i)" and d: "data \<noteq> []"
    and fits: "length data + length (contents (k_pipes k ! i)) \<le> PIPE_CAPACITY"
  obtains k' where "pipe_write i data nb k = Some (Finished (Inr (length data)), k')" "rqs_inv k'"
    "contents (k_pipes k' ! i) = contents (k_pipes k ! i) @ data" "pipe_inv (k_pipes k' ! i)"
    "length (k_pipes k') = length (k_pipes k)" "fst (waiters i k') = []"
    "\<And>q. q \<in> set (fst (waiters i k)) \<Longrightarrow> known q k \<Longrightarrow> state_of q k = Some Sleeping \<Longrightarrow>
      queued q k' \<and> state_of q k' = Some Runnable"
proof -
  have lt: "length (contents (k_pipes k ! i)) < PIPE_CAPACITY" using d fits by (cases data) simp_all
  have "min (length data) (PIPE_CAPACITY - length (contents (k_pipes k ! i))) = length data" using fits by simp
  then obtain p' where t: "try_write data (k_pipes k ! i) = (Inr (length data), p')"
    using try_write_ok(1) [OF p, of data] op lt by (cases "try_write data (k_pipes k ! i)") simp
  have c: "contents p' = contents (k_pipes k ! i) @ data" "pipe_inv p'"
    using try_write_ok [OF p, of data] t op lt fits by auto
  let ?k = "pipe_upd i (\<lambda>_. p') k"
  have v: "rqs_inv ?k" "known q ?k = known q k" "state_of q ?k = state_of q k" "waiters i ?k = waiters i k" for q
    using inv sched_views_same [of ?k k] waiters_same [of ?k k]
    by (simp_all add: state_of_def with_process_def pipe_upd_def)
  obtain k' where w: "wake_readers i ?k = Some k'" "rqs_inv k'" "k_pipes k' = k_pipes ?k" "fst (waiters i k') = []"
    "\<And>q. q \<in> set (fst (waiters i ?k)) \<Longrightarrow> known q ?k \<Longrightarrow> state_of q ?k = Some Sleeping \<Longrightarrow>
      queued q k' \<and> state_of q k' = Some Runnable"
    using wake_readers_ok [OF v(1), of i] by metis
  show thesis
  proof (rule that [OF _ w(2)])
    show "pipe_write i data nb k = Some (Finished (Inr (length data)), k')"
      using d t w(1) by (simp add: pipe_write_def)
  qed (use c i w v in \<open>simp_all add: pipe_upd_def\<close>)
qed

lemma pipe_read_empty:
  assumes "rqs_inv k" "k_pipes k ! i = pipe_new"
  shows "\<exists>r k1. pipe_read i n False k = Some (Blocked r, k1)"
proof -
  let ?k = "register_reader_waiter i (k_current k) k"
  have pk: "k_pipes ?k = k_pipes k" "k_rqs ?k = k_rqs k" by (simp_all add: register_reader_waiter_def Let_def split_def)
  have t: "try_read n pipe_new = (Inl EAGAIN, pipe_new)" by (simp add: try_read_def pipe_new_def)
  let ?b = "request_reschedule (with_process_mut (k_current ?k) (\<lambda>p. p\<lparr>p_state := Sleeping\<rparr>) (pipe_upd i (\<lambda>_. pipe_new) ?k))"
  have "rqs_inv ?b" using assms(1) sched_views_same(1) [of ?b k] pk by (simp add: pipe_upd_def)
  then obtain r k1 where "schedule ?b = Some (r, k1)" using schedule_ok by blast
  then show ?thesis using t assms(2) by (simp add: pipe_read_def Let_def pk park_def block_current_def pipe_upd_def)
qed



end
