(* ===== verification/Fd_Table.thy ===== *)
theory Fd_Table
  imports Pipe_Ipc
begin

text \<open>
  File descriptor tables: the helpers of \<open>Process\<close> (process/mod.rs), which go to the
  shared table of the thread group when there is one, and the system calls close, dup,
  dup2, dup3, pipe, pipe2, fcntl and umask (syscall/handlers.rs).  A helper that changes
  a table maps the process and the store of thread groups to their new values.  A search
  for a free number that never ends has the value None.
\<close>

section \<open>Helpers of a process\<close>

definition MAX_FDS :: nat where "MAX_FDS = 1024"

definition fd_table_of :: "process \<Rightarrow> thread_group list \<Rightarrow> fd_table" where
  "fd_table_of p gs = (case p_thread_group p of Some g \<Rightarrow> tg_fds (gs ! g) | None \<Rightarrow> p_fds p)"

definition fd_table_upd ::
    "(fd_table \<Rightarrow> fd_table) \<Rightarrow> process \<Rightarrow> thread_group list \<Rightarrow> process \<times> thread_group list" where
  "fd_table_upd f p gs =
     (case p_thread_group p of
        Some g \<Rightarrow> (p, gs[g := (gs ! g)\<lparr>tg_fds := f (tg_fds (gs ! g))\<rparr>])
      | None \<Rightarrow> (p\<lparr>p_fds := f (p_fds p)\<rparr>, gs))"

partial_function (option) free_fd :: "fd_table \<Rightarrow> u32 \<Rightarrow> u32 option" where
  "free_fd fds n =
     (if bt_get fds n = None then Some n
      else free_fd fds (if MAX_FDS \<le> unat (n + 1) then 3 else n + 1))"

definition next_fd_of :: "process \<Rightarrow> thread_group list \<Rightarrow> u32" where
  "next_fd_of p gs = (case p_thread_group p of Some g \<Rightarrow> tg_next_fd (gs ! g) | None \<Rightarrow> p_next_fd p)"

definition next_fd_set :: "u32 \<Rightarrow> process \<Rightarrow> thread_group list \<Rightarrow> process \<times> thread_group list" where
  "next_fd_set n p gs =
     (case p_thread_group p of
        Some g \<Rightarrow> (p, gs[g := (gs ! g)\<lparr>tg_next_fd := n\<rparr>])
      | None \<Rightarrow> (p\<lparr>p_next_fd := n\<rparr>, gs))"

definition alloc_fd ::
    "file_descriptor \<Rightarrow> process \<Rightarrow> thread_group list \<Rightarrow> (u32 \<times> process \<times> thread_group list) option" where
  "alloc_fd fd p gs = do {
     n \<leftarrow> free_fd (fd_table_of p gs) (next_fd_of p gs);
     let (p1, gs1) = next_fd_set (n + 1) p gs;
     Some (n, fd_table_upd (bt_insert n fd) p1 gs1)
   }"

definition alloc_fd_at ::
    "u32 \<Rightarrow> file_descriptor \<Rightarrow> process \<Rightarrow> thread_group list \<Rightarrow> u32 \<times> process \<times> thread_group list" where
  "alloc_fd_at n fd p gs = (n, fd_table_upd (bt_insert n fd) p gs)"

definition get_fd :: "u32 \<Rightarrow> process \<Rightarrow> thread_group list \<Rightarrow> file_descriptor option" where
  "get_fd n p gs = bt_get (fd_table_of p gs) n"

definition get_fd_mut_op ::
    "u32 \<Rightarrow> (file_descriptor \<Rightarrow> file_descriptor) \<Rightarrow> process \<Rightarrow> thread_group list \<Rightarrow> process \<times> thread_group list" where
  "get_fd_mut_op n f p gs = fd_table_upd (bt_adjust n f) p gs"

definition close_fd :: "u32 \<Rightarrow> process \<Rightarrow> thread_group list \<Rightarrow> bool \<times> process \<times> thread_group list" where
  "close_fd n p gs = (bt_get (fd_table_of p gs) n \<noteq> None, fd_table_upd (bt_remove n) p gs)"

definition fd_keys :: "process \<Rightarrow> thread_group list \<Rightarrow> u32 list" where
  "fd_keys p gs = bt_keys (fd_table_of p gs)"

definition get_cwd :: "process \<Rightarrow> thread_group list \<Rightarrow> string" where
  "get_cwd p gs = (case p_thread_group p of Some g \<Rightarrow> tg_cwd (gs ! g) | None \<Rightarrow> p_cwd p)"

definition set_cwd :: "string \<Rightarrow> process \<Rightarrow> thread_group list \<Rightarrow> process \<times> thread_group list" where
  "set_cwd d p gs =
     (case p_thread_group p of Some g \<Rightarrow> (p, gs[g := (gs ! g)\<lparr>tg_cwd := d\<rparr>]) | None \<Rightarrow> (p\<lparr>p_cwd := d\<rparr>, gs))"

definition get_root :: "process \<Rightarrow> thread_group list \<Rightarrow> string" where
  "get_root p gs = (case p_thread_group p of Some g \<Rightarrow> tg_root (gs ! g) | None \<Rightarrow> p_root p)"

definition set_root :: "string \<Rightarrow> process \<Rightarrow> thread_group list \<Rightarrow> process \<times> thread_group list" where
  "set_root d p gs =
     (case p_thread_group p of Some g \<Rightarrow> (p, gs[g := (gs ! g)\<lparr>tg_root := d\<rparr>]) | None \<Rightarrow> (p\<lparr>p_root := d\<rparr>, gs))"

definition get_sig_action :: "nat \<Rightarrow> process \<Rightarrow> thread_group list \<Rightarrow> sig_action" where
  "get_sig_action sig p gs =
     (case p_thread_group p of Some g \<Rightarrow> tg_sig_actions (gs ! g) ! sig | None \<Rightarrow> p_sig_actions p ! sig)"

definition set_sig_action :: "nat \<Rightarrow> sig_action \<Rightarrow> process \<Rightarrow> thread_group list \<Rightarrow> process \<times> thread_group list" where
  "set_sig_action sig a p gs =
     (case p_thread_group p of
        Some g \<Rightarrow> (p, gs[g := (gs ! g)\<lparr>tg_sig_actions := (tg_sig_actions (gs ! g))[sig := a]\<rparr>])
      | None \<Rightarrow> (p\<lparr>p_sig_actions := (p_sig_actions p)[sig := a]\<rparr>, gs))"

definition tgid :: "process \<Rightarrow> thread_group list \<Rightarrow> pid" where
  "tgid p gs = (case p_thread_group p of Some g \<Rightarrow> tg_tgid (gs ! g) | None \<Rightarrow> p_pid p)"

section \<open>The table of the current process\<close>

text \<open>\<open>with_current_mut\<close> with a helper that may change the store of thread groups.\<close>

definition put_current :: "process \<times> thread_group list \<Rightarrow> kernel \<Rightarrow> kernel" where
  "put_current x k = (with_process_mut (k_current k) (\<lambda>_. fst x) k)\<lparr>k_groups := snd x\<rparr>"

definition current_fd :: "u32 \<Rightarrow> kernel \<Rightarrow> file_descriptor option" where
  "current_fd n k = Option.bind (bt_get (k_procs k) (k_current k)) (\<lambda>p. get_fd n p (k_groups k))"

definition current_op ::
    "(process \<Rightarrow> thread_group list \<Rightarrow> process \<times> thread_group list) \<Rightarrow> kernel \<Rightarrow> kernel" where
  "current_op f k =
     (case bt_get (k_procs k) (k_current k) of None \<Rightarrow> k | Some p \<Rightarrow> put_current (f p (k_groups k)) k)"

definition current_alloc_fd :: "file_descriptor \<Rightarrow> kernel \<Rightarrow> (u32 option \<times> kernel) option" where
  "current_alloc_fd fd k =
     (case bt_get (k_procs k) (k_current k) of
        None \<Rightarrow> Some (None, k)
      | Some p \<Rightarrow> map_option (\<lambda>(n, x). (Some n, put_current x k)) (alloc_fd fd p (k_groups k)))"

section \<open>System calls\<close>

definition close_end :: "fd_kind \<Rightarrow> kernel \<Rightarrow> kernel option" where
  "close_end kind k =
     (case kind of PipeWrite i \<Rightarrow> pipe_close_write i k | PipeRead i \<Rightarrow> pipe_close_read i k | _ \<Rightarrow> Some k)"

definition sys_close :: "u32 \<Rightarrow> kernel \<Rightarrow> (int \<times> kernel) option" where
  "sys_close fd k =
     (case current_fd fd k of
        None \<Rightarrow> Some (-9, k)
      | Some f \<Rightarrow> map_option (Pair 0) (close_end (fd_kind f) (current_op (\<lambda>p gs. snd (close_fd fd p gs)) k)))"

definition sys_dup :: "u32 \<Rightarrow> kernel \<Rightarrow> (int \<times> kernel) option" where
  "sys_dup fd k =
     (case current_fd fd k of
        None \<Rightarrow> Some (-9, k)
      | Some f \<Rightarrow> map_option (\<lambda>(n, k'). (uint (unwrap_or n 0), pipe_dup_inc (fd_kind f) k')) (current_alloc_fd f k))"

definition sys_dup2 :: "i32 \<Rightarrow> i32 \<Rightarrow> kernel \<Rightarrow> (int \<times> kernel) option" where
  "sys_dup2 old new k =
     (if old = new then Some (if current_fd old k \<noteq> None then sint new else -9, k)
      else case current_fd old k of
        None \<Rightarrow> Some (-9, k)
      | Some src \<Rightarrow> do {
          k1 \<leftarrow> (case current_fd new k of None \<Rightarrow> Some k | Some f \<Rightarrow> close_end (fd_kind f) k);
          let k2 = current_op (\<lambda>p gs. snd (alloc_fd_at new src p gs)) k1;
          Some (sint new, pipe_dup_inc (fd_kind src) k2)
        })"

definition sys_dup3 :: "i32 \<Rightarrow> i32 \<Rightarrow> i32 \<Rightarrow> kernel \<Rightarrow> (int \<times> kernel) option" where
  "sys_dup3 old new flags k =
     (if old = new then Some (-22, k)
      else map_option (\<lambda>(r, k'). (r,
          if 0 \<le> r \<and> flags AND O_CLOEXEC \<noteq> 0
          then current_op (get_fd_mut_op new (\<lambda>f. f\<lparr>fd_flags := fd_flags f OR O_CLOEXEC\<rparr>)) k' else k'))
        (sys_dup2 old new k))"

definition user_ptr_bad :: "u64 \<Rightarrow> bool" where
  "user_ptr_bad a = (a = 0 \<or> 0x800000000000 \<le> a)"

definition user_write :: "u64 \<Rightarrow> u32 \<Rightarrow> kernel \<Rightarrow> kernel" where
  "user_write a v k =
     k\<lparr>k_user_writes := k_user_writes k @ [(unwrap_or (with_process (k_current k) p_pml4 k) 0, a, v)]\<rparr>"

definition install_pipe ::
    "u64 \<Rightarrow> (file_descriptor \<times> file_descriptor) \<times> kernel \<Rightarrow> (int \<times> kernel) option" where
  "install_pipe fds x =
     (case x of ((r, w), k) \<Rightarrow> do {
        (rfd, k1) \<leftarrow> current_alloc_fd r k;
        (wfd, k2) \<leftarrow> current_alloc_fd w k1;
        Some (0, user_write (fds + 4) (unwrap_or wfd 0) (user_write fds (unwrap_or rfd 0) k2))
      })"

definition sys_pipe :: "u64 \<Rightarrow> kernel \<Rightarrow> (int \<times> kernel) option" where
  "sys_pipe fds k = (if user_ptr_bad fds then Some (-14, k) else install_pipe fds (new_pipe k))"

definition sys_pipe2 :: "u64 \<Rightarrow> u32 \<Rightarrow> kernel \<Rightarrow> (int \<times> kernel) option" where
  "sys_pipe2 fds flags k = (if user_ptr_bad fds then Some (-14, k) else install_pipe fds (new_pipe2 flags k))"

definition sys_fcntl :: "u32 \<Rightarrow> i32 \<Rightarrow> u64 \<Rightarrow> kernel \<Rightarrow> (int \<times> kernel) option" where
  "sys_fcntl fd cmd arg k =
     (if cmd = 0 \<or> cmd = 1030 then
        (case current_fd fd k of
           None \<Rightarrow> Some (-9, k)
         | Some f \<Rightarrow> do {
             (n, k1) \<leftarrow> current_alloc_fd f k;
             let k2 = pipe_dup_inc (fd_kind f) k1;
             Some (uint (unwrap_or n 0),
               if cmd = 1030
               then current_op (get_fd_mut_op (unwrap_or n 0) (\<lambda>f. f\<lparr>fd_flags := fd_flags f OR O_CLOEXEC\<rparr>)) k2
               else k2)
           })
      else if cmd = 1 then
        Some (case current_fd fd k of None \<Rightarrow> -9 | Some f \<Rightarrow> sint (fd_flags f AND O_CLOEXEC), k)
      else if cmd = 2 then
        Some (0, current_op (get_fd_mut_op fd (\<lambda>f. f\<lparr>fd_flags :=
          if arg AND 1 \<noteq> 0 then fd_flags f OR O_CLOEXEC else fd_flags f AND NOT O_CLOEXEC\<rparr>)) k)
      else if cmd = 3 then
        Some (case current_fd fd k of None \<Rightarrow> -9 | Some f \<Rightarrow> sint (fd_flags f), k)
      else if cmd = 4 then
        Some (0, current_op (get_fd_mut_op fd (\<lambda>f. f\<lparr>fd_flags :=
          (fd_flags f AND NOT 0x2001FF) OR (ucast arg AND 0x2001FF)\<rparr>)) k)
      else if cmd \<in> {5, 6, 7, 8, 9} then Some (0, k)
      else Some (-22, k))"

definition sys_umask :: "u32 \<Rightarrow> kernel \<Rightarrow> int \<times> kernel" where
  "sys_umask m k =
     (case bt_get (k_procs k) (k_current k) of
        None \<Rightarrow> (18, k)
      | Some p \<Rightarrow> (uint (p_umask p), with_process_mut (k_current k) (\<lambda>p. p\<lparr>p_umask := m AND 0x1FF\<rparr>) k))"

section \<open>Free descriptor numbers\<close>

lemma free_fd_least:
  assumes "n \<le> m" "unat m < MAX_FDS" "bt_get fds m = None"
  shows "\<exists>r. free_fd fds n = Some r \<and> bt_get fds r = None \<and> n \<le> r \<and> r \<le> m"
  using assms
proof (induction "unat m - unat n" arbitrary: n)
  case 0
  then have "n = m" by (simp add: word_le_nat_alt word_unat_eq_iff)
  then show ?case using 0 by (subst free_fd.simps) simp
next
  case (Suc d)
  show ?case
  proof (cases "bt_get fds n = None")
    case False
    then have ne: "n \<noteq> m" using Suc.prems(3) by auto
    then have lt: "unat n < unat m" using Suc.prems(1) by (simp add: word_le_nat_alt word_unat_eq_iff)
    then have u: "unat (n + 1) = Suc (unat n)" using u32_unat_Suc [of n] Suc.prems(2) by (simp add: MAX_FDS_def)
    have "\<exists>r. free_fd fds (n + 1) = Some r \<and> bt_get fds r = None \<and> n + 1 \<le> r \<and> r \<le> m"
      using Suc.hyps(1) [of "n + 1"] Suc.hyps(2) Suc.prems(2,3) u lt by (simp add: word_le_nat_alt)
    moreover have "\<not> MAX_FDS \<le> unat (n + 1)" using u lt Suc.prems(2) by simp
    moreover have "n + 1 \<le> r \<Longrightarrow> n \<le> r" for r using u by (simp add: word_le_nat_alt)
    ultimately show ?thesis using False by (subst free_fd.simps) auto
  qed (use Suc.prems in \<open>subst free_fd.simps; simp\<close>)
qed

lemma free_fd_wraps:
  assumes "bt_get fds n \<noteq> None" "\<And>m. n \<le> m \<Longrightarrow> unat m < MAX_FDS \<Longrightarrow> bt_get fds m \<noteq> None"
    and "unat n + 1 < 2 ^ 32"
  shows "free_fd fds n = free_fd fds 3"
  using assms
proof (induction "MAX_FDS - unat n" arbitrary: n rule: less_induct)
  case less
  have u: "unat (n + 1) = unat n + 1" using less.prems(3) by (rule u32_unat_Suc)
  have step: "free_fd fds n = free_fd fds (if MAX_FDS \<le> unat (n + 1) then 3 else n + 1)"
    using less.prems(1) by (subst free_fd.simps) auto
  show ?case
  proof (cases "MAX_FDS \<le> unat (n + 1)")
    case False
    have le: "n \<le> m" if "n + 1 \<le> m" for m using that u by (simp add: word_le_nat_alt)
    have "free_fd fds (n + 1) = free_fd fds 3"
    proof (rule less.hyps)
      show "MAX_FDS - unat (n + 1) < MAX_FDS - unat n" using False u by simp
      show "bt_get fds (n + 1) \<noteq> None" using less.prems(2) [of "n + 1"] le False by simp
      show "bt_get fds m \<noteq> None" if "n + 1 \<le> m" "unat m < MAX_FDS" for m using less.prems(2) that le by blast
      show "unat (n + 1) + 1 < 2 ^ 32" using False u by (simp add: MAX_FDS_def)
    qed
    then show ?thesis using step False by simp
  qed (use step in simp)
qed

text \<open>Allocating a descriptor returns a number that was not in use, as long as one of the numbers from 3
  to 1023 is free; the search starts at the stored position and wraps around once.\<close>

theorem alloc_fd_returns_free:
  assumes "3 \<le> m" "unat m < MAX_FDS" "get_fd m p gs = None" "unat (next_fd_of p gs) + 1 < 2 ^ 32"
  shows "\<exists>n p' gs'. alloc_fd fd p gs = Some (n, p', gs') \<and> get_fd n p gs = None"
proof -
  let ?t = "fd_table_of p gs" and ?n = "next_fd_of p gs"
  have m: "bt_get ?t m = None" using assms(3) by (simp add: get_fd_def)
  have "\<exists>r. free_fd ?t ?n = Some r \<and> bt_get ?t r = None"
  proof (cases "bt_get ?t ?n = None \<or> (\<exists>m\<ge>?n. unat m < MAX_FDS \<and> bt_get ?t m = None)")
    case True
    then show ?thesis using free_fd_least by (metis free_fd.simps)
  next
    case False
    then have "free_fd ?t ?n = free_fd ?t 3" by (intro free_fd_wraps [OF _ _ assms(4)]) auto
    then show ?thesis using free_fd_least [OF assms(1,2) m] by auto
  qed
  then show ?thesis by (auto simp: alloc_fd_def get_fd_def split: prod.split)
qed

theorem alloc_fd_returns_free_witness:
  "\<exists>n p' gs'. alloc_fd \<lparr>fd_inode = fst (make_pipe_inode (kernel_boot 1)), fd_offset = 0, fd_flags = 0,
     fd_kind = Regular, fd_path = []\<rparr> (process_new_kernel 1 0 0 0) [] = Some (n, p', gs')"
  using alloc_fd_returns_free [of 3 "process_new_kernel 1 0 0 0" "[]"]
  by (simp add: get_fd_def fd_table_of_def next_fd_of_def process_new_kernel_def MAX_FDS_def)

text \<open>The limit on descriptors is not enforced.  After the numbers up to 1023 have been handed out
  the stored position is 1024, which is free, so the next descriptor gets the number 1024;
  and so on for every following number.\<close>

theorem alloc_fd_ignores_limit:
  assumes "p_thread_group p = None" "MAX_FDS \<le> unat (p_next_fd p)" "bt_get (p_fds p) (p_next_fd p) = None"
  shows "alloc_fd fd p gs =
    Some (p_next_fd p, p\<lparr>p_fds := bt_insert (p_next_fd p) fd (p_fds p), p_next_fd := p_next_fd p + 1\<rparr>, gs)"
  using assms
  by (simp add: alloc_fd_def fd_table_of_def next_fd_of_def next_fd_set_def fd_table_upd_def free_fd.simps [of _ "p_next_fd p"])

theorem alloc_fd_ignores_limit_witness:
  "\<exists>p gs fd p'. alloc_fd fd p gs = Some (1024, p', gs)"
proof -
  let ?p = "(process_new_kernel 1 0 0 0)\<lparr>p_next_fd := 1024\<rparr>"
  have "p_thread_group ?p = None" "MAX_FDS \<le> unat (p_next_fd ?p)" "bt_get (p_fds ?p) (p_next_fd ?p) = None"
    by (simp_all add: process_new_kernel_def MAX_FDS_def)
  note alloc_fd_ignores_limit [OF this]
  moreover have "p_next_fd ?p = 1024" by simp
  ultimately have "\<exists>p'. alloc_fd fd ?p [] = Some (1024, p', [])" for fd by metis
  then show ?thesis by blast
qed

end
