(* ===== verification/Process_Life.thy ===== *)
theory Process_Life
  imports Fd_Table
begin

text \<open>
  The life of a process (process/mod.rs and the calls of syscall/handlers.rs and
  abi_compat/syscall/mod.rs that use it): process identifiers, spawn, fork, clone, exec,
  exit, wait.  Page tables are outside the model: the copy of an address space made by
  fork, the address of a fresh kernel stack and the question whether a user address is
  mapped are arguments.
\<close>

section \<open>Process identifiers\<close>

definition MAX_PIDS :: nat where "MAX_PIDS = 65536"

partial_function (option) alloc_pid_loop ::
    "pid \<Rightarrow> (pid, process) btree \<Rightarrow> pid \<Rightarrow> (pid option \<times> pid) option" where
  "alloc_pid_loop start procs next =
     (let next' = (if MAX_PIDS \<le> unat next then 2 else next + 1) in
      if bt_get procs next = None then Some (Some next, next')
      else if next' = start then Some (None, next')
      else alloc_pid_loop start procs next')"

definition alloc_pid :: "kernel \<Rightarrow> (pid option \<times> kernel) option" where
  "alloc_pid k =
     map_option (\<lambda>(r, n). (r, k\<lparr>k_next_pid := n\<rparr>)) (alloc_pid_loop (k_next_pid k) (k_procs k) (k_next_pid k))"

section \<open>New processes\<close>

text \<open>The boot of the table: process 1 is the idle thread.  No identifier is a panic, None.\<close>

definition process_init :: "u64 \<Rightarrow> u64 \<Rightarrow> u64 \<Rightarrow> kernel \<Rightarrow> kernel option" where
  "process_init entry rsp pml4 k =
     Option.bind (alloc_pid k) (\<lambda>(r, k1). case r of
        None \<Rightarrow> None
      | Some pd \<Rightarrow> Some (k1\<lparr>k_procs := bt_insert pd (process_new_kernel pd entry rsp pml4) (k_procs k1),
          k_current := pd\<rparr>))"

definition add_child :: "pid \<Rightarrow> process \<Rightarrow> process" where
  "add_child c p = p\<lparr>p_children := p_children p @ [c]\<rparr>"

definition spawn_as :: "pid \<Rightarrow> process \<Rightarrow> kernel \<Rightarrow> kernel" where
  "spawn_as pd proc k =
     (let proc1 = proc\<lparr>p_pid := pd\<rparr>;
          k1 = (if p_ppid proc \<noteq> 0 \<and> p_ppid proc \<noteq> pd
                then with_process_mut (p_ppid proc) (\<lambda>q. if pd \<in> set (p_children q) then q else add_child pd q) k
                else k) in
      k1\<lparr>k_procs := bt_insert pd proc1 (k_procs k1)\<rparr>)"

definition spawn :: "process \<Rightarrow> kernel \<Rightarrow> (pid \<times> kernel) option" where
  "spawn proc k =
     (if p_pid proc \<noteq> 0 \<and> bt_get (k_procs k) (p_pid proc) = None
      then Some (p_pid proc, spawn_as (p_pid proc) proc k)
      else map_option (\<lambda>(r, k1). case r of None \<Rightarrow> (0, k1) | Some pd \<Rightarrow> (pd, spawn_as pd proc k1)) (alloc_pid k))"

text \<open>
  Fork.  \<open>copy\<close> is \<open>copy_on_fork\<close> of the parent's address space, \<open>kst\<close> the aligned top of
  the new kernel stack; the saved frame on that stack is not modelled.
\<close>

definition fork_child :: "pid \<Rightarrow> u64 \<Rightarrow> u64 \<Rightarrow> process \<Rightarrow> kernel \<Rightarrow> process" where
  "fork_child child_pid child_as kst parent k =
     parent\<lparr>p_pid := child_pid, p_ppid := k_current k, p_thread_group := None, p_state := Runnable,
       p_context := \<lparr>cx_rbx = 0, cx_rbp = 0, cx_r12 = 0, cx_r13 = 0, cx_r14 = 0, cx_r15 = 0,
         cx_rsp = kst - 136 - 8 - 48, cx_rip = 0, cx_rflags = 0\<rparr>,
       p_sleep_until := 0, p_pml4 := child_as,
       p_fds := fd_table_of parent (k_groups k), p_next_fd := next_fd_of parent (k_groups k),
       p_cwd := get_cwd parent (k_groups k), p_sig_pending := 0, p_exit_code := 0, p_children := [],
       p_start_time := k_ticks k, p_clear_child_tid := 0\<rparr>"

definition dup_all :: "fd_table \<Rightarrow> kernel \<Rightarrow> kernel" where
  "dup_all fds k = fold (\<lambda>(_, fd). pipe_dup_inc (fd_kind fd)) fds k"

definition fork_current :: "(u64 \<Rightarrow> u64 option) \<Rightarrow> u64 \<Rightarrow> kernel \<Rightarrow> (pid option \<times> kernel) option" where
  "fork_current copy kst k =
     map_option (\<lambda>(r, k1).
       case r of None \<Rightarrow> (None, k1)
       | Some child_pid \<Rightarrow>
           (case bt_get (k_procs k1) (k_current k1) of None \<Rightarrow> (None, k1)
            | Some parent \<Rightarrow>
                (case copy (p_pml4 parent) of None \<Rightarrow> (None, k1)
                 | Some child_as \<Rightarrow>
                     let k2 = dup_all (fd_table_of parent (k_groups k1)) k1;
                         child = fork_child child_pid child_as kst parent k2;
                         k3 = with_process_mut (k_current k2) (add_child child_pid) k2 in
                     (Some child_pid, k3\<lparr>k_procs := bt_insert child_pid child (k_procs k3)\<rparr>))))
       (alloc_pid k)"

definition sys_fork :: "(u64 \<Rightarrow> u64 option) \<Rightarrow> u64 \<Rightarrow> kernel \<Rightarrow> (int \<times> kernel) option" where
  "sys_fork copy kst k = do {
     (r, k1) \<leftarrow> fork_current copy kst k;
     case r of
       None \<Rightarrow> Some (-12, k1)
     | Some child \<Rightarrow> map_option (\<lambda>k2. (uint child, request_reschedule k2)) (add_task child PRIO_NORMAL SCHED_NORMAL k1)
   }"

text \<open>A new thread shares the descriptor table of its group.\<close>

definition thread_group_new :: "pid \<Rightarrow> string \<Rightarrow> thread_group" where
  "thread_group_new tg cwd = \<lparr>tg_tgid = tg, tg_fds = [], tg_next_fd = 3, tg_cwd = cwd, tg_root = cwd,
     tg_umask = 18, tg_sig_actions = replicate 32 sig_action_default\<rparr>"

definition group_for_clone :: "pid \<Rightarrow> process \<Rightarrow> kernel \<Rightarrow> nat \<times> kernel" where
  "group_for_clone parent_pid parent k =
     (case p_thread_group parent of
        Some g \<Rightarrow> (g, k)
      | None \<Rightarrow> (length (k_groups k), k\<lparr>k_groups := k_groups k @
          [(thread_group_new parent_pid (get_cwd parent (k_groups k)))\<lparr>tg_fds := p_fds parent, tg_next_fd := p_next_fd parent\<rparr>]\<rparr>))"

definition thread_child :: "pid \<Rightarrow> pid \<Rightarrow> nat \<Rightarrow> u64 \<Rightarrow> u64 \<Rightarrow> u64 \<Rightarrow> process \<Rightarrow> kernel \<Rightarrow> process" where
  "thread_child child_pid parent_pid tg kst tls child_tid_ptr parent k =
     parent\<lparr>p_pid := child_pid, p_ppid := parent_pid, p_thread_group := Some tg, p_state := Runnable,
       p_context := (p_context parent)\<lparr>cx_rsp := kst - 136 - 8 - 48, cx_rip := 0, cx_rflags := 0\<rparr>,
       p_sleep_until := 0, p_fds := [], p_next_fd := 0, p_cwd := [], p_root := [], p_sig_pending := 0,
       p_exit_code := 0, p_children := [], p_start_time := k_ticks k, p_fs_base := tls,
       p_clear_child_tid := child_tid_ptr\<rparr>"

definition write_mapped :: "(u64 \<Rightarrow> u64 \<Rightarrow> bool) \<Rightarrow> u64 \<Rightarrow> u64 \<Rightarrow> u32 \<Rightarrow> kernel \<Rightarrow> kernel" where
  "write_mapped mapped pml4 a v k =
     (if mapped pml4 a then k\<lparr>k_user_writes := k_user_writes k @ [(pml4, a, v)]\<rparr> else k)"

definition clone_thread ::
    "(u64 \<Rightarrow> u64 \<Rightarrow> bool) \<Rightarrow> u64 \<Rightarrow> pid \<Rightarrow> u64 \<Rightarrow> u64 \<Rightarrow> kernel \<Rightarrow> (pid option \<times> kernel) option" where
  "clone_thread mapped kst parent_pid tls child_tid_ptr k =
     map_option (\<lambda>(r, k1).
       case r of None \<Rightarrow> (None, k1)
       | Some child_pid \<Rightarrow>
           (case bt_get (k_procs k1) parent_pid of None \<Rightarrow> (None, k1)
            | Some parent \<Rightarrow>
                let (tg, k2) = group_for_clone parent_pid parent k1;
                    child = thread_child child_pid parent_pid tg kst tls child_tid_ptr parent k2;
                    k3 = with_process_mut parent_pid (add_child child_pid) k2;
                    k4 = k3\<lparr>k_procs := bt_insert child_pid child (k_procs k3)\<rparr> in
                (Some child_pid,
                 if child_tid_ptr \<noteq> 0 then write_mapped mapped (p_pml4 parent) child_tid_ptr child_pid k4 else k4)))
       (alloc_pid k)"

definition sys_clone ::
    "(u64 \<Rightarrow> u64 option) \<Rightarrow> (u64 \<Rightarrow> u64 \<Rightarrow> bool) \<Rightarrow> u64 \<Rightarrow> u64 \<Rightarrow> u64 \<Rightarrow> u64 \<Rightarrow> u64 \<Rightarrow> u64 \<Rightarrow> kernel \<Rightarrow>
      (int \<times> kernel) option" where
  "sys_clone copy mapped kst flags child_stack ptid ctid tls k =
     (let is_thread = (flags AND 0x10100 = 0x10100);
          tls_val = (if flags AND 0x80000 \<noteq> 0 then tls else 0);
          ctid_addr = (if flags AND 0x1200000 \<noteq> 0 then ctid else 0) in do {
        (r, k1) \<leftarrow> (if is_thread then clone_thread mapped kst (k_current k) tls_val ctid_addr k
                   else fork_current copy kst k);
        case r of
          None \<Rightarrow> Some (-12, k1)
        | Some child \<Rightarrow>
            let k2 = (if flags AND 0x100000 \<noteq> 0 \<and> ptid \<noteq> 0 then user_write ptid child k1 else k1);
                k3 = (if flags AND 0x80000 \<noteq> 0 \<and> tls \<noteq> 0
                      then with_process_mut child (\<lambda>p. p\<lparr>p_fs_base := tls\<rparr>) k2 else k2);
                k4 = (if is_thread \<and> child_stack \<noteq> 0
                      then with_process_mut child (\<lambda>p. p\<lparr>p_flags := ucast child_stack\<rparr>) k3 else k3) in
            map_option (Pair (uint child)) (add_task child PRIO_NORMAL SCHED_NORMAL k4)
      })"

section \<open>Replacing the program\<close>

text \<open>
  What \<open>sys_execve\<close> does to the process once the new image is loaded: \<open>pml4\<close>, \<open>entry\<close> and
  \<open>tls\<close> come from the loader.  All of it runs inside \<open>with_current_mut\<close>, which holds the lock of the
  process table.  If one of the descriptors 0, 1 and 2 is missing, \<open>ensure_std_fd\<close> opens
  /dev/null, and \<open>vfs::open\<close> starts with \<open>abs_path\<close>, which takes the same spin lock
  again for the root of the caller: that call never returns, which is the value \<open>None\<close>.
\<close>

definition drop_cloexec :: "fd_table \<Rightarrow> fd_table" where
  "drop_cloexec fds = filter (\<lambda>(_, f). fd_flags f AND O_CLOEXEC = 0) fds"

definition ensure_std_fd ::
    "u32 \<Rightarrow> process \<times> thread_group list \<Rightarrow> (process \<times> thread_group list) option" where
  "ensure_std_fd n x = (case x of (p, gs) \<Rightarrow> if get_fd n p gs \<noteq> None then Some (p, gs) else None)"

definition reset_handler :: "sig_action \<Rightarrow> sig_action" where
  "reset_handler a = (if is_user (sa_handler a) then a\<lparr>sa_handler := SigDefault\<rparr> else a)"

definition execve_process ::
    "u64 \<Rightarrow> u64 \<Rightarrow> u64 \<Rightarrow> string \<Rightarrow> process \<Rightarrow> thread_group list \<Rightarrow> (process \<times> thread_group list) option" where
  "execve_process pml4 entry tls pathname p gs =
     (let p1 = p\<lparr>p_pml4 := pml4, p_context := (p_context p)\<lparr>cx_rip := entry\<rparr>, p_name := pathname,
             p_fs_base := tls, p_fds := drop_cloexec (p_fds p)\<rparr>;
          gs1 = (case p_thread_group p of None \<Rightarrow> gs
                 | Some g \<Rightarrow> gs[g := (gs ! g)\<lparr>tg_fds := drop_cloexec (tg_fds (gs ! g))\<rparr>]) in do {
        x0 \<leftarrow> ensure_std_fd 0 (p1, gs1);
        x1 \<leftarrow> ensure_std_fd 1 x0;
        (p2, gs2) \<leftarrow> ensure_std_fd 2 x1;
        Some (p2\<lparr>p_sig_actions := map reset_handler (p_sig_actions p2), p_sig_pending := 0\<rparr>, gs2)
      })"

section \<open>Exit\<close>

text \<open>The pipe ends of a table without repetition, in the order of their first descriptor.\<close>

definition note_end :: "nat \<Rightarrow> nat list \<Rightarrow> nat list" where
  "note_end i seen = (if i \<in> set seen then seen else seen @ [i])"

definition note_fd :: "file_descriptor \<Rightarrow> nat list \<times> nat list \<Rightarrow> nat list \<times> nat list" where
  "note_fd fd x =
     (case fd_kind fd of
        PipeWrite i \<Rightarrow> (note_end i (fst x), snd x)
      | PipeRead i \<Rightarrow> (fst x, note_end i (snd x))
      | _ \<Rightarrow> x)"

definition exit_pipes :: "process \<Rightarrow> thread_group list \<Rightarrow> nat list \<times> nat list" where
  "exit_pipes p gs =
     (let x = fold note_fd (map snd (p_fds p)) ([], []) in
      case p_thread_group p of None \<Rightarrow> x | Some g \<Rightarrow> fold note_fd (map snd (tg_fds (gs ! g))) x)"

primrec close_each :: "(nat \<Rightarrow> kernel \<Rightarrow> kernel option) \<Rightarrow> nat list \<Rightarrow> kernel \<Rightarrow> kernel option" where
  "close_each f [] k = Some k"
| "close_each f (i # is) k = Option.bind (f i k) (close_each f is)"

definition futex_cleanup :: "pid \<Rightarrow> kernel \<Rightarrow> kernel" where
  "futex_cleanup pd k = k\<lparr>k_futex := filter (\<lambda>(_, p). p \<noteq> pd) (k_futex k)\<rparr>"

definition exit_mark :: "(u64 \<Rightarrow> u64 \<Rightarrow> bool) \<Rightarrow> i32 \<Rightarrow> kernel \<Rightarrow> kernel option" where
  "exit_mark mapped code k =
     (let pd = k_current k in
      case bt_get (k_procs k) pd of
        None \<Rightarrow> Some k
      | Some p \<Rightarrow>
          let k1 = with_process_mut pd (\<lambda>p. p\<lparr>p_state := Zombie code, p_exit_code := code\<rparr>) k;
              k2 = (if p_clear_child_tid p \<noteq> 0
                    then futex_cleanup pd (write_mapped mapped (p_pml4 p) (p_clear_child_tid p) 0 k1) else k1) in
          if p_ppid p \<noteq> 0 then wake_process (p_ppid p) (send_signal (p_ppid p) SIGCHLD k2) else Some k2)"

definition exit_current :: "(u64 \<Rightarrow> u64 \<Rightarrow> bool) \<Rightarrow> i32 \<Rightarrow> kernel \<Rightarrow> kernel option" where
  "exit_current mapped code k =
     (let (ws, rs) = (case bt_get (k_procs k) (k_current k) of None \<Rightarrow> ([], []) | Some p \<Rightarrow> exit_pipes p (k_groups k)) in do {
        k1 \<leftarrow> close_each pipe_close_write ws k;
        k2 \<leftarrow> close_each pipe_close_read rs k1;
        exit_mark mapped code k2
      })"

definition sys_exit :: "(u64 \<Rightarrow> u64 \<Rightarrow> bool) \<Rightarrow> i32 \<Rightarrow> kernel \<Rightarrow> (outcome \<times> kernel) option" where
  "sys_exit mapped code k = do {
     k1 \<leftarrow> exit_current mapped code k;
     k2 \<leftarrow> remove_task (k_current k1) k1;
     schedule_next_from_irq k2
   }"

section \<open>Wait\<close>

definition reap_child :: "pid \<Rightarrow> kernel \<Rightarrow> i32 option \<times> kernel" where
  "reap_child c k =
     (case bt_get (k_procs k) c of
        None \<Rightarrow> (None, k)
      | Some p \<Rightarrow> (case p_state p of
          Zombie code \<Rightarrow> (Some code,
            with_process_mut (p_ppid p) (\<lambda>q. q\<lparr>p_children := filter (\<lambda>x. x \<noteq> c) (p_children q)\<rparr>)
              (k\<lparr>k_procs := bt_remove c (k_procs k)\<rparr>))
        | _ \<Rightarrow> (None, k)))"

definition zombie_at :: "kernel \<Rightarrow> pid \<Rightarrow> bool" where
  "zombie_at k c = unwrap_or (with_process c is_zombie k) False"

definition wait_any_zombie :: "pid \<Rightarrow> kernel \<Rightarrow> pid option" where
  "wait_any_zombie ppid k = Option.bind (bt_get (k_procs k) ppid) (\<lambda>p. find (zombie_at k) (p_children p))"

definition parent_pid_of :: "pid \<Rightarrow> kernel \<Rightarrow> pid option" where
  "parent_pid_of pd k = with_process pd p_ppid k"

definition in_group :: "u32 \<Rightarrow> kernel \<Rightarrow> pid \<Rightarrow> bool" where
  "in_group pgid k q = unwrap_or (with_process q (\<lambda>p. p_pgid p = pgid) k) False"

definition find_zombie :: "i32 \<Rightarrow> kernel \<Rightarrow> pid option" where
  "find_zombie pd k =
     (if pd = -1 then wait_any_zombie (k_current k) k
      else if sint pd < -1 then find (\<lambda>q. in_group (- pd) k q \<and> zombie_at k q) (all_pids k)
      else if zombie_at k pd then Some pd else None)"

definition has_relevant_children :: "i32 \<Rightarrow> kernel \<Rightarrow> bool" where
  "has_relevant_children pd k =
     (if pd = -1 then unwrap_or (with_process (k_current k) (\<lambda>p. p_children p \<noteq> []) k) False
      else if sint pd < -1 then (\<exists>q\<in>set (all_pids k). in_group (- pd) k q)
      else bt_get (k_procs k) pd \<noteq> None)"

definition collect :: "u64 \<Rightarrow> pid \<Rightarrow> kernel \<Rightarrow> int \<times> kernel" where
  "collect wstatus c k =
     (let (code, k1) = reap_child c k in
      (uint c, if wstatus \<noteq> 0 then user_write wstatus (push_bit 8 (unwrap_or code 0 AND 0xFF)) k1 else k1))"

text \<open>One pass of the loop after the task has been woken.\<close>

definition wait4_retry :: "i32 \<Rightarrow> u64 \<Rightarrow> kernel \<Rightarrow> (int io_result \<times> kernel) option" where
  "wait4_retry pd wstatus k =
     (case find_zombie pd k of
        Some c \<Rightarrow> (let (r, k1) = collect wstatus c k in Some (Finished r, k1))
      | None \<Rightarrow> if has_relevant_children pd k then park k else Some (Finished (-10), k))"

definition sys_wait4 :: "i32 \<Rightarrow> u64 \<Rightarrow> i32 \<Rightarrow> kernel \<Rightarrow> (int io_result \<times> kernel) option" where
  "sys_wait4 pd wstatus options k =
     (case find_zombie pd k of
        Some c \<Rightarrow> (let (r, k1) = collect wstatus c k in Some (Finished r, k1))
      | None \<Rightarrow> if options AND 1 \<noteq> 0 then Some (Finished 0, k)
                else if \<not> has_relevant_children pd k then Some (Finished (-10), k) else park k)"

section \<open>Identifiers are fresh\<close>

definition pid_range :: "pid \<Rightarrow> bool" where
  "pid_range m \<longleftrightarrow> 2 \<le> unat m \<and> unat m \<le> MAX_PIDS"

definition seen_from :: "pid \<Rightarrow> pid \<Rightarrow> pid \<Rightarrow> bool" where
  "seen_from start n m \<longleftrightarrow>
     (if unat start \<le> unat n then unat start \<le> unat m \<and> unat m < unat n else unat start \<le> unat m \<or> unat m < unat n)"

definition pids_left :: "pid \<Rightarrow> pid \<Rightarrow> nat" where
  "pids_left start n =
     (if unat start \<le> unat n then Suc MAX_PIDS - unat n + (unat start - 2) else unat start - unat n)"

lemma next_pid_range:
  assumes "pid_range n"
  shows "pid_range (if MAX_PIDS \<le> unat n then 2 else n + 1)"
    "unat (if MAX_PIDS \<le> unat n then 2 else n + 1) = (if unat n = MAX_PIDS then 2 else unat n + 1)"
  using assms u32_unat_Suc [of n] by (auto simp: pid_range_def MAX_PIDS_def)

lemma alloc_pid_loop_ok:
  assumes "pid_range start" "pid_range n" "\<And>m. pid_range m \<Longrightarrow> seen_from start n m \<Longrightarrow> bt_get procs m \<noteq> None"
  shows "\<exists>r n'. alloc_pid_loop start procs n = Some (r, n') \<and> pid_range n' \<and>
    (case r of Some m \<Rightarrow> pid_range m \<and> bt_get procs m = None | None \<Rightarrow> (\<forall>m. pid_range m \<longrightarrow> bt_get procs m \<noteq> None))"
  using assms(2,3)
proof (induction "pids_left start n" arbitrary: n rule: less_induct)
  case less
  let ?n = "if MAX_PIDS \<le> unat n then 2 else n + 1"
  note nx = next_pid_range [OF less.prems(1)]
  have rs: "2 \<le> unat start" "unat start \<le> MAX_PIDS" "2 \<le> unat n" "unat n \<le> MAX_PIDS"
    using assms(1) less.prems(1) by (simp_all add: pid_range_def)
  show ?case
  proof (cases "bt_get procs n = None")
    case True
    then have "alloc_pid_loop start procs n = Some (Some n, ?n)" by (subst alloc_pid_loop.simps) (simp add: Let_def)
    then show ?thesis using True nx(1) less.prems(1) by auto
  next
    case False
    have used: "bt_get procs m \<noteq> None" if "pid_range m" "seen_from start n m \<or> unat m = unat n" for m
      using that less.prems(2) False by (metis word_unat_eq_iff)
    show ?thesis
    proof (cases "?n = start")
      case True
      then have e: "unat start = (if unat n = MAX_PIDS then 2 else unat n + 1)" using nx(2) by simp
      have "seen_from start n m \<or> unat m = unat n" if "pid_range m" for m
        using that e rs by (auto simp: seen_from_def pid_range_def split: if_splits)
      then have "bt_get procs m \<noteq> None" if "pid_range m" for m using used that by blast
      moreover have "alloc_pid_loop start procs n = Some (None, ?n)"
        using True False by (subst alloc_pid_loop.simps) (auto simp: Let_def)
      ultimately show ?thesis using nx(1) by auto
    next
      case ne: False
      define n2 where "n2 = ?n"
      have n2: "unat n2 = (if unat n = MAX_PIDS then 2 else unat n + 1)" "pid_range n2" "n2 \<noteq> start"
        using nx ne by (simp_all add: n2_def)
      then have e: "unat start \<noteq> unat n2" by (simp add: word_unat_eq_iff)
      have "pids_left start n2 < pids_left start n" using e rs n2(1) by (auto simp: pids_left_def split: if_splits)
      moreover have "seen_from start n m \<or> unat m = unat n" if "pid_range m" "seen_from start n2 m" for m
        using that e rs n2(1) by (auto simp: seen_from_def pid_range_def split: if_splits)
      then have "bt_get procs m \<noteq> None" if "pid_range m" "seen_from start n2 m" for m using used that by blast
      moreover have "alloc_pid_loop start procs n = alloc_pid_loop start procs n2"
        using ne False unfolding n2_def by (subst alloc_pid_loop.simps) (auto simp: Let_def)
      ultimately show ?thesis using less.hyps [OF _ n2(2)] by simp
    qed
  qed
qed

lemma alloc_pid_ok:
  assumes "pid_range (k_next_pid k)"
  obtains r n where "alloc_pid k = Some (r, k\<lparr>k_next_pid := n\<rparr>)" "pid_range n"
    "\<And>m. r = Some m \<Longrightarrow> pid_range m \<and> bt_get (k_procs k) m = None"
    "r = None \<Longrightarrow> \<forall>m. pid_range m \<longrightarrow> bt_get (k_procs k) m \<noteq> None"
  using alloc_pid_loop_ok [OF assms assms, of "k_procs k"] that
  by (fastforce simp: alloc_pid_def seen_from_def split: option.splits)

text \<open>C17. Identifiers are allocated without collision, and the search always ends once the table is past
  boot.  If the position is in 2 to 65536, \<open>alloc_pid\<close> returns: either an identifier in that
  range that no process has, or none, and then every identifier in the range is taken; the
  process table is unchanged and the new position is in the range again.\<close>

theorem alloc_pid_fresh:
  assumes "pid_range (k_next_pid k)"
  shows "\<exists>r k'. alloc_pid k = Some (r, k') \<and> k_procs k' = k_procs k \<and> pid_range (k_next_pid k') \<and>
    (case r of
       Some m \<Rightarrow> pid_range m \<and> bt_get (k_procs k) m = None
     | None \<Rightarrow> (\<forall>m. pid_range m \<longrightarrow> bt_get (k_procs k) m \<noteq> None))"
  by (rule alloc_pid_ok [OF assms]) (auto split: option.splits)

theorem alloc_pid_fresh_witness:
  "\<exists>r k'. alloc_pid (kernel_boot 1\<lparr>k_next_pid := 65536\<rparr>) = Some (r, k') \<and> pid_range (k_next_pid k')"
  using alloc_pid_fresh [of "kernel_boot 1\<lparr>k_next_pid := 65536\<rparr>"] by (auto simp: pid_range_def MAX_PIDS_def)

section \<open>Closing pipe ends only wakes\<close>

text \<open>
  The second kernel differs from the first, as far as processes and run queues are
  concerned, only in that some sleeping tasks have been woken.
\<close>

definition wakes :: "kernel \<Rightarrow> kernel \<Rightarrow> bool" where
  "wakes k k' \<longleftrightarrow> rqs_inv k' \<and> k_current k' = k_current k \<and> k_groups k' = k_groups k \<and>
     (\<forall>q. known q k' = known q k) \<and> (\<forall>q. queued q k \<longrightarrow> queued q k') \<and>
     (\<forall>q. bt_get (k_procs k') q = bt_get (k_procs k) q \<or>
        state_of q k = Some Sleeping \<and> (known q k \<longrightarrow> queued q k') \<and>
        bt_get (k_procs k') q = map_option (\<lambda>p. p\<lparr>p_state := Runnable\<rparr>) (bt_get (k_procs k) q))"

lemma wakes_refl: "rqs_inv k \<Longrightarrow> wakes k k"
  by (simp add: wakes_def)

lemma wakes_same:
  assumes "rqs_inv k" "k_rqs k' = k_rqs k" "k_procs k' = k_procs k" "k_current k' = k_current k" "k_groups k' = k_groups k"
  shows "wakes k k'"
  using assms sched_views_same [of k' k] by (simp add: wakes_def)

lemma wakes_trans:
  assumes a: "wakes k1 k2" and b: "wakes k2 k3"
  shows "wakes k1 k3"
proof -
  have "bt_get (k_procs k3) q = bt_get (k_procs k1) q \<or>
        state_of q k1 = Some Sleeping \<and> (known q k1 \<longrightarrow> queued q k3) \<and>
        bt_get (k_procs k3) q = map_option (\<lambda>p. p\<lparr>p_state := Runnable\<rparr>) (bt_get (k_procs k1) q)" for q
  proof (cases "bt_get (k_procs k2) q = bt_get (k_procs k1) q")
    case True
    then have "state_of q k2 = state_of q k1" by (simp add: state_of_def with_process_def)
    then show ?thesis using True a b unfolding wakes_def by metis
  next
    case False
    then have w: "state_of q k1 = Some Sleeping" "known q k1 \<longrightarrow> queued q k2"
      "bt_get (k_procs k2) q = map_option (\<lambda>p. p\<lparr>p_state := Runnable\<rparr>) (bt_get (k_procs k1) q)"
      using a unfolding wakes_def by metis+
    then have "state_of q k2 \<noteq> Some Sleeping" by (auto simp: state_of_def with_process_def)
    then have "bt_get (k_procs k3) q = bt_get (k_procs k2) q" using b unfolding wakes_def by metis
    then show ?thesis using w b unfolding wakes_def by metis
  qed
  then show ?thesis using a b unfolding wakes_def by metis
qed

lemma wake_all_wakes: "rqs_inv k \<Longrightarrow> \<exists>k'. wake_all ps k = Some k' \<and> wakes k k' \<and> k_pipes k' = k_pipes k"
  using wake_all_ok [of k ps] by (fastforce simp: wakes_def)

lemma wake_readers_wakes: "rqs_inv k \<Longrightarrow> \<exists>k'. wake_readers i k = Some k' \<and> wakes k k' \<and> k_pipes k' = k_pipes k"
  and wake_writers_wakes: "rqs_inv k \<Longrightarrow> \<exists>k'. wake_writers i k = Some k' \<and> wakes k k' \<and> k_pipes k' = k_pipes k"
proof -
  assume inv: "rqs_inv k"
  have "\<exists>k'. wake_all ps (k\<lparr>k_pipe_waiters := w\<rparr>) = Some k' \<and> wakes k k' \<and> k_pipes k' = k_pipes k" for ps w
  proof -
    let ?k = "k\<lparr>k_pipe_waiters := w\<rparr>"
    have v: "wakes k ?k" by (rule wakes_same [OF inv]) simp_all
    then obtain k' where "wake_all ps ?k = Some k'" "wakes ?k k'" "k_pipes k' = k_pipes ?k"
      using wake_all_wakes [of ?k ps] by (auto simp: wakes_def)
    then show ?thesis using wakes_trans [OF v] by auto
  qed
  then show "\<exists>k'. wake_readers i k = Some k' \<and> wakes k k' \<and> k_pipes k' = k_pipes k"
    "\<exists>k'. wake_writers i k = Some k' \<and> wakes k k' \<and> k_pipes k' = k_pipes k"
    unfolding wake_readers_def wake_writers_def by blast+
qed

lemma close_then_wake:
  assumes inv: "rqs_inv k"
    and w: "\<And>k. rqs_inv k \<Longrightarrow> \<exists>k'. w i k = Some k' \<and> wakes k k' \<and> k_pipes k' = k_pipes k"
  shows "\<exists>k'. map_option (cleanup_if_closed i) (w i (pipe_upd i f k)) = Some k' \<and> wakes k k' \<and>
    k_pipes k' = (k_pipes k)[i := f (k_pipes k ! i)]"
proof -
  let ?k = "pipe_upd i f k"
  have v: "wakes k ?k" by (rule wakes_same [OF inv]) (simp_all add: pipe_upd_def)
  then obtain k' where k': "w i ?k = Some k'" "wakes ?k k'" "k_pipes k' = k_pipes ?k"
    using w [of ?k] by (auto simp: wakes_def)
  have "wakes k' (cleanup_if_closed i k')"
    by (rule wakes_same) (use k'(2) in \<open>simp_all add: wakes_def cleanup_if_closed_def cleanup_waiters_def Let_def\<close>)
  then show ?thesis
    using k' wakes_trans [OF wakes_trans [OF v]] by (auto simp: cleanup_if_closed_def cleanup_waiters_def Let_def pipe_upd_def)
qed

lemma pipe_close_wakes:
  assumes "rqs_inv k"
  shows "\<exists>k'. pipe_close_write i k = Some k' \<and> wakes k k' \<and> k_pipes k' = (k_pipes k)[i := close_write (k_pipes k ! i)]"
    "\<exists>k'. pipe_close_read i k = Some k' \<and> wakes k k' \<and> k_pipes k' = (k_pipes k)[i := close_read (k_pipes k ! i)]"
  unfolding pipe_close_write_def pipe_close_read_def
  using close_then_wake [OF assms, of wake_readers i close_write] close_then_wake [OF assms, of wake_writers i close_read]
    wake_readers_wakes wake_writers_wakes by blast+

lemma close_each_wakes:
  assumes "rqs_inv k"
    and f: "\<And>i k. rqs_inv k \<Longrightarrow> \<exists>k'. f i k = Some k' \<and> wakes k k' \<and> k_pipes k' = (k_pipes k)[i := g (k_pipes k ! i)]"
  shows "\<exists>k'. close_each f is k = Some k' \<and> wakes k k' \<and>
    k_pipes k' = fold (\<lambda>i ps. ps[i := g (ps ! i)]) is (k_pipes k)"
  using assms(1)
proof (induction "is" arbitrary: k)
  case (Cons i "is")
  obtain k1 where k1: "f i k = Some k1" "wakes k k1" "k_pipes k1 = (k_pipes k)[i := g (k_pipes k ! i)]"
    using f [OF Cons.prems] by blast
  then obtain k2 where "close_each f is k1 = Some k2" "wakes k1 k2" "k_pipes k2 = fold (\<lambda>i ps. ps[i := g (ps ! i)]) is (k_pipes k1)"
    using Cons.IH [of k1] by (auto simp: wakes_def)
  then show ?case using k1 wakes_trans [OF k1(2)] by auto
qed (simp add: wakes_refl)

section \<open>Exit and wait\<close>

lemma wakes_process:
  assumes "wakes k k'" "bt_get (k_procs k) q = Some p"
  obtains st where "bt_get (k_procs k') q = Some (p\<lparr>p_state := st\<rparr>)"
    "st = p_state p \<or> p_state p = Sleeping \<and> st = Runnable"
proof -
  have "bt_get (k_procs k') q = bt_get (k_procs k) q \<or>
        state_of q k = Some Sleeping \<and> (known q k \<longrightarrow> queued q k') \<and>
        bt_get (k_procs k') q = map_option (\<lambda>p. p\<lparr>p_state := Runnable\<rparr>) (bt_get (k_procs k) q)"
    using assms(1) unfolding wakes_def by blast
  then show thesis using assms(2) that [of "p_state p"] that [of Runnable]
    by (auto simp: state_of_def with_process_def)
qed

text \<open>A sleeping parent that has been woken on the way is already queued.\<close>

lemma wakes_sleeper:
  assumes "wakes k k'" "state_of q k = Some Sleeping" "known q k"
  shows "state_of q k' = Some Sleeping \<or> queued q k'"
  using assms unfolding wakes_def by (metis state_of_def with_process_def)

definition same_table :: "process \<Rightarrow> process \<Rightarrow> bool" where
  "same_table p q \<longleftrightarrow> p_fds q = p_fds p \<and> p_thread_group q = p_thread_group p \<and> p_children q = p_children p \<and>
     p_pml4 q = p_pml4 p \<and> p_state q = p_state p"

lemma send_sigchld:
  obtains f where "\<And>p. same_table p (f p)"
    "\<And>r. bt_get (k_procs (send_signal q SIGCHLD k)) r =
      (if r = q then map_option f (bt_get (k_procs k) q) else bt_get (k_procs k) r)"
proof (cases "may_signal q k")
  case True
  show thesis
    by (rule that [of "post_signal SIGCHLD"])
      (simp_all add: True send_signal_def NSIG_def post_signal_def Let_def same_table_def)
next
  case False
  show thesis by (rule that [of "\<lambda>p. p"]) (simp_all add: False send_signal_def same_table_def option.map_ident)
qed

lemma exit_mark_ok:
  assumes inv: "rqs_inv k" and p: "bt_get (k_procs k) (k_current k) = Some p"
    and pp: "p_ppid p = pp" "pp \<noteq> 0" "pp \<noteq> k_current k"
  obtains k' where "exit_mark mapped code k = Some k'" "rqs_inv k'" "k_current k' = k_current k"
    "bt_get (k_procs k') (k_current k) = Some (p\<lparr>p_state := Zombie code, p_exit_code := code\<rparr>)"
    "state_of pp k = Some Sleeping \<Longrightarrow> known pp k \<Longrightarrow> queued pp k'"
    "\<And>q. queued q k \<Longrightarrow> queued q k'" "k_pipes k' = k_pipes k" "k_groups k' = k_groups k"
    "\<And>q. q \<noteq> k_current k \<Longrightarrow> q \<noteq> pp \<Longrightarrow> bt_get (k_procs k') q = bt_get (k_procs k) q"
    "\<And>q. map_option (\<lambda>p. (p_fds p, p_thread_group p, p_children p, p_pml4 p)) (bt_get (k_procs k') q) =
      map_option (\<lambda>p. (p_fds p, p_thread_group p, p_children p, p_pml4 p)) (bt_get (k_procs k) q)"
    "zombie_at k pp = zombie_at k' pp"
proof -
  let ?k1 = "with_process_mut (k_current k) (\<lambda>p. p\<lparr>p_state := Zombie code, p_exit_code := code\<rparr>) k"
  let ?k2 = "if p_clear_child_tid p \<noteq> 0
    then futex_cleanup (k_current k) (write_mapped mapped (p_pml4 p) (p_clear_child_tid p) 0 ?k1) else ?k1"
  define k3 where "k3 = send_signal pp SIGCHLD ?k2"
  have same2: "k_rqs ?k2 = k_rqs k" "k_procs ?k2 = k_procs ?k1" "k_current ?k2 = k_current k"
    "k_pipes ?k2 = k_pipes k" "k_groups ?k2 = k_groups k"
    by (simp_all add: futex_cleanup_def write_mapped_def)
  have kk3: "k_rqs k3 = k_rqs k" "k_current k3 = k_current k" "k_pipes k3 = k_pipes k" "k_groups k3 = k_groups k"
    using same2 by (simp_all add: k3_def send_signal_def)
  obtain f where f: "\<And>p. same_table p (f p)"
    "\<And>q. bt_get (k_procs k3) q = (if q = pp then map_option f (bt_get (k_procs ?k2) pp) else bt_get (k_procs ?k2) q)"
    unfolding k3_def by (rule send_sigchld [of pp ?k2]) blast
  have g3: "bt_get (k_procs k3) q = (if q = pp then map_option f (bt_get (k_procs k) pp) else bt_get (k_procs ?k1) q)" for q
    using f(2) [of q] pp(3) by (simp only: same2(2)) simp
  note fp = f(1) [unfolded same_table_def]
  have st: "state_of pp k3 = state_of pp k"
    using fp g3 [of pp] by (simp add: state_of_def with_process_def option.map_comp comp_def)
  have inv3: "rqs_inv k3" "\<And>q. known q k3 = known q k" "\<And>q. queued q k3 = queued q k"
    using inv sched_views_same [of k3 k] kk3(1) by simp_all
  obtain k' where w: "wake_process pp k3 = Some k'" "rqs_inv k'" "\<And>q. known q k' = known q k3"
    "\<And>q. queued q k' \<longleftrightarrow> queued q k3 \<or> q = pp \<and> known pp k3 \<and> state_of pp k3 = Some Sleeping"
    using wake_process_ok [OF inv3(1), of pp] by blast
  note wp = wake_process_procs [OF w(1)]
  show thesis
  proof (rule that [OF _ w(2)])
    show "exit_mark mapped code k = Some k'" using p pp w(1) by (simp add: exit_mark_def Let_def k3_def)
    show "k_current k' = k_current k" "k_pipes k' = k_pipes k" "k_groups k' = k_groups k" using wp kk3 by simp_all
    show "bt_get (k_procs k') (k_current k) = Some (p\<lparr>p_state := Zombie code, p_exit_code := code\<rparr>)"
      using wp(1) g3 pp(3) p by simp
    show "queued pp k'" if "state_of pp k = Some Sleeping" "known pp k" using w(4) inv3(2) st that by simp
    show "queued q k'" if "queued q k" for q using w(4) inv3(3) that by simp
    show "bt_get (k_procs k') q = bt_get (k_procs k) q" if "q \<noteq> k_current k" "q \<noteq> pp" for q
      using wp(1) g3 that by simp
    show "map_option (\<lambda>p. (p_fds p, p_thread_group p, p_children p, p_pml4 p)) (bt_get (k_procs k') q) =
      map_option (\<lambda>p. (p_fds p, p_thread_group p, p_children p, p_pml4 p)) (bt_get (k_procs k) q)" for q
      using wp(1) [of q] fp g3 [of q] by (cases "q = pp") (auto simp: option.map_comp comp_def)
    show "zombie_at k pp = zombie_at k' pp"
      using wp(1) [of pp] fp g3 [of pp] st
      by (cases "bt_get (k_procs k) pp") (auto simp: zombie_at_def with_process_def state_of_def unwrap_or_def is_zombie_def)
  qed
qed

lemma exit_current_ok:
  assumes inv: "rqs_inv k" and p: "bt_get (k_procs k) (k_current k) = Some p"
  obtains k2 where "wakes k k2" "exit_current mapped code k = exit_mark mapped code k2"
    "k_pipes k2 = fold (\<lambda>i ps. ps[i := close_read (ps ! i)]) (snd (exit_pipes p (k_groups k)))
       (fold (\<lambda>i ps. ps[i := close_write (ps ! i)]) (fst (exit_pipes p (k_groups k))) (k_pipes k))"
proof -
  obtain ws rs where e: "exit_pipes p (k_groups k) = (ws, rs)" by fastforce
  obtain k1 where k1: "close_each pipe_close_write ws k = Some k1" "wakes k k1"
    "k_pipes k1 = fold (\<lambda>i ps. ps[i := close_write (ps ! i)]) ws (k_pipes k)"
    using close_each_wakes [OF inv pipe_close_wakes(1)] by blast
  have "rqs_inv k1" using k1(2) by (simp add: wakes_def)
  then obtain k2 where k2: "close_each pipe_close_read rs k1 = Some k2" "wakes k1 k2"
    "k_pipes k2 = fold (\<lambda>i ps. ps[i := close_read (ps ! i)]) rs (k_pipes k1)"
    using close_each_wakes [OF _ pipe_close_wakes(2)] by blast
  show thesis
    by (rule that [of k2]) (use k1 k2 e p wakes_trans in \<open>auto simp: exit_current_def\<close>)
qed

lemma wait4_zombie:
  assumes "bt_get (k_procs k) c = Some p" "p_state p = Zombie code" "pid_range c"
  shows "\<exists>k'. sys_wait4 c ws opts k = Some (Finished (uint c), k') \<and> bt_get (k_procs k') c = None \<and>
    (ws \<noteq> 0 \<longrightarrow> (\<exists>m. last (k_user_writes k') = (m, ws, push_bit 8 (code AND 0xFF))))"
proof -
  have i: "uint c = int (unat c)" by simp
  have u: "0 < uint c" "uint c < 2147483648" unfolding i using assms(3) unfolding pid_range_def MAX_PIDS_def by linarith+
  then have "signed_take_bit 31 (uint c) = uint c" by (intro signed_take_bit_int_eq_self) simp_all
  then have "0 < sint c" using u(1) by (simp add: sint_uint)
  then have n: "c \<noteq> -1" "\<not> sint c < -1" by auto
  have z: "find_zombie c k = Some c"
    using n assms(1,2) by (simp add: find_zombie_def zombie_at_def with_process_def unwrap_or_def is_zombie_def)
  obtain k1 where r: "reap_child c k = (Some code, k1)" "bt_get (k_procs k1) c = None"
    using assms(1,2) by (simp add: reap_child_def bt_simps)
  show ?thesis
    using z r by (cases "ws = 0") (simp_all add: sys_wait4_def collect_def user_write_def unwrap_or_def split_def)
qed

text \<open>C16. The exit code reaches the parent.  When a process with a living parent exits, it becomes a
  zombie with its code; a parent that was asleep and known to the scheduler is queued; and
  a wait of the parent for that child returns the child's identifier, removes it from the
  table and stores the low eight bits of the code, shifted left by eight.\<close>

theorem exit_then_wait:
  assumes "rqs_inv k" "bt_get (k_procs k) (k_current k) = Some p" "pid_range (k_current k)"
    and "p_ppid p = pp" "pp \<noteq> 0" "pp \<noteq> k_current k"
  shows "\<exists>k1. exit_current mapped code k = Some k1 \<and> state_of (k_current k) k1 = Some (Zombie code) \<and>
    (state_of pp k = Some Sleeping \<and> known pp k \<longrightarrow> queued pp k1) \<and>
    (\<exists>k2. sys_wait4 (k_current k) ws opts (set_current pp k1) = Some (Finished (uint (k_current k)), k2) \<and>
       bt_get (k_procs k2) (k_current k) = None \<and>
       (ws \<noteq> 0 \<longrightarrow> (\<exists>m. last (k_user_writes k2) = (m, ws, push_bit 8 (code AND 0xFF)))))"
proof -
  obtain ka where a: "wakes k ka" "exit_current mapped code k = exit_mark mapped code ka"
    by (rule exit_current_ok [OF assms(1,2)])
  then have ka: "rqs_inv ka" "k_current ka = k_current k" by (simp_all add: wakes_def)
  obtain st where st: "bt_get (k_procs ka) (k_current k) = Some (p\<lparr>p_state := st\<rparr>)"
    by (rule wakes_process [OF a(1) assms(2)])
  obtain k1 where k1: "exit_mark mapped code ka = Some k1" "k_current k1 = k_current ka"
    "bt_get (k_procs k1) (k_current ka) = Some ((p\<lparr>p_state := st\<rparr>)\<lparr>p_state := Zombie code, p_exit_code := code\<rparr>)"
    "state_of pp ka = Some Sleeping \<Longrightarrow> known pp ka \<Longrightarrow> queued pp k1" "\<And>q. queued q ka \<Longrightarrow> queued q k1"
    by (rule exit_mark_ok [OF ka(1), where p = "p\<lparr>p_state := st\<rparr>" and pp = pp and mapped = mapped and code = code])
      (use st ka(2) assms in auto)
  have q: "queued pp k1" if "state_of pp k = Some Sleeping" "known pp k"
    using wakes_sleeper [OF a(1) that] k1(4,5) that(2) a(1) by (auto simp: wakes_def)
  have b: "bt_get (k_procs (set_current pp k1)) (k_current k) = Some ((p\<lparr>p_state := st\<rparr>)\<lparr>p_state := Zombie code, p_exit_code := code\<rparr>)"
    using k1(3) ka(2) by (simp add: set_current_def)
  have "state_of (k_current k) k1 = Some (Zombie code)" using k1(3) ka(2) by (simp add: state_of_def with_process_def)
  then show ?thesis using a(2) k1(1) q wait4_zombie [OF b _ assms(3), of code ws opts] by auto
qed

theorem exit_then_wait_witness:
  "\<exists>k k1. exit_current (\<lambda>_ _. False) 3 k = Some k1 \<and> state_of (k_current k) k1 = Some (Zombie 3)"
proof -
  let ?p = "(process_new_kernel 2 0 0 0)\<lparr>p_ppid := 1\<rparr>"
  let ?k = "(sched_init (kernel_boot 1))\<lparr>k_procs := [(1, process_new_kernel 1 0 0 0), (2, ?p)], k_current := 2\<rparr>"
  have a: "rqs_inv ?k" using sched_init_inv [of 1] by (subst sched_views_same(1) [of _ "sched_init (kernel_boot 1)"]) simp_all
  have b: "bt_get (k_procs ?k) (k_current ?k) = Some ?p" by (simp add: bt_get_def)
  have c: "pid_range (k_current ?k)" by (simp add: pid_range_def MAX_PIDS_def)
  have d: "p_ppid ?p = 1" "(1 :: pid) \<noteq> 0" "1 \<noteq> k_current ?k" by simp_all
  show ?thesis using exit_then_wait [OF a b c d, of "\<lambda>_ _. False" 3] by blast
qed

end
