(* ===== verification/Pipe_Counts.thy ===== *)
theory Pipe_Counts
  imports Process_Life
begin

text \<open>
  The reference counts of pipes across processes.  A pipe counts its open write and
  read ends; readers see the end of the stream when no write end is left.  The counts are
  kept by the system calls that copy or close descriptors.  The invariant relates them to
  the descriptor tables of the living processes.
\<close>

section \<open>Open ends\<close>

text \<open>What a living process has open under a descriptor number.\<close>

definition end_of :: "kernel \<Rightarrow> pid \<times> u32 \<Rightarrow> fd_kind option" where
  "end_of k x =
     (case bt_get (k_procs k) (fst x) of
        None \<Rightarrow> None
      | Some p \<Rightarrow> if is_zombie p then None else map_option fd_kind (bt_get (p_fds p) (snd x)))"

definition holders :: "(pid \<times> u32 \<Rightarrow> fd_kind option) \<Rightarrow> fd_kind \<Rightarrow> (pid \<times> u32) set" where
  "holders e kd = {x. e x = Some kd}"

definition counted :: "(pid \<times> u32 \<Rightarrow> fd_kind option) \<Rightarrow> pipe_buf list \<Rightarrow> bool" where
  "counted e ps \<longleftrightarrow> (\<forall>n. e (0, n) = None) \<and>
     (\<forall>x i. e x = Some (PipeWrite i) \<or> e x = Some (PipeRead i) \<longrightarrow> i < length ps) \<and>
     (\<forall>i<length ps. pb_writers (ps ! i) = card (holders e (PipeWrite i)) \<and>
        pb_readers (ps ! i) = card (holders e (PipeRead i)) \<and>
        (pb_write_closed (ps ! i) \<longleftrightarrow> pb_writers (ps ! i) = 0) \<and>
        (pb_read_closed (ps ! i) \<longleftrightarrow> pb_readers (ps ! i) = 0))"

definition upd_end :: "fd_kind \<Rightarrow> (pipe_buf \<Rightarrow> pipe_buf) \<Rightarrow> (pipe_buf \<Rightarrow> pipe_buf) \<Rightarrow> pipe_buf list \<Rightarrow> pipe_buf list" where
  "upd_end kd w r ps =
     (case kd of PipeWrite i \<Rightarrow> ps[i := w (ps ! i)] | PipeRead i \<Rightarrow> ps[i := r (ps ! i)] | _ \<Rightarrow> ps)"

lemma holders_upd:
  "holders (e(x := Some kd)) c = (if c = kd then insert x (holders e c) else holders e c - {x})"
  "holders (e(x := None)) c = holders e c - {x}"
  by (auto simp: holders_def)

lemma card_holders:
  assumes "\<And>n. e (0, n) = None"
  shows "card (holders e kd) \<le> 2 ^ 64 - 2"
proof -
  have "holders e kd \<subseteq> UNIV - {(0, 0), (0, 1)}" using assms by (auto simp: holders_def)
  then have "card (holders e kd) \<le> card (UNIV - {(0, 0), (0 :: pid, 1 :: u32)})" by (rule card_mono [OF finite])
  also have "\<dots> = card (UNIV :: (pid \<times> u32) set) - 2" by (subst card_Diff_subset) simp_all
  also have "\<dots> = 2 ^ 64 - 2" by (simp add: card_word card_prod)
  finally show ?thesis .
qed

lemma card_holders_upd:
  assumes "e x = None"
  shows "card (holders (e(x := Some kd)) c) = (if c = kd then Suc (card (holders e c)) else card (holders e c))"
proof -
  have "x \<notin> holders e c" using assms by (simp add: holders_def)
  then show ?thesis by (cases "c = kd") (simp_all add: holders_upd)
qed

lemma card_holders_del:
  assumes "e x = Some kd"
  shows "card (holders (e(x := None)) c) = (if c = kd then card (holders e c) - 1 else card (holders e c))"
proof -
  have "x \<in> holders e c \<longleftrightarrow> c = kd" using assms by (auto simp: holders_def)
  then show ?thesis by (simp add: holders_upd card_Diff_singleton_if)
qed

lemma holders_pos: "e x = Some kd \<Longrightarrow> 0 < card (holders e kd)"
proof -
  assume "e x = Some kd"
  then have "x \<in> holders e kd" by (simp add: holders_def)
  then show ?thesis by (auto simp: card_gt_0_iff)
qed

text \<open>A copy of an open end, and the closing of one.\<close>

lemma counted_copy:
  assumes c: "counted e ps" and x: "e x = None" "fst x \<noteq> 0" and y: "e y = Some kd"
  shows "counted (e(x := Some kd)) (upd_end kd dup_write dup_read ps)"
proof -
  have z: "\<And>n. e (0, n) = None" using c by (simp add: counted_def)
  have le: "card (holders e d) \<le> 2 ^ 64 - 2" for d using card_holders [of e d] z by blast
  note pos = holders_pos [of e, OF y]
  show ?thesis
  proof (cases kd)
    case (PipeWrite i)
    then have i: "i < length ps" using c y unfolding counted_def by blast
    show ?thesis using c x z pos le [of "PipeWrite i"] i
      unfolding counted_def PipeWrite upd_end_def
      by (auto simp: nth_list_update card_holders_upd [of e, OF x(1)] dup_write_def min_def)
  next
    case (PipeRead i)
    then have i: "i < length ps" using c y unfolding counted_def by blast
    show ?thesis using c x z pos le [of "PipeRead i"] i
      unfolding counted_def PipeRead upd_end_def
      by (auto simp: nth_list_update card_holders_upd [of e, OF x(1)] dup_read_def min_def)
  qed (use c x z in \<open>auto simp: counted_def upd_end_def card_holders_upd [of e, OF x(1)]\<close>)
qed

lemma counted_close:
  assumes c: "counted e ps" and x: "e x = Some kd"
  shows "counted (e(x := None)) (upd_end kd close_write close_read ps)"
proof -
  have z: "\<And>n. e (0, n) = None" using c by (simp add: counted_def)
  note pos = holders_pos [of e, OF x]
  show ?thesis
  proof (cases kd)
    case (PipeWrite i)
    then have i: "i < length ps" using c x unfolding counted_def by blast
    show ?thesis using c x z pos i
      unfolding counted_def PipeWrite upd_end_def
      by (auto simp: nth_list_update card_holders_del [of e, OF x [unfolded PipeWrite]] close_write_def Let_def)
  next
    case (PipeRead i)
    then have i: "i < length ps" using c x unfolding counted_def by blast
    show ?thesis using c x z pos i
      unfolding counted_def PipeRead upd_end_def
      by (auto simp: nth_list_update card_holders_del [of e, OF x [unfolded PipeRead]] close_read_def Let_def)
  qed (use c x z in \<open>auto simp: counted_def upd_end_def card_holders_del [of e, OF x]\<close>)
qed

lemma counted_new:
  assumes c: "counted e ps" and x: "e x = None" "fst x \<noteq> 0" and y: "e y = None" "fst y \<noteq> 0" "x \<noteq> y"
  shows "counted (e(x := Some (PipeRead (length ps)), y := Some (PipeWrite (length ps)))) (ps @ [pipe_new])"
proof -
  let ?n = "length ps"
  have h: "holders e (PipeWrite ?n) = {}" "holders e (PipeRead ?n) = {}" using c by (auto simp: counted_def holders_def)
  have y': "(e(x := Some (PipeRead ?n))) y = None" using y by simp
  have nw: "pb_writers pipe_new = 1" "pb_readers pipe_new = 1" "\<not> pb_write_closed pipe_new" "\<not> pb_read_closed pipe_new"
    by (simp_all add: pipe_new_def)
  have cc: "card (holders (e(x := Some (PipeRead ?n), y := Some (PipeWrite ?n))) d) =
      (if d = PipeWrite ?n \<or> d = PipeRead ?n then 1 else card (holders e d))" for d
    using card_holders_upd [of "e(x := Some (PipeRead ?n))", OF y', of "PipeWrite ?n" d] card_holders_upd [of e, OF x(1), of "PipeRead ?n" d] h by auto
  show ?thesis
    using c x y unfolding counted_def cc by (auto simp: nth_append nw less_Suc_eq)
qed

section \<open>The invariant of the kernel\<close>

definition tables_ok :: "kernel \<Rightarrow> bool" where
  "tables_ok k \<longleftrightarrow> bt_get (k_procs k) 0 = None \<and>
     (\<forall>pd p. bt_get (k_procs k) pd = Some p \<longrightarrow> p_thread_group p = None \<and> bt_sorted (p_fds p))"

definition alive :: "pid \<Rightarrow> kernel \<Rightarrow> bool" where
  "alive pd k \<longleftrightarrow> (\<exists>p. bt_get (k_procs k) pd = Some p \<and> \<not> is_zombie p)"

definition base_inv :: "kernel \<Rightarrow> bool" where
  "base_inv k \<longleftrightarrow> rqs_inv k \<and> tables_ok k \<and> alive (k_current k) k \<and> pid_range (k_next_pid k) \<and>
     (\<forall>q. known q k \<longrightarrow> bt_get (k_procs k) q \<noteq> None)"

definition pipes_inv :: "kernel \<Rightarrow> bool" where
  "pipes_inv k \<longleftrightarrow> base_inv k \<and> counted (end_of k) (k_pipes k)"

text \<open>What the invariant reads of a process.\<close>

definition pview :: "kernel \<Rightarrow> pid \<Rightarrow> (bool \<times> fd_table \<times> nat option) option" where
  "pview k q = map_option (\<lambda>p. (is_zombie p, p_fds p, p_thread_group p)) (bt_get (k_procs k) q)"

lemma pview_reads:
  "end_of k x = (case pview k (fst x) of None \<Rightarrow> None
     | Some (z, fds, _) \<Rightarrow> if z then None else map_option fd_kind (bt_get fds (snd x)))"
  "tables_ok k \<longleftrightarrow> pview k 0 = None \<and> (\<forall>pd z fds g. pview k pd = Some (z, fds, g) \<longrightarrow> g = None \<and> bt_sorted fds)"
  "alive q k \<longleftrightarrow> (\<exists>fds g. pview k q = Some (False, fds, g))"
  "bt_get (k_procs k) q = None \<longleftrightarrow> pview k q = None"
  by (auto simp: pview_def end_of_def tables_ok_def alive_def split: option.splits) blast+

lemma pview_same:
  assumes "pview k' = pview k"
  shows "end_of k' = end_of k" "tables_ok k' = tables_ok k" "alive q k' = alive q k"
    "(bt_get (k_procs k') q = None) = (bt_get (k_procs k) q = None)"
  unfolding fun_eq_iff pview_reads assms by simp_all

lemma wakes_pview: "wakes k k' \<Longrightarrow> pview k' = pview k"
proof
  fix q assume w: "wakes k k'"
  show "pview k' q = pview k q"
  proof (cases "bt_get (k_procs k) q")
    case None
    have "bt_get (k_procs k') q = bt_get (k_procs k) q \<or>
        bt_get (k_procs k') q = map_option (\<lambda>p. p\<lparr>p_state := Runnable\<rparr>) (bt_get (k_procs k) q)"
      using w unfolding wakes_def by blast
    then show ?thesis using None by (auto simp: pview_def)
  next
    case (Some p)
    obtain st where "bt_get (k_procs k') q = Some (p\<lparr>p_state := st\<rparr>)" "st = p_state p \<or> p_state p = Sleeping \<and> st = Runnable"
      by (rule wakes_process [OF w Some])
    then show ?thesis using Some by (auto simp: pview_def is_zombie_def)
  qed
qed

text \<open>Replacing the table of the current process.\<close>

definition set_table :: "(fd_table \<Rightarrow> fd_table) \<Rightarrow> kernel \<Rightarrow> kernel \<Rightarrow> bool" where
  "set_table F k k' \<longleftrightarrow>
     pview k' = (pview k)(k_current k := map_option (\<lambda>(z, fds, g). (z, F fds, g)) (pview k (k_current k))) \<and>
     k_rqs k' = k_rqs k \<and> k_pipes k' = k_pipes k \<and> k_current k' = k_current k \<and> k_next_pid k' = k_next_pid k"

lemma set_table_ok:
  assumes "set_table F k k'" "base_inv k" "\<And>fds. bt_sorted fds \<Longrightarrow> bt_sorted (F fds)"
  shows "base_inv k'"
proof -
  have v: "pview k' = (pview k)(k_current k := map_option (\<lambda>(z, fds, g). (z, F fds, g)) (pview k (k_current k)))"
    "k_rqs k' = k_rqs k" "k_current k' = k_current k" "k_next_pid k' = k_next_pid k"
    using assms(1) by (simp_all add: set_table_def)
  note i = assms(2) [unfolded base_inv_def pview_reads]
  note s = sched_views_same [OF v(2)]
  have "tables_ok k'" using i assms(3) unfolding pview_reads v(1) by auto
  moreover have "alive (k_current k') k'" using i unfolding pview_reads v(1,3) by auto
  moreover have "\<forall>q. known q k' \<longrightarrow> bt_get (k_procs k') q \<noteq> None" using i unfolding s(2) pview_reads v(1) by auto
  ultimately show ?thesis using i s(1) v(4) by (simp add: base_inv_def)
qed

lemma current_op_table:
  assumes "tables_ok k" "\<And>p gs. p_thread_group p = None \<Longrightarrow> f p gs = (p\<lparr>p_fds := F (p_fds p)\<rparr>, gs)"
  shows "set_table F k (current_op f k)"
proof (cases "bt_get (k_procs k) (k_current k)")
  case None
  then show ?thesis by (auto simp: current_op_def set_table_def pview_def fun_eq_iff)
next
  case (Some p)
  then have "f p (k_groups k) = (p\<lparr>p_fds := F (p_fds p)\<rparr>, k_groups k)" using assms by (simp add: tables_ok_def)
  then show ?thesis using Some
    by (auto simp: current_op_def put_current_def set_table_def pview_def fun_eq_iff is_zombie_def)
qed

lemma table_of_current:
  assumes "tables_ok k" "bt_get (k_procs k) (k_current k) = Some p"
  shows "fd_table_of p gs = p_fds p" "current_fd n k = bt_get (p_fds p) n" "next_fd_of p gs = p_next_fd p"
    "fd_table_upd F p gs = (p\<lparr>p_fds := F (p_fds p)\<rparr>, gs)" "next_fd_set m p gs = (p\<lparr>p_next_fd := m\<rparr>, gs)"
  using assms
  by (simp_all add: tables_ok_def fd_table_of_def current_fd_def get_fd_def next_fd_of_def fd_table_upd_def next_fd_set_def)

lemma end_of_current:
  assumes "tables_ok k" "alive (k_current k) k"
  shows "end_of k (k_current k, n) = map_option fd_kind (current_fd n k)"
proof -
  obtain p where p: "bt_get (k_procs k) (k_current k) = Some p" "\<not> is_zombie p" using assms(2) by (auto simp: alive_def)
  then show ?thesis by (simp add: end_of_def table_of_current [OF assms(1) p(1)])
qed

lemma set_table_end:
  assumes "alive (k_current k) k"
  shows "set_table (bt_remove n) k k' \<Longrightarrow> end_of k' = (end_of k)((k_current k, n) := None)"
    "set_table (bt_insert n f) k k' \<Longrightarrow> end_of k' = (end_of k)((k_current k, n) := Some (fd_kind f))"
    "(\<And>f. fd_kind (g f) = fd_kind f) \<Longrightarrow> set_table (bt_adjust n g) k k' \<Longrightarrow> end_of k' = end_of k"
  using assms unfolding set_table_def fun_eq_iff pview_reads
  by (auto simp: bt_simps option.map_comp comp_def split: option.splits)

lemma free_fd_fresh: "free_fd fds n = Some r \<Longrightarrow> bt_get fds r = None"
  by (rule free_fd.raw_induct [of "\<lambda>fds n r. bt_get fds r = None"]) (auto split: if_splits)

lemma current_alloc_table:
  assumes "tables_ok k" "alive (k_current k) k" "current_alloc_fd f k = Some (m, k')"
  obtains n where "m = Some n" "set_table (bt_insert n f) k k'" "current_fd n k = None"
proof -
  obtain p where p: "bt_get (k_procs k) (k_current k) = Some p" using assms(2) by (auto simp: alive_def)
  note t = table_of_current [OF assms(1) p]
  have pn: "p_thread_group (p\<lparr>p_next_fd := n\<rparr>) = None" for n using assms(1) p by (simp add: tables_ok_def)
  obtain n where n: "free_fd (p_fds p) (p_next_fd p) = Some n"
    using assms(3) p by (auto simp: current_alloc_fd_def alloc_fd_def t bind_eq_Some_conv)
  have "k' = put_current (p\<lparr>p_next_fd := n + 1, p_fds := bt_insert n f (p_fds p)\<rparr>, k_groups k) k" "m = Some n"
    using assms(3) p n pn [of "n + 1"] by (auto simp: current_alloc_fd_def alloc_fd_def t fd_table_upd_def)
  moreover have "current_fd n k = None" using free_fd_fresh [OF n] by (simp add: t)
  ultimately show thesis using that [of n] p
    by (auto simp: put_current_def set_table_def pview_def fun_eq_iff is_zombie_def)
qed

text \<open>Closing an end, copying an end.\<close>

lemma rest_wake: "wake_process pd k = Some k' \<Longrightarrow> rest k' = rest k"
  by (auto simp: wake_process_def dest!: rest_sched_enqueue split: if_splits)

lemma rest_wake_all: "wake_all ps k = Some k' \<Longrightarrow> rest k' = rest k"
  by (induction ps arbitrary: k) (auto simp: bind_eq_Some_conv dest!: rest_wake)

lemma wake_ends_next_pid:
  "wake_readers i k = Some k' \<Longrightarrow> k_next_pid k' = k_next_pid k"
  "wake_writers i k = Some k' \<Longrightarrow> k_next_pid k' = k_next_pid k"
  unfolding wake_readers_def wake_writers_def by (drule rest_wake_all [THEN rest_fields(4)]; simp)+

lemma next_pid_pipe_simps: "k_next_pid (cleanup_if_closed i k) = k_next_pid k" "k_next_pid (pipe_upd i f k) = k_next_pid k"
  by (simp_all add: cleanup_if_closed_def cleanup_waiters_def pipe_upd_def Let_def)

lemma close_end_next_pid:
  assumes "close_end kd k = Some k'"
  shows "k_next_pid k' = k_next_pid k"
  using assms wake_ends_next_pid [of _ "pipe_upd _ _ k"]
  by (cases kd) (auto simp: close_end_def pipe_close_write_def pipe_close_read_def next_pid_pipe_simps)

lemma close_end_ok:
  assumes "base_inv k"
  obtains k' where "close_end kd k = Some k'" "base_inv k'" "end_of k' = end_of k" "k_current k' = k_current k"
    "pview k' = pview k" "k_pipes k' = upd_end kd close_write close_read (k_pipes k)"
proof -
  have inv: "rqs_inv k" using assms by (simp add: base_inv_def)
  obtain k' where k': "close_end kd k = Some k'" "wakes k k'" "k_pipes k' = upd_end kd close_write close_read (k_pipes k)"
    using pipe_close_wakes [OF inv] wakes_refl [OF inv]
    by (cases kd) (auto simp: close_end_def upd_end_def)
  note v = wakes_pview [OF k'(2)]
  have "base_inv k'"
    using assms k'(2) pview_same [OF v] close_end_next_pid [OF k'(1)] by (simp add: base_inv_def wakes_def)
  then show thesis using that k' v pview_same(1) [OF v] by (auto simp: wakes_def)
qed

lemma pipe_dup_inc_ok:
  "base_inv (pipe_dup_inc kd k) = base_inv k" "end_of (pipe_dup_inc kd k) = end_of k"
  "k_pipes (pipe_dup_inc kd k) = upd_end kd dup_write dup_read (k_pipes k)" "k_current (pipe_dup_inc kd k) = k_current k"
  "k_procs (pipe_dup_inc kd k) = k_procs k" "k_groups (pipe_dup_inc kd k) = k_groups k"
  "k_rqs (pipe_dup_inc kd k) = k_rqs k" "k_next_pid (pipe_dup_inc kd k) = k_next_pid k"
proof -
  have f: "k_procs (pipe_dup_inc kd k) = k_procs k" "k_rqs (pipe_dup_inc kd k) = k_rqs k"
    "k_current (pipe_dup_inc kd k) = k_current k" "k_next_pid (pipe_dup_inc kd k) = k_next_pid k"
    "k_groups (pipe_dup_inc kd k) = k_groups k"
    by (simp_all add: pipe_dup_inc_def pipe_upd_def split: fd_kind.split)
  have v: "pview (pipe_dup_inc kd k) = pview k" using f(1) by (simp add: pview_def fun_eq_iff)
  note s = sched_views_same [OF f(2)]
  show "base_inv (pipe_dup_inc kd k) = base_inv k" using f s pview_same [OF v] by (simp add: base_inv_def)
  show "end_of (pipe_dup_inc kd k) = end_of k" using pview_same [OF v] by simp
  show "k_pipes (pipe_dup_inc kd k) = upd_end kd dup_write dup_read (k_pipes k)"
    by (simp add: pipe_dup_inc_def pipe_upd_def upd_end_def split: fd_kind.split)
qed (simp_all add: pipe_dup_inc_def pipe_upd_def split: fd_kind.split)

section \<open>System calls keep the counts\<close>

lemma pipes_inv_facts:
  assumes "pipes_inv k"
  shows "base_inv k" "counted (end_of k) (k_pipes k)" "tables_ok k" "alive (k_current k) k" "k_current k \<noteq> 0"
    "end_of k (k_current k, n) = map_option fd_kind (current_fd n k)"
  using assms end_of_current by (auto simp: pipes_inv_def base_inv_def tables_ok_def alive_def)

lemma sys_close_inv:
  assumes inv: "pipes_inv k" and c: "sys_close fd k = Some (r, k')"
  shows "pipes_inv k'"
proof (cases "current_fd fd k")
  case None
  then show ?thesis using c inv by (simp add: sys_close_def)
next
  case (Some f)
  note i = pipes_inv_facts [OF inv]
  let ?k1 = "current_op (\<lambda>p gs. snd (close_fd fd p gs)) k"
  have t: "set_table (bt_remove fd) k ?k1"
    by (rule current_op_table [OF i(3)]) (simp add: close_fd_def fd_table_upd_def)
  have b: "base_inv ?k1" by (rule set_table_ok [OF t i(1)]) auto
  have e: "end_of ?k1 = (end_of k)((k_current k, fd) := None)" by (rule set_table_end(1) [OF i(4) t])
  obtain k2 where k2: "close_end (fd_kind f) ?k1 = Some k2" "base_inv k2" "end_of k2 = end_of ?k1"
    "k_pipes k2 = upd_end (fd_kind f) close_write close_read (k_pipes ?k1)"
    by (rule close_end_ok [OF b])
  have "counted (end_of ?k1) (k_pipes k2)"
    unfolding e k2(4) using counted_close [OF i(2), of "(k_current k, fd)" "fd_kind f"] i(6) Some t
    by (simp add: set_table_def)
  then show ?thesis using k2 c Some by (simp add: sys_close_def pipes_inv_def)
qed

lemma copy_fd_inv:
  assumes inv: "pipes_inv k" and f: "current_fd fd k = Some f" and a: "current_alloc_fd f k = Some (m, k1)"
  shows "pipes_inv (pipe_dup_inc (fd_kind f) k1)"
proof -
  note i = pipes_inv_facts [OF inv]
  obtain n where n: "m = Some n" "set_table (bt_insert n f) k k1" "current_fd n k = None"
    by (rule current_alloc_table [OF i(3,4) a])
  have b: "base_inv k1" by (rule set_table_ok [OF n(2) i(1)]) auto
  have e: "end_of k1 = (end_of k)((k_current k, n) := Some (fd_kind f))" by (rule set_table_end(2) [OF i(4) n(2)])
  have "counted (end_of k1) (upd_end (fd_kind f) dup_write dup_read (k_pipes k1))"
    unfolding e using counted_copy [OF i(2), of "(k_current k, n)" "(k_current k, fd)" "fd_kind f"] i(5,6) n f
    by (simp add: set_table_def)
  then show ?thesis using b by (simp add: pipes_inv_def pipe_dup_inc_ok)
qed

lemma sys_dup_inv: "pipes_inv k \<Longrightarrow> sys_dup fd k = Some (r, k') \<Longrightarrow> pipes_inv k'"
  by (auto simp: sys_dup_def intro: copy_fd_inv split: option.splits)

lemma flags_inv:
  assumes inv: "pipes_inv k" and g: "\<And>f. fd_kind (g f) = fd_kind f"
  shows "pipes_inv (current_op (get_fd_mut_op n g) k)"
proof -
  note i = pipes_inv_facts [OF inv]
  let ?k = "current_op (get_fd_mut_op n g) k"
  have t: "set_table (bt_adjust n g) k ?k"
    by (rule current_op_table [OF i(3)]) (simp add: get_fd_mut_op_def fd_table_upd_def)
  have b: "base_inv ?k" by (rule set_table_ok [OF t i(1)]) auto
  have "end_of ?k = end_of k" by (rule set_table_end(3) [OF i(4) g t])
  then show ?thesis using b i(2) t by (simp add: pipes_inv_def set_table_def)
qed

lemma sys_dup2_inv:
  assumes inv: "pipes_inv k" and d: "sys_dup2 old new k = Some (r, k')"
  shows "pipes_inv k'"
proof (cases "old = new \<or> current_fd old k = None")
  case True
  then show ?thesis using d inv by (auto simp: sys_dup2_def split: if_splits)
next
  case False
  then obtain src where src: "current_fd old k = Some src" and ne: "old \<noteq> new" by auto
  note i = pipes_inv_facts [OF inv]
  let ?x = "(k_current k, new)"
  obtain k1 where k1: "(case current_fd new k of None \<Rightarrow> Some k | Some f \<Rightarrow> close_end (fd_kind f) k) = Some k1"
    "base_inv k1" "end_of k1 = end_of k" "k_current k1 = k_current k" "counted ((end_of k)(?x := None)) (k_pipes k1)"
  proof (cases "current_fd new k")
    case None
    then have "(end_of k)(?x := None) = end_of k" using i(6) by (auto simp: fun_eq_iff)
    then show thesis using that [of k] None i by simp
  next
    case (Some f)
    obtain k2 where k2: "close_end (fd_kind f) k = Some k2" "base_inv k2" "end_of k2 = end_of k" "k_current k2 = k_current k"
      "k_pipes k2 = upd_end (fd_kind f) close_write close_read (k_pipes k)"
      by (rule close_end_ok [OF i(1)])
    then show thesis using that [of k2] Some counted_close [OF i(2), of ?x "fd_kind f"] i(6) by simp
  qed
  let ?k2 = "current_op (\<lambda>p gs. snd (alloc_fd_at new src p gs)) k1"
  have j: "tables_ok k1" "alive (k_current k1) k1" using k1(2) by (simp_all add: base_inv_def)
  have t: "set_table (bt_insert new src) k1 ?k2"
    by (rule current_op_table [OF j(1)]) (simp add: alloc_fd_at_def fd_table_upd_def)
  have b: "base_inv ?k2" by (rule set_table_ok [OF t k1(2)]) auto
  have e: "end_of ?k2 = ((end_of k)(?x := None))(?x := Some (fd_kind src))"
    using set_table_end(2) [OF j(2) t] k1(3,4) by simp
  have "counted (end_of ?k2) (upd_end (fd_kind src) dup_write dup_read (k_pipes k1))"
    unfolding e by (rule counted_copy [OF k1(5), of _ "(k_current k, old)"]) (use i(5,6) src ne in simp_all)
  then have "pipes_inv (pipe_dup_inc (fd_kind src) ?k2)"
    using b t by (simp add: pipes_inv_def pipe_dup_inc_ok set_table_def)
  then show ?thesis using d src ne k1(1) by (simp add: sys_dup2_def)
qed

lemma sys_dup3_inv: "pipes_inv k \<Longrightarrow> sys_dup3 old new flags k = Some (r, k') \<Longrightarrow> pipes_inv k'"
  by (auto simp: sys_dup3_def split: if_splits intro!: flags_inv intro: sys_dup2_inv)

lemma sys_fcntl_inv:
  assumes "pipes_inv k" "sys_fcntl fd cmd arg k = Some (r, k')"
  shows "pipes_inv k'"
  using assms
  by (auto simp: sys_fcntl_def bind_eq_Some_conv split: if_splits option.splits
      intro!: flags_inv intro: copy_fd_inv)

lemma same_kernel_parts:
  assumes "k_procs k' = k_procs k" "k_rqs k' = k_rqs k" "k_current k' = k_current k" "k_next_pid k' = k_next_pid k"
  shows "base_inv k' = base_inv k" "end_of k' = end_of k" "current_fd n k' = current_fd n k \<or> k_groups k' \<noteq> k_groups k"
proof -
  have v: "pview k' = pview k" using assms(1) by (simp add: pview_def fun_eq_iff)
  show "base_inv k' = base_inv k" "end_of k' = end_of k"
    using assms sched_views_same [OF assms(2)] pview_same [OF v] by (simp_all add: base_inv_def)
  show "current_fd n k' = current_fd n k \<or> k_groups k' \<noteq> k_groups k" using assms by (auto simp: current_fd_def)
qed

lemma user_write_inv [simp]: "pipes_inv (user_write a v k) = pipes_inv k"
  using same_kernel_parts [of "user_write a v k" k] by (simp add: pipes_inv_def user_write_def)

lemma install_pipe_inv:
  assumes inv: "pipes_inv k" and p: "install_pipe fds ((r, w), k0) = Some (res, k')"
    and k0: "k_procs k0 = k_procs k" "k_rqs k0 = k_rqs k" "k_current k0 = k_current k" "k_next_pid k0 = k_next_pid k"
      "k_pipes k0 = k_pipes k @ [pipe_new]"
    and kinds: "fd_kind r = PipeRead (length (k_pipes k))" "fd_kind w = PipeWrite (length (k_pipes k))"
  shows "pipes_inv k'"
proof -
  note i = pipes_inv_facts [OF inv] and s = same_kernel_parts [OF k0(1-4)]
  obtain m1 k1 m2 k2 where a: "current_alloc_fd r k0 = Some (m1, k1)" "current_alloc_fd w k1 = Some (m2, k2)"
    "pipes_inv k' = pipes_inv k2"
    using p by (auto simp: install_pipe_def bind_eq_Some_conv)
  have b0: "base_inv k0" using s(1) i(1) by simp
  then have j0: "tables_ok k0" "alive (k_current k0) k0" by (simp_all add: base_inv_def)
  obtain n where n: "set_table (bt_insert n r) k0 k1" "current_fd n k0 = None" by (rule current_alloc_table [OF j0 a(1)])
  have b1: "base_inv k1" by (rule set_table_ok [OF n(1) b0]) auto
  then have j1: "tables_ok k1" "alive (k_current k1) k1" by (simp_all add: base_inv_def)
  obtain m where m: "set_table (bt_insert m w) k1 k2" "current_fd m k1 = None" by (rule current_alloc_table [OF j1 a(2)])
  have b2: "base_inv k2" by (rule set_table_ok [OF m(1) b1]) auto
  have c: "k_current k1 = k_current k" using n(1) k0(3) by (simp add: set_table_def)
  have e1: "end_of k1 = (end_of k)((k_current k, n) := Some (fd_kind r))" using set_table_end(2) [OF j0(2) n(1)] s(2) k0(3) by simp
  have e2: "end_of k2 = (end_of k)((k_current k, n) := Some (fd_kind r), (k_current k, m) := Some (fd_kind w))"
    using set_table_end(2) [OF j1(2) m(1)] e1 c by simp
  have x: "end_of k (k_current k, n) = None" using end_of_current [OF j0, of n] n(2) s(2) k0(3) by simp
  have "end_of k1 (k_current k, m) = None" using end_of_current [OF j1, of m] m(2) c by simp
  then have y: "end_of k (k_current k, m) = None" "m \<noteq> n" using e1 by (auto split: if_splits)
  have "counted (end_of k2) (k_pipes k @ [pipe_new])"
    unfolding e2 kinds by (rule counted_new [OF i(2)]) (use x y i(5) in auto)
  then show ?thesis using a(3) b2 n(1) m(1) k0(5) by (simp add: pipes_inv_def set_table_def)
qed

lemma new_pipe_shape:
  fixes k :: kernel
  shows "\<exists>r w k0. new_pipe k = ((r, w), k0) \<and> k_procs k0 = k_procs k \<and> k_rqs k0 = k_rqs k \<and> k_current k0 = k_current k \<and>
      k_next_pid k0 = k_next_pid k \<and> k_pipes k0 = k_pipes k @ [pipe_new] \<and>
      fd_kind r = PipeRead (length (k_pipes k)) \<and> fd_kind w = PipeWrite (length (k_pipes k))"
    "\<exists>r w k0. new_pipe2 flags k = ((r, w), k0) \<and> k_procs k0 = k_procs k \<and> k_rqs k0 = k_rqs k \<and> k_current k0 = k_current k \<and>
      k_next_pid k0 = k_next_pid k \<and> k_pipes k0 = k_pipes k @ [pipe_new] \<and>
      fd_kind r = PipeRead (length (k_pipes k)) \<and> fd_kind w = PipeWrite (length (k_pipes k))"
  by (simp_all add: new_pipe2_def new_pipe_def make_pipe_inode_def Let_def)

lemma sys_pipe_inv:
  assumes inv: "pipes_inv k"
  shows "sys_pipe fds k = Some (r, k') \<Longrightarrow> pipes_inv k'" "sys_pipe2 fds flags k = Some (r, k') \<Longrightarrow> pipes_inv k'"
proof -
  show "pipes_inv k'" if "sys_pipe fds k = Some (r, k')"
    using that new_pipe_shape(1) [of k] inv install_pipe_inv [OF inv]
    by (auto simp: sys_pipe_def split: if_splits)
  show "pipes_inv k'" if "sys_pipe2 fds flags k = Some (r, k')"
    using that new_pipe_shape(2) [of flags k] inv install_pipe_inv [OF inv]
    by (auto simp: sys_pipe2_def split: if_splits)
qed

text \<open>Fork copies the whole table.\<close>

lemma counted_copy_table:
  assumes "counted e ps" "distinct (map fst fds)" "c \<noteq> 0" "c \<noteq> q"
    "\<And>n f. (n, f) \<in> set fds \<Longrightarrow> e (q, n) = Some (fd_kind f)" "\<And>n. n \<in> fst ` set fds \<Longrightarrow> e (c, n) = None"
  shows "counted (\<lambda>x. if fst x = c \<and> snd x \<in> fst ` set fds then map_option fd_kind (map_of fds (snd x)) else e x)
    (fold (\<lambda>(_, f). upd_end (fd_kind f) dup_write dup_read) fds ps)"
  using assms
proof (induction fds arbitrary: e ps)
  case Nil
  then show ?case by simp
next
  case (Cons a fds)
  obtain n f where a: "a = (n, f)" by fastforce
  let ?e = "e((c, n) := Some (fd_kind f))" and ?ps = "upd_end (fd_kind f) dup_write dup_read ps"
  have c: "counted ?e ?ps" by (rule counted_copy [OF Cons.prems(1), of _ "(q, n)"]) (use Cons.prems a in auto)
  have ih: "counted (\<lambda>x. if fst x = c \<and> snd x \<in> fst ` set fds then map_option fd_kind (map_of fds (snd x)) else ?e x)
      (fold (\<lambda>(_, f). upd_end (fd_kind f) dup_write dup_read) fds ?ps)"
    by (rule Cons.IH [OF c]) (use Cons.prems a in \<open>auto simp: image_iff\<close>)
  have "(\<lambda>x. if fst x = c \<and> snd x \<in> fst ` set fds then map_option fd_kind (map_of fds (snd x)) else ?e x) =
      (\<lambda>x. if fst x = c \<and> snd x \<in> fst ` set (a # fds) then map_option fd_kind (map_of (a # fds) (snd x)) else e x)"
    using Cons.prems(2) a by (auto simp: fun_eq_iff image_iff)
  then show ?case using ih a by simp
qed

lemma dup_all_ok:
  "base_inv (dup_all fds k) = base_inv k \<and> end_of (dup_all fds k) = end_of k \<and> k_procs (dup_all fds k) = k_procs k \<and>
   k_current (dup_all fds k) = k_current k \<and> k_groups (dup_all fds k) = k_groups k \<and>
   k_rqs (dup_all fds k) = k_rqs k \<and> k_next_pid (dup_all fds k) = k_next_pid k \<and>
   k_pipes (dup_all fds k) = fold (\<lambda>(_, f). upd_end (fd_kind f) dup_write dup_read) fds (k_pipes k)"
proof (induction fds arbitrary: k)
  case (Cons a fds)
  obtain n f where a: "a = (n, f)" by fastforce
  have "dup_all (a # fds) k = dup_all fds (pipe_dup_inc (fd_kind f) k)" by (simp add: dup_all_def a)
  then show ?case using Cons.IH [of "pipe_dup_inc (fd_kind f) k"] by (simp add: a pipe_dup_inc_ok)
qed (simp add: dup_all_def)

lemma fork_current_inv:
  assumes inv: "pipes_inv k" and f: "fork_current copy kst k = Some (r, k')"
  shows "pipes_inv k' \<and> (\<forall>c. r = Some c \<longrightarrow> \<not> known c k' \<and> bt_get (k_procs k') c \<noteq> None)"
proof -
  note i = pipes_inv_facts [OF inv]
  obtain p where p: "bt_get (k_procs k) (k_current k) = Some p" "\<not> is_zombie p" using i(4) by (auto simp: alive_def)
  note t = table_of_current [OF i(3) p(1)]
  have tg: "p_thread_group p = None" "bt_sorted (p_fds p)" using i(3) p(1) by (simp_all add: tables_ok_def)
  have "pid_range (k_next_pid k)" using i(1) by (simp add: base_inv_def)
  then obtain q m where a: "alloc_pid k = Some (q, k\<lparr>k_next_pid := m\<rparr>)" "pid_range m"
    "\<And>c. q = Some c \<Longrightarrow> pid_range c \<and> bt_get (k_procs k) c = None" by (rule alloc_pid_ok) blast
  let ?k1 = "k\<lparr>k_next_pid := m\<rparr>"
  have v1: "pview ?k1 = pview k" by (simp add: pview_def fun_eq_iff)
  have b1: "base_inv ?k1"
    using i(1) a(2) pview_same [OF v1] sched_views_same [of ?k1 k] by (simp add: base_inv_def)
  have inv1: "pipes_inv ?k1" using b1 i(2) pview_same(1) [OF v1] by (simp add: pipes_inv_def)
  show ?thesis
  proof (cases "q = None \<or> copy (p_pml4 p) = None")
    case True
    then show ?thesis using f a(1) p inv1 by (cases q) (auto simp: fork_current_def)
  next
    case False
    then obtain c as where c: "q = Some c" "copy (p_pml4 p) = Some as" by auto
    note fresh = a(3) [OF c(1)]
    then have cn: "c \<noteq> k_current k" "c \<noteq> 0" using p(1) by (auto simp: pid_range_def)
    let ?k2 = "dup_all (p_fds p) ?k1"
    note d = dup_all_ok [of "p_fds p" ?k1]
    let ?child = "fork_child c as kst p ?k2"
    have ch: "p_fds ?child = p_fds p" "p_thread_group ?child = None" "\<not> is_zombie ?child"
      using tg by (simp_all add: fork_child_def fd_table_of_def is_zombie_def)
    have k': "r = Some c" "k' = (with_process_mut (k_current k) (add_child c) ?k2)\<lparr>k_procs :=
        bt_insert c ?child (k_procs (with_process_mut (k_current k) (add_child c) ?k2))\<rparr>"
      using f a(1) p c d t by (simp_all add: fork_current_def Let_def)
    have vw: "pview k' = (pview k)(c := Some (False, p_fds p, None))"
      using k'(2) d ch by (auto simp: fun_eq_iff pview_def bt_simps add_child_def is_zombie_def option.map_comp comp_def)
    have same: "k_rqs k' = k_rqs k" "k_next_pid k' = m" "k_current k' = k_current k" "k_pipes k' = k_pipes ?k2"
      using k'(2) d by simp_all
    note sv = sched_views_same [OF same(1)]
    note bi = i(1) [unfolded base_inv_def pview_reads]
    have nk: "\<not> known c k'" using sv(2) fresh bi by (auto simp: pview_def)
    have "tables_ok k'" "alive (k_current k') k'" "\<forall>q. known q k' \<longrightarrow> bt_get (k_procs k') q \<noteq> None"
      unfolding pview_reads vw same(3) sv(2) using bi tg(2) cn by auto
    then have b': "base_inv k'" using bi sv(1) same(2) a(2) by (simp add: base_inv_def)
    have kc: "fst x = c \<Longrightarrow> end_of k x = None" for x using fresh by (simp add: end_of_def)
    have "end_of k' = (\<lambda>x. if fst x = c \<and> snd x \<in> fst ` set (p_fds p)
        then map_option fd_kind (map_of (p_fds p) (snd x)) else end_of k x)"
    proof
      fix x
      show "end_of k' x = (if fst x = c \<and> snd x \<in> fst ` set (p_fds p)
          then map_option fd_kind (map_of (p_fds p) (snd x)) else end_of k x)"
        using kc [of x] map_of_eq_None_iff [of "p_fds p" "snd x"]
        unfolding pview_reads(1) [of k'] vw by (cases "fst x = c") (auto simp: bt_get_def pview_reads(1))
    qed
    moreover have "counted (\<lambda>x. if fst x = c \<and> snd x \<in> fst ` set (p_fds p)
        then map_option fd_kind (map_of (p_fds p) (snd x)) else end_of k x)
        (fold (\<lambda>(_, f). upd_end (fd_kind f) dup_write dup_read) (p_fds p) (k_pipes k))"
    proof (rule counted_copy_table [OF i(2) _ cn(2,1)])
      show "distinct (map fst (p_fds p))" using bt_sorted_distinct [OF tg(2)] by (simp add: bt_keys_def)
      show "end_of k (k_current k, n) = Some (fd_kind f)" if "(n, f) \<in> set (p_fds p)" for n f
        using that i(6) t(2) bt_sorted_get [OF tg(2)] by simp
      show "end_of k (c, n) = None" for n using kc by simp
    qed
    moreover have "bt_get (k_procs k') c \<noteq> None" unfolding pview_reads(4) vw by simp
    ultimately show ?thesis using b' nk k'(1) same(4) d by (simp add: pipes_inv_def)
  qed
qed

lemma add_task_known:
  assumes "rqs_inv k" "\<not> known pd k" "unat prio < NUM_PRIO_LEVELS" "add_task pd prio pol k = Some k'"
  shows "rqs_inv k' \<and> (\<forall>q. known q k' \<longrightarrow> known q k \<or> q = pd)"
proof (cases "k_rqs k ! select_cpu_for_new_task k = None")
  case True
  then have "k' = k" using assms(4) by (simp add: add_task_def on_rq_def)
  then show ?thesis using assms(1) by simp
next
  case False
  then show ?thesis using add_task_ok [OF assms(1-3) False, of pol] assms(4) by (elim exE conjE) simp
qed

lemma sys_fork_inv:
  assumes inv: "pipes_inv k" and f: "sys_fork copy kst k = Some (r, k')"
  shows "pipes_inv k'"
proof -
  obtain q k1 where q: "fork_current copy kst k = Some (q, k1)" using f by (auto simp: sys_fork_def bind_eq_Some_conv)
  note i = fork_current_inv [OF inv q]
  show ?thesis
  proof (cases q)
    case None
    then show ?thesis using f q i by (simp add: sys_fork_def)
  next
    case (Some c)
    then obtain k2 where k2: "add_task c PRIO_NORMAL SCHED_NORMAL k1 = Some k2" "k' = request_reschedule k2"
      using f q by (auto simp: sys_fork_def)
    have pr: "unat PRIO_NORMAL < NUM_PRIO_LEVELS" by (simp add: PRIO_NORMAL_def NUM_PRIO_LEVELS_def)
    have b1: "base_inv k1" "\<not> known c k1" "bt_get (k_procs k1) c \<noteq> None" "counted (end_of k1) (k_pipes k1)"
      using i Some by (auto simp: pipes_inv_def)
    then have r1: "rqs_inv k1" by (simp add: base_inv_def)
    note a = add_task_known [OF r1 b1(2) pr k2(1)]
    have fr: "k_procs k2 = k_procs k1" "k_current k2 = k_current k1" "k_pipes k2 = k_pipes k1" "k_next_pid k2 = k_next_pid k1"
      using on_rq_frame [OF k2(1) [unfolded add_task_def]] by simp_all
    have v: "pview k' = pview k1" using fr(1) k2(2) by (simp add: pview_def fun_eq_iff)
    have "k_rqs k' = k_rqs k2" "k_next_pid k' = k_next_pid k1" using k2(2) fr(4) by (simp_all add: request_reschedule_def)
    moreover note s = sched_views_same [OF this(1)]
    moreover have "\<forall>q. known q k' \<longrightarrow> bt_get (k_procs k') q \<noteq> None"
      using b1(1,3) a unfolding s(2) pview_same(4) [OF v] base_inv_def by blast
    moreover have "rqs_inv k'" "tables_ok k'" "alive (k_current k') k'"
      using b1(1) a s(1) pview_same(2,3) [OF v] fr(2) k2(2) by (simp_all add: base_inv_def)
    moreover have "pid_range (k_next_pid k1)" using b1(1) by (simp add: base_inv_def)
    ultimately have "base_inv k'" unfolding base_inv_def by metis
    then show ?thesis using b1(4) pview_same(1) [OF v] fr(3) k2(2) by (simp add: pipes_inv_def)
  qed
qed

section \<open>End of file\<close>

text \<open>The calls that open, copy and close descriptors, made by any living process in turn.\<close>

inductive fd_step :: "kernel \<Rightarrow> kernel \<Rightarrow> bool" where
  switch: "alive pd k \<Longrightarrow> fd_step k (set_current pd k)"
| pipe: "sys_pipe fds k = Some (r, k') \<Longrightarrow> fd_step k k'"
| pipe2: "sys_pipe2 fds flags k = Some (r, k') \<Longrightarrow> fd_step k k'"
| dup: "sys_dup fd k = Some (r, k') \<Longrightarrow> fd_step k k'"
| dup2: "sys_dup2 old new k = Some (r, k') \<Longrightarrow> fd_step k k'"
| dup3: "sys_dup3 old new flags k = Some (r, k') \<Longrightarrow> fd_step k k'"
| fcntl: "sys_fcntl fd cmd arg k = Some (r, k') \<Longrightarrow> fd_step k k'"
| close: "sys_close fd k = Some (r, k') \<Longrightarrow> fd_step k k'"
| fork: "sys_fork copy kst k = Some (r, k') \<Longrightarrow> fd_step k k'"

lemma set_current_inv:
  assumes "pipes_inv k" "alive pd k"
  shows "pipes_inv (set_current pd k)"
proof -
  have v: "pview (set_current pd k) = pview k" by (simp add: pview_def set_current_def fun_eq_iff)
  have "k_rqs (set_current pd k) = k_rqs k" by (simp add: set_current_def)
  from sched_views_same [OF this] show ?thesis
    using assms pview_same [OF v] by (simp add: pipes_inv_def base_inv_def) (simp add: set_current_def)
qed

lemma fd_step_inv: "fd_step k k' \<Longrightarrow> pipes_inv k \<Longrightarrow> pipes_inv k'"
  by (induction rule: fd_step.induct)
    (auto intro: set_current_inv sys_pipe_inv sys_dup_inv sys_dup2_inv sys_dup3_inv sys_fcntl_inv sys_close_inv sys_fork_inv)

lemma counted_closed:
  assumes "counted e ps" "i < length ps"
  shows "pb_write_closed (ps ! i) \<longleftrightarrow> (\<forall>x. e x \<noteq> Some (PipeWrite i))"
    "pb_read_closed (ps ! i) \<longleftrightarrow> (\<forall>x. e x \<noteq> Some (PipeRead i))"
proof -
  have "card (holders e kd) = 0 \<longleftrightarrow> (\<forall>x. e x \<noteq> Some kd)" for kd by (auto simp: holders_def)
  then show "pb_write_closed (ps ! i) \<longleftrightarrow> (\<forall>x. e x \<noteq> Some (PipeWrite i))"
    "pb_read_closed (ps ! i) \<longleftrightarrow> (\<forall>x. e x \<noteq> Some (PipeRead i))"
    using assms unfolding counted_def by simp_all
qed

text \<open>C14. Whatever sequence of pipe, dup, dup2, dup3, fcntl, close and fork the processes perform, the
  counts of every pipe equal the number of descriptors that living processes hold on its two
  ends; hence a read of an empty pipe reports the end of the stream exactly when no living
  process holds a write descriptor, and a write reports a broken pipe exactly when none
  holds a read descriptor.\<close>

theorem end_of_file_is_exact:
  assumes "pipes_inv k" "fd_step\<^sup>*\<^sup>* k k'" "i < length (k_pipes k')"
  shows "pb_writers (k_pipes k' ! i) = card {x. end_of k' x = Some (PipeWrite i)} \<and>
    pb_readers (k_pipes k' ! i) = card {x. end_of k' x = Some (PipeRead i)} \<and>
    (pb_len (k_pipes k' ! i) = 0 \<longrightarrow>
      fst (try_read n (k_pipes k' ! i)) = (if \<exists>x. end_of k' x = Some (PipeWrite i) then Inl EAGAIN else Inr [])) \<and>
    (fst (try_write d (k_pipes k' ! i)) = Inl EPIPE \<longleftrightarrow> (\<nexists>x. end_of k' x = Some (PipeRead i)))"
proof -
  have "pipes_inv k'" using assms(2,1) by (induction rule: rtranclp_induct) (auto intro: fd_step_inv)
  then have c: "counted (end_of k') (k_pipes k')" by (simp add: pipes_inv_def)
  then have w: "pb_writers (k_pipes k' ! i) = card {x. end_of k' x = Some (PipeWrite i)}"
    "pb_readers (k_pipes k' ! i) = card {x. end_of k' x = Some (PipeRead i)}"
    using assms(3) unfolding counted_def holders_def by simp_all
  note cl = counted_closed [OF c assms(3)]
  have "fst (try_write d (k_pipes k' ! i)) = Inl EPIPE \<longleftrightarrow> pb_read_closed (k_pipes k' ! i)"
    by (simp add: try_write_def Let_def)
  moreover have "pb_len (k_pipes k' ! i) = 0 \<longrightarrow>
      fst (try_read n (k_pipes k' ! i)) = (if pb_write_closed (k_pipes k' ! i) then Inr [] else Inl EAGAIN)"
    by (simp add: try_read_def)
  ultimately show ?thesis using w cl by auto
qed

text \<open>A kernel with one process and no descriptors, and the first pipe of that process.\<close>

definition lone_kernel :: kernel where
  "lone_kernel = (sched_init (kernel_boot 1))\<lparr>k_procs := [(2, (process_new_kernel 2 0 0 0)\<lparr>p_ppid := 1\<rparr>)],
     k_current := 2, k_next_pid := 3\<rparr>"

lemma lone_kernel_inv: "pipes_inv lone_kernel"
proof -
  have r: "rqs_inv lone_kernel" "known q lone_kernel = known q (sched_init (kernel_boot 1))" for q
    using sched_init_inv [of 1] sched_views_same [of lone_kernel "sched_init (kernel_boot 1)"]
    by (simp_all add: lone_kernel_def)
  have nk: "\<not> known q lone_kernel" for q
    unfolding r(2) known_def entity_at_def
    by (auto simp: lone_kernel_def sched_init_def kernel_boot_def MAX_CPUS_SCHED_def nth_list_update rq_entity_def run_queue_new_def)
  have g: "bt_get (k_procs lone_kernel) q = (if q = 2 then Some ((process_new_kernel 2 0 0 0)\<lparr>p_ppid := 1\<rparr>) else None)" for q
    by (simp add: lone_kernel_def bt_get_def)
  have f: "p_fds ((process_new_kernel 2 0 0 0)\<lparr>p_ppid := 1\<rparr>) = []"
    "p_thread_group ((process_new_kernel 2 0 0 0)\<lparr>p_ppid := 1\<rparr>) = None"
    "\<not> is_zombie ((process_new_kernel 2 0 0 0)\<lparr>p_ppid := 1\<rparr>)"
    by (simp_all add: process_new_kernel_def is_zombie_def)
  have "tables_ok lone_kernel" "alive (k_current lone_kernel) lone_kernel" "pid_range (k_next_pid lone_kernel)"
    using g f by (simp_all add: tables_ok_def alive_def lone_kernel_def pid_range_def MAX_PIDS_def)
  moreover have "end_of lone_kernel x = None" for x using g f by (simp add: end_of_def)
  moreover have "k_pipes lone_kernel = []" by (simp add: lone_kernel_def sched_init_def kernel_boot_def)
  ultimately show ?thesis using r(1) nk by (simp add: pipes_inv_def base_inv_def counted_def)
qed

lemma bt_get_Cons: "bt_get ((a, b) # m) c = (if c = a then Some b else bt_get m c)"
  by (simp add: bt_get_def)

lemma free_fd_here: "bt_get fds n = None \<Longrightarrow> free_fd fds n = Some n"
  by (subst free_fd.simps) simp

lemma lone_kernel_pipe: "\<exists>r k'. sys_pipe 4096 lone_kernel = Some (r, k') \<and> k_pipes k' = [pipe_new]"
proof -
  have "bt_get (k_procs lone_kernel) (k_current lone_kernel) = Some ((process_new_kernel 2 0 0 0)\<lparr>p_ppid := 1\<rparr>)"
    "k_pipes lone_kernel = []"
    by (simp_all add: lone_kernel_def bt_get_def sched_init_def kernel_boot_def)
  then show ?thesis
    by (simp add: sys_pipe_def user_ptr_bad_def install_pipe_def new_pipe_def make_pipe_inode_def Let_def
        current_alloc_fd_def alloc_fd_def fd_table_of_def next_fd_of_def next_fd_set_def fd_table_upd_def put_current_def
        process_new_kernel_def free_fd_here user_write_def bt_simps bt_get_Cons)
qed

theorem end_of_file_is_exact_witness:
  "\<exists>k'. fd_step\<^sup>*\<^sup>* lone_kernel k' \<and> k_pipes k' = [pipe_new] \<and> card {x. end_of k' x = Some (PipeWrite 0)} = 1"
proof -
  obtain r k' where k': "sys_pipe 4096 lone_kernel = Some (r, k')" "k_pipes k' = [pipe_new]" using lone_kernel_pipe by blast
  have "fd_step\<^sup>*\<^sup>* lone_kernel k'" using fd_step.pipe [OF k'(1)] by blast
  then show ?thesis using end_of_file_is_exact [OF lone_kernel_inv, of k' 0] k'(2) by (auto simp: pipe_new_def)
qed

section \<open>Exit\<close>

lemma note_ends:
  "distinct (fst x) \<and> distinct (snd x) \<Longrightarrow>
     distinct (fst (fold note_fd fds x)) \<and> distinct (snd (fold note_fd fds x)) \<and>
     set (fst (fold note_fd fds x)) = set (fst x) \<union> {i. \<exists>f\<in>set fds. fd_kind f = PipeWrite i}"
proof (induction fds arbitrary: x)
  case (Cons f fds)
  have "distinct (fst (note_fd f x)) \<and> distinct (snd (note_fd f x))"
    using Cons.prems by (auto simp: note_fd_def note_end_def split: fd_kind.split)
  moreover have "set (fst (note_fd f x)) = set (fst x) \<union> {i. fd_kind f = PipeWrite i}"
    by (auto simp: note_fd_def note_end_def split: fd_kind.split)
  ultimately show ?case using Cons.IH [of "note_fd f x"] by auto
qed simp

lemma fold_upd_nth:
  "distinct is \<Longrightarrow> i < length ps \<Longrightarrow>
     fold (\<lambda>i ps. ps[i := g (ps ! i)]) is ps ! i = (if i \<in> set is then g (ps ! i) else ps ! i)"
proof (induction "is" arbitrary: ps)
  case (Cons a "is")
  then show ?case using Cons.IH [of "ps[a := g (ps ! a)]"] by (cases "a = i") simp_all
qed simp

lemma fold_upd_length [simp]: "length (fold (\<lambda>i ps. ps[i := g (ps ! i)]) is ps) = length ps"
  by (induction "is" arbitrary: ps) simp_all

lemma close_read_writers [simp]:
  "pb_writers (close_read b) = pb_writers b" "pb_write_closed (close_read b) = pb_write_closed b"
  by (simp_all add: close_read_def Let_def)

text \<open>C15. A process that exits while it holds two write descriptors of a pipe gives back only one of them.
  If nobody else holds the write end, no living process can write to the pipe any more, but
  the pipe still counts a writer and is not marked closed, so a reader of the empty pipe waits
  for ever instead of seeing the end of the stream.\<close>

theorem exit_leaks_write_end:
  assumes "pipes_inv k" "current_fd n k = Some f" "current_fd m k = Some g" "n \<noteq> m"
    and "fd_kind f = PipeWrite i" "fd_kind g = PipeWrite i"
    and "\<And>x. end_of k x = Some (PipeWrite i) \<Longrightarrow> fst x = k_current k"
    and "bt_get (k_procs k) (k_current k) = Some p" "p_ppid p = pp" "pp \<noteq> 0" "pp \<noteq> k_current k"
    and "exit_current mapped code k = Some k'"
  shows "(\<forall>x. end_of k' x \<noteq> Some (PipeWrite i)) \<and> 0 < pb_writers (k_pipes k' ! i) \<and> \<not> pb_write_closed (k_pipes k' ! i)"
proof -
  note inv = pipes_inv_facts [OF assms(1)]
  have rq: "rqs_inv k" using inv(1) by (simp add: base_inv_def)
  obtain ka where a: "wakes k ka" "exit_current mapped code k = exit_mark mapped code ka"
    "k_pipes ka = fold (\<lambda>i ps. ps[i := close_read (ps ! i)]) (snd (exit_pipes p (k_groups k)))
       (fold (\<lambda>i ps. ps[i := close_write (ps ! i)]) (fst (exit_pipes p (k_groups k))) (k_pipes k))"
    by (rule exit_current_ok [OF rq assms(8)])
  have ka: "rqs_inv ka" "k_current ka = k_current k" using a(1) by (simp_all add: wakes_def)
  obtain st where st: "bt_get (k_procs ka) (k_current k) = Some (p\<lparr>p_state := st\<rparr>)"
    by (rule wakes_process [OF a(1) assms(8)])
  obtain k1 where k1: "exit_mark mapped code ka = Some k1" "k_pipes k1 = k_pipes ka"
    "bt_get (k_procs k1) (k_current k) = Some ((p\<lparr>p_state := st\<rparr>)\<lparr>p_state := Zombie code, p_exit_code := code\<rparr>)"
    "\<And>q. q \<noteq> k_current k \<Longrightarrow> q \<noteq> pp \<Longrightarrow> bt_get (k_procs k1) q = bt_get (k_procs ka) q"
    "\<And>q. map_option (\<lambda>p. (p_fds p, p_thread_group p, p_children p, p_pml4 p)) (bt_get (k_procs k1) q) =
      map_option (\<lambda>p. (p_fds p, p_thread_group p, p_children p, p_pml4 p)) (bt_get (k_procs ka) q)"
    "zombie_at ka pp = zombie_at k1 pp"
    by (rule exit_mark_ok [OF ka(1), where p = "p\<lparr>p_state := st\<rparr>" and pp = pp and mapped = mapped and code = code])
      (use st ka(2) assms in auto)
  have [simp]: "k1 = k'" using k1(1) a(2) assms(12) by simp
  have pv: "pview k' q = pview k q" if "q \<noteq> k_current k" for q
  proof -
    have "pview k' q = pview ka q"
    proof (cases "q = pp")
      case True
      then show ?thesis using k1(5) [of q] k1(6)
        by (cases "bt_get (k_procs ka) q"; cases "bt_get (k_procs k') q")
          (auto simp: pview_def zombie_at_def with_process_def unwrap_or_def)
    qed (use k1(4) that in \<open>simp add: pview_def\<close>)
    then show ?thesis using wakes_pview [OF a(1)] by simp
  qed
  have none: "end_of k' x \<noteq> Some (PipeWrite i)" for x
  proof (cases "fst x = k_current k")
    case True
    then show ?thesis using k1(3) by (simp add: end_of_def is_zombie_def)
  next
    case False
    then have "end_of k' x = end_of k x" using pv by (simp add: pview_reads(1))
    then show ?thesis using assms(7) [of x] False by auto
  qed
  note t = table_of_current [OF inv(3) assms(8)]
  have tg: "p_thread_group p = None" using inv(3) assms(8) by (simp add: tables_ok_def)
  have mem: "f \<in> snd ` set (p_fds p)" using assms(2) t(2) by (force simp: bt_get_def dest: map_of_SomeD)
  have ws: "distinct (fst (exit_pipes p (k_groups k)))" "distinct (snd (exit_pipes p (k_groups k)))"
    "i \<in> set (fst (exit_pipes p (k_groups k)))"
    using note_ends [of "([], [])" "map snd (p_fds p)"] mem assms(5) tg by (auto simp: exit_pipes_def)
  have h: "end_of k (k_current k, n) = Some (PipeWrite i)" "end_of k (k_current k, m) = Some (PipeWrite i)"
    using inv(6) assms(2,3,5,6) by simp_all
  then have i: "i < length (k_pipes k)" using inv(2) unfolding counted_def by blast
  have "card {(k_current k, n), (k_current k, m)} \<le> card (holders (end_of k) (PipeWrite i))"
    by (rule card_mono) (use h in \<open>auto simp: holders_def\<close>)
  then have w: "2 \<le> pb_writers (k_pipes k ! i)" "\<not> pb_write_closed (k_pipes k ! i)"
    using inv(2) i assms(4) unfolding counted_def by auto
  have "pb_writers (k_pipes ka ! i) = pb_writers (close_write (k_pipes k ! i))"
    "pb_write_closed (k_pipes ka ! i) = pb_write_closed (close_write (k_pipes k ! i))"
    unfolding a(3) using ws i by (auto simp: fold_upd_nth)
  then show ?thesis using none w k1(2) by (auto simp: close_write_def Let_def)
qed

definition write_fd :: file_descriptor where
  "write_fd = \<lparr>fd_inode = fst (make_pipe_inode lone_kernel), fd_offset = 0, fd_flags = 0, fd_kind = PipeWrite 0, fd_path = []\<rparr>"

definition leak_kernel :: kernel where
  "leak_kernel = lone_kernel\<lparr>
     k_procs := [(2, (process_new_kernel 2 0 0 0)\<lparr>p_ppid := 1, p_fds := [(4, write_fd), (5, write_fd)]\<rparr>)],
     k_pipes := [pipe_new\<lparr>pb_writers := 2, pb_readers := 0, pb_read_closed := True\<rparr>]\<rparr>"

lemma leak_kernel_end: "end_of leak_kernel x = (if x = (2, 4) \<or> x = (2, 5) then Some (PipeWrite 0) else None)"
  by (cases x) (auto simp: end_of_def leak_kernel_def bt_get_Cons is_zombie_def process_new_kernel_def write_fd_def)

lemma leak_kernel_inv: "pipes_inv leak_kernel"
proof -
  have s: "k_rqs leak_kernel = k_rqs lone_kernel" "k_current leak_kernel = k_current lone_kernel"
    "k_next_pid leak_kernel = k_next_pid lone_kernel" by (simp_all add: leak_kernel_def)
  note b = lone_kernel_inv [unfolded pipes_inv_def base_inv_def]
  have d: "bt_get (k_procs leak_kernel) q = None \<longleftrightarrow> bt_get (k_procs lone_kernel) q = None" for q
    by (simp add: leak_kernel_def lone_kernel_def bt_get_Cons)
  have t: "tables_ok leak_kernel" "alive (k_current leak_kernel) leak_kernel"
    by (auto simp: tables_ok_def alive_def leak_kernel_def lone_kernel_def bt_get_Cons is_zombie_def process_new_kernel_def
        bt_sorted_def bt_keys_def split: if_splits)
  have "base_inv leak_kernel"
    unfolding base_inv_def sched_views_same [OF s(1)] d s(3) using b t by blast
  moreover have "holders (end_of leak_kernel) (PipeWrite 0) = {(2, 4), (2, 5)}" "holders (end_of leak_kernel) (PipeRead 0) = {}"
    by (auto simp: holders_def leak_kernel_end)
  moreover have "k_pipes leak_kernel = [pipe_new\<lparr>pb_writers := 2, pb_readers := 0, pb_read_closed := True\<rparr>]"
    by (simp add: leak_kernel_def)
  ultimately have "base_inv leak_kernel" "counted (end_of leak_kernel) (k_pipes leak_kernel)"
    by (auto simp: counted_def leak_kernel_end pipe_new_def)
  then show ?thesis by (simp add: pipes_inv_def)
qed

theorem exit_leaks_write_end_witness:
  "\<exists>k'. exit_current (\<lambda>_ _. False) 0 leak_kernel = Some k' \<and> (\<forall>x. end_of k' x \<noteq> Some (PipeWrite 0)) \<and>
     \<not> pb_write_closed (k_pipes k' ! 0)"
proof -
  let ?p = "(process_new_kernel 2 0 0 0)\<lparr>p_ppid := 1, p_fds := [(4, write_fd), (5, write_fd)]\<rparr>"
  have p: "bt_get (k_procs leak_kernel) (k_current leak_kernel) = Some ?p" "k_current leak_kernel = 2"
    by (simp_all add: leak_kernel_def lone_kernel_def bt_get_Cons)
  have pp: "p_ppid ?p = 1" "(1 :: pid) \<noteq> 0" "1 \<noteq> k_current leak_kernel" using p(2) by simp_all
  have rq: "rqs_inv leak_kernel" using leak_kernel_inv by (simp add: pipes_inv_def base_inv_def)
  have f: "current_fd 4 leak_kernel = Some write_fd" "current_fd 5 leak_kernel = Some write_fd" "fd_kind write_fd = PipeWrite 0"
    using p by (simp_all add: current_fd_def get_fd_def fd_table_of_def process_new_kernel_def bt_get_Cons write_fd_def)
  obtain ka where a: "wakes leak_kernel ka" "exit_current (\<lambda>_ _. False) 0 leak_kernel = exit_mark (\<lambda>_ _. False) 0 ka"
    by (rule exit_current_ok [OF rq p(1)])
  obtain st where st: "bt_get (k_procs ka) (k_current leak_kernel) = Some (?p\<lparr>p_state := st\<rparr>)"
    by (rule wakes_process [OF a(1) p(1)])
  have ka: "rqs_inv ka" "k_current ka = k_current leak_kernel" using a(1) by (simp_all add: wakes_def)
  obtain k' where k': "exit_mark (\<lambda>_ _. False) 0 ka = Some k'"
    by (rule exit_mark_ok [OF ka(1), where p = "?p\<lparr>p_state := st\<rparr>" and pp = 1 and mapped = "\<lambda>_ _. False" and code = 0])
      (use st ka(2) p(2) in auto)
  then have x: "exit_current (\<lambda>_ _. False) 0 leak_kernel = Some k'" using a(2) by simp
  have "\<And>x. end_of leak_kernel x = Some (PipeWrite 0) \<Longrightarrow> fst x = k_current leak_kernel"
    using p(2) by (auto simp: leak_kernel_end split: if_splits)
  from exit_leaks_write_end [OF leak_kernel_inv f(1,2) _ f(3,3) this p(1) pp x] show ?thesis using x by auto
qed

end
