(* ===== verification/Phys_Frames.thy ===== *)
theory Phys_Frames
  imports Kernel_Prelude
begin

text \<open>
  The physical frame allocator, kernel/src/memory/phys.rs: the buddy allocator
  with one bitmap per block order, the per-CPU magazines in front of it, and the
  public entry points.  A bitmap array is a function from its indices; every
  access checks the bounds the Rust arrays have and an access outside them is a
  panic, the value \<open>None\<close> of the outer option.  Addresses and frame counts are
  natural numbers (all sums stay below 2 to the 64); the global counters are u64
  because their updates are wrapping atomics.
\<close>

section \<open>Buddy allocator\<close>

definition PAGE_SIZE :: nat where "PAGE_SIZE = 4096"
definition MAX_FRAMES :: nat where "MAX_FRAMES = 2 ^ 20"
definition BITMAP_WORDS :: nat where "BITMAP_WORDS = MAX_FRAMES div 64"
definition MAX_ORDER :: nat where "MAX_ORDER = 11"
definition MAGAZINE_SIZE :: nat where "MAGAZINE_SIZE = 64"
definition MAX_CPUS_PHYS :: nat where "MAX_CPUS_PHYS = 64"

lemmas phys_consts = PAGE_SIZE_def MAX_FRAMES_def BITMAP_WORDS_def MAX_ORDER_def
  MAGAZINE_SIZE_def MAX_CPUS_PHYS_def

record buddy =
  free_bitmaps :: "nat \<Rightarrow> nat \<Rightarrow> u64"
  ba_total_frames :: nat
  ba_free_frames :: nat

definition buddy_new :: buddy where
  "buddy_new = \<lparr>free_bitmaps = (\<lambda>_ _. 0), ba_total_frames = 0, ba_free_frames = 0\<rparr>"

definition in_bitmap :: "nat \<Rightarrow> nat \<Rightarrow> bool" where
  "in_bitmap order idx \<longleftrightarrow> order \<le> MAX_ORDER \<and> idx div 64 < BITMAP_WORDS"

definition put_word :: "nat \<Rightarrow> nat \<Rightarrow> u64 \<Rightarrow> buddy \<Rightarrow> buddy" where
  "put_word order i w b =
     b\<lparr>free_bitmaps := (free_bitmaps b)(order := (free_bitmaps b order)(i := w))\<rparr>"

definition set_free :: "nat \<Rightarrow> nat \<Rightarrow> buddy \<Rightarrow> buddy option" where
  "set_free order idx b =
     (if in_bitmap order idx
      then Some (put_word order (idx div 64)
                   (free_bitmaps b order (idx div 64) OR bit_mask (idx mod 64)) b)
      else None)"

definition clr_free :: "nat \<Rightarrow> nat \<Rightarrow> buddy \<Rightarrow> buddy option" where
  "clr_free order idx b =
     (if in_bitmap order idx
      then Some (put_word order (idx div 64)
                   (free_bitmaps b order (idx div 64) AND NOT (bit_mask (idx mod 64))) b)
      else None)"

definition is_free :: "nat \<Rightarrow> nat \<Rightarrow> buddy \<Rightarrow> bool option" where
  "is_free order idx b =
     (if in_bitmap order idx
      then Some (free_bitmaps b order (idx div 64) AND bit_mask (idx mod 64) \<noteq> 0)
      else None)"

function find_free_from :: "buddy \<Rightarrow> nat \<Rightarrow> nat \<Rightarrow> nat \<Rightarrow> nat option" where
  "find_free_from b order i n =
     (if n \<le> i then None
      else if free_bitmaps b order i \<noteq> 0
      then Some (i * 64 + trailing_zeros (free_bitmaps b order i))
      else find_free_from b order (Suc i) n)"
  by pat_completeness auto
termination find_free_from
  by (relation "measure (\<lambda>(b, order, i, n). n - i)") auto

declare find_free_from.simps [simp del]

definition find_free :: "nat \<Rightarrow> buddy \<Rightarrow> nat option" where
  "find_free order b =
     find_free_from b order 0 (min ((MAX_FRAMES div 2 ^ order) div 64 + 1) BITMAP_WORDS)"

text \<open>
  \<open>split_down order d idx\<close> is the loop \<open>for split_order in (order..order+d).rev()\<close>:
  each round leaves the right half free and continues with the left half.
\<close>

primrec split_down :: "nat \<Rightarrow> nat \<Rightarrow> nat \<Rightarrow> buddy \<Rightarrow> (nat \<times> buddy) option" where
  "split_down order 0 idx b = Some (idx, b)"
| "split_down order (Suc d) idx b = do {
     b' \<leftarrow> set_free (order + d) (idx * 2 + 1) b;
     split_down order d (idx * 2) b'
   }"

definition take_frames :: "nat \<Rightarrow> buddy \<Rightarrow> buddy" where
  "take_frames n b =
     (if n \<le> ba_free_frames b then b\<lparr>ba_free_frames := ba_free_frames b - n\<rparr> else b)"

function alloc_from :: "nat \<Rightarrow> nat \<Rightarrow> buddy \<Rightarrow> (nat option \<times> buddy) option" where
  "alloc_from order k b =
     (if MAX_ORDER < k then Some (None, b)
      else case find_free k b of
        None \<Rightarrow> alloc_from order (Suc k) b
      | Some idx \<Rightarrow> do {
          b1 \<leftarrow> clr_free k idx b;
          (cur, b2) \<leftarrow> split_down order (k - order) idx b1;
          Some (Some (cur * 2 ^ order * PAGE_SIZE), take_frames (2 ^ order) b2)
        })"
  by pat_completeness auto
termination alloc_from
  by (relation "measure (\<lambda>(order, k, b). Suc MAX_ORDER - k)") auto

declare alloc_from.simps [simp del]

definition buddy_alloc :: "nat \<Rightarrow> buddy \<Rightarrow> (nat option \<times> buddy) option" where
  "buddy_alloc order b = alloc_from order order b"

function free_loop :: "nat \<Rightarrow> nat \<Rightarrow> buddy \<Rightarrow> buddy option" where
  "free_loop idx k b =
     (if MAX_ORDER \<le> k then set_free k idx b
      else case is_free k (idx XOR 1) b of
        None \<Rightarrow> None
      | Some False \<Rightarrow> set_free k idx b
      | Some True \<Rightarrow> (case clr_free k (idx XOR 1) b of
            None \<Rightarrow> None
          | Some b' \<Rightarrow> free_loop (idx div 2) (Suc k) b'))"
  by pat_completeness auto
termination free_loop
  by (relation "measure (\<lambda>(idx, k, b). MAX_ORDER - k)") auto

declare free_loop.simps [simp del]

definition buddy_free :: "nat \<Rightarrow> nat \<Rightarrow> buddy \<Rightarrow> buddy option" where
  "buddy_free phys order b =
     free_loop (phys div PAGE_SIZE div 2 ^ order) order
       (b\<lparr>ba_free_frames := ba_free_frames b + 2 ^ order\<rparr>)"

primrec clr_each :: "nat list \<Rightarrow> buddy \<Rightarrow> buddy option" where
  "clr_each [] b = Some b"
| "clr_each (f # fs) b = do { b' \<leftarrow> clr_free 0 f b; clr_each fs b' }"

definition mark_range_used :: "nat \<Rightarrow> nat \<Rightarrow> buddy \<Rightarrow> buddy option" where
  "mark_range_used first count b = do {
     b' \<leftarrow> clr_each [first..<first + count] b;
     Some (take_frames count b')
   }"

primrec free_each :: "nat list \<Rightarrow> buddy \<Rightarrow> buddy option" where
  "free_each [] b = Some b"
| "free_each (f # fs) b = do { b' \<leftarrow> buddy_free (f * PAGE_SIZE) 0 b; free_each fs b' }"

definition add_range :: "nat \<Rightarrow> nat \<Rightarrow> buddy \<Rightarrow> buddy option" where
  "add_range first count b = do {
     b' \<leftarrow> free_each [first..<first + count] b;
     Some (b'\<lparr>ba_total_frames := ba_total_frames b' + count\<rparr>)
   }"

section \<open>Blocks and the frames they cover\<close>

definition span :: "nat \<Rightarrow> nat \<Rightarrow> nat set" where
  "span k i = {f. f div 2 ^ k = i}"

definition blocks :: "buddy \<Rightarrow> (nat \<times> nat) set" where
  "blocks b = {(k, i). in_bitmap k i \<and> bit (free_bitmaps b k (i div 64)) (i mod 64)}"

definition cover :: "(nat \<times> nat) set \<Rightarrow> nat set" where
  "cover B = (\<Union>(k, i)\<in>B. span k i)"

definition valid_block :: "nat \<Rightarrow> nat \<Rightarrow> bool" where
  "valid_block k i \<longleftrightarrow> k \<le> MAX_ORDER \<and> i < MAX_FRAMES div 2 ^ k"

text \<open>
  The invariant on a set of free blocks: every block is inside memory, two blocks
  never overlap, and no block lies free beside its free buddy (below the top order).
\<close>

definition blocks_ok :: "(nat \<times> nat) set \<Rightarrow> bool" where
  "blocks_ok B \<longleftrightarrow>
     (\<forall>k i. (k, i) \<in> B \<longrightarrow> valid_block k i) \<and>
     (\<forall>k i l j f. (k, i) \<in> B \<and> (l, j) \<in> B \<and> f \<in> span k i \<and> f \<in> span l j \<longrightarrow> k = l \<and> i = j) \<and>
     (\<forall>k i. (k, i) \<in> B \<and> k < MAX_ORDER \<longrightarrow> (k, i XOR Suc 0) \<notin> B)"

definition free_set :: "buddy \<Rightarrow> nat set" where
  "free_set b = cover (blocks b)"

definition buddy_inv :: "buddy \<Rightarrow> bool" where
  "buddy_inv b \<longleftrightarrow> blocks_ok (blocks b) \<and> ba_free_frames b = card (free_set b)"

lemma xor_one_nat: "i XOR Suc 0 = (if even i then Suc i else i - 1)" for i :: nat
proof -
  have "i XOR Suc 0 = of_bool (even i) + 2 * (i div 2)"
    by (subst xor_nat_rec) simp
  then show ?thesis by (cases "even i") (auto elim!: evenE oddE)
qed

lemma xor_one_xor_one: "(i XOR Suc 0) XOR Suc 0 = i" for i :: nat
  by (cases "even i") (auto simp: xor_one_nat elim!: evenE oddE)

lemma mem_span: "f \<in> span k i \<longleftrightarrow> f div 2 ^ k = i"
  by (simp add: span_def)

lemma span_interval: "span k i = {i * 2 ^ k ..< (i + 1) * 2 ^ k}"
proof (rule set_eqI)
  fix f :: nat
  have "f \<in> span k i \<longleftrightarrow> i \<le> f div 2 ^ k \<and> f div 2 ^ k < i + 1"
    by (auto simp: span_def)
  also have "\<dots> \<longleftrightarrow> i * 2 ^ k \<le> f \<and> f < (i + 1) * 2 ^ k"
    by (simp only: less_eq_div_iff_mult_less_eq div_less_iff_less_mult zero_less_power zero_less_numeral)
  finally show "f \<in> span k i \<longleftrightarrow> f \<in> {i * 2 ^ k ..< (i + 1) * 2 ^ k}" by simp
qed

lemma span_facts [simp]: "finite (span k i)" "card (span k i) = 2 ^ k" "span k i \<noteq> {}"
  by (simp_all add: span_interval)

lemma span_0 [simp]: "span 0 i = {i}"
  by (auto simp: span_def)

lemma span_disjoint: "i \<noteq> j \<Longrightarrow> span k i \<inter> span k j = {}"
  by (auto simp: span_def)

lemma span_halves: "span (Suc k) i = span k (2 * i) \<union> span k (2 * i + 1)"
proof -
  have "f div 2 ^ Suc k = i \<longleftrightarrow> f div 2 ^ k = 2 * i \<or> f div 2 ^ k = 2 * i + 1" for f :: nat
  proof -
    have "f div 2 ^ Suc k = f div 2 ^ k div 2" by (metis div_mult2_eq power_Suc2)
    moreover have "x div 2 = i \<longleftrightarrow> x = 2 * i \<or> x = 2 * i + 1" for x :: nat
      by presburger
    ultimately show ?thesis by simp
  qed
  then show ?thesis by (auto simp: span_def)
qed

lemma span_buddy: "span (Suc k) (i div 2) = span k i \<union> span k (i XOR 1)"
  by (cases "even i") (auto simp: span_halves xor_one_nat elim!: evenE oddE)

lemma span_mono_iff: "k \<le> l \<Longrightarrow> span k j \<subseteq> span l i \<longleftrightarrow> j div 2 ^ (l - k) = i"
proof -
  assume kl: "k \<le> l"
  have "f div 2 ^ l = f div 2 ^ k div 2 ^ (l - k)" for f :: nat
    using kl by (simp add: div_mult2_eq [symmetric] power_add [symmetric])
  then show ?thesis using span_facts(3) [of k j] by (auto simp: span_def)
qed

section \<open>The bitmaps represent a set of blocks\<close>

lemma valid_block_in_bitmap: "valid_block k i \<Longrightarrow> in_bitmap k i"
proof -
  assume "valid_block k i"
  then have "k \<le> MAX_ORDER" "i < MAX_FRAMES"
    using div_le_dividend [of MAX_FRAMES "2 ^ k"] unfolding valid_block_def by linarith+
  then show ?thesis by (simp add: in_bitmap_def phys_consts less_mult_imp_div_less)
qed

lemma mem_blocks: "(k, i) \<in> blocks b \<longleftrightarrow>
    in_bitmap k i \<and> bit (free_bitmaps b k (i div 64)) (i mod 64)"
  by (simp add: blocks_def)

lemma blocks_put_or:
  "in_bitmap k i \<Longrightarrow>
     blocks (put_word k (i div 64) (free_bitmaps b k (i div 64) OR bit_mask (i mod 64)) b)
       = insert (k, i) (blocks b)"
  by (auto simp: mem_blocks put_word_def bits_simps split: if_splits dest: div_mod_64_eq)

lemma blocks_put_and_not:
  "in_bitmap k i \<Longrightarrow>
     blocks (put_word k (i div 64) (free_bitmaps b k (i div 64) AND NOT (bit_mask (i mod 64))) b)
       = blocks b - {(k, i)}"
  by (auto simp: mem_blocks put_word_def bits_simps split: if_splits dest: div_mod_64_eq)

lemma set_free_ok:
  assumes "in_bitmap k i"
  obtains b' where "set_free k i b = Some b'" "blocks b' = insert (k, i) (blocks b)"
    "ba_free_frames b' = ba_free_frames b" "ba_total_frames b' = ba_total_frames b"
  by (rule that) (use assms in \<open>simp add: set_free_def\<close>,
      simp_all add: blocks_put_or [OF assms], simp_all add: put_word_def)

lemma clr_free_ok:
  assumes "in_bitmap k i"
  obtains b' where "clr_free k i b = Some b'" "blocks b' = blocks b - {(k, i)}"
    "ba_free_frames b' = ba_free_frames b" "ba_total_frames b' = ba_total_frames b"
  by (rule that) (use assms in \<open>simp add: clr_free_def\<close>,
      simp_all add: blocks_put_and_not [OF assms], simp_all add: put_word_def)

lemma is_free_ok: "in_bitmap k i \<Longrightarrow> is_free k i b = Some ((k, i) \<in> blocks b)"
  by (simp add: is_free_def mem_blocks bits_simps)

lemma find_free_from_None:
  "find_free_from b k i n = None \<Longrightarrow> i \<le> j \<Longrightarrow> j < n \<Longrightarrow> free_bitmaps b k j = 0"
proof (induction b k i n rule: find_free_from.induct)
  case (1 b k i n)
  then show ?case
    using find_free_from.simps [of b k i n] by (cases "i = j") (simp_all split: if_splits)
qed

lemma find_free_from_Some:
  "find_free_from b k i n = Some x \<Longrightarrow>
     x div 64 < n \<and> bit (free_bitmaps b k (x div 64)) (x mod 64)"
proof (induction b k i n rule: find_free_from.induct)
  case (1 b k i n)
  then show ?case
    using trailing_zeros_least(1,2) [of "free_bitmaps b k i"]
    by (auto simp: find_free_from.simps [of b k i n] split: if_splits)
qed

lemma find_free_Some:
  assumes "find_free k b = Some i" "k \<le> MAX_ORDER"
  shows "(k, i) \<in> blocks b"
  using find_free_from_Some [OF assms(1) [unfolded find_free_def]] assms(2)
  by (simp add: mem_blocks in_bitmap_def)

lemma find_free_None:
  assumes "find_free k b = None" "blocks_ok (blocks b)"
  shows "(k, i) \<notin> blocks b"
proof
  assume i: "(k, i) \<in> blocks b"
  then have "i < MAX_FRAMES div 2 ^ k" using assms(2) by (auto simp: blocks_ok_def valid_block_def)
  then have "i div 64 \<le> MAX_FRAMES div 2 ^ k div 64" by (simp add: div_le_mono)
  moreover have "i div 64 < BITMAP_WORDS" using i by (simp add: mem_blocks in_bitmap_def)
  ultimately have "free_bitmaps b k (i div 64) = 0"
    using find_free_from_None [OF assms(1) [unfolded find_free_def], of "i div 64"] by simp
  then show False using i by (simp add: mem_blocks)
qed

section \<open>Adding and removing blocks\<close>

lemma blocks_okD:
  assumes "blocks_ok B"
  shows "(k, i) \<in> B \<Longrightarrow> valid_block k i"
    and "(k, i) \<in> B \<Longrightarrow> (l, j) \<in> B \<Longrightarrow> f \<in> span k i \<Longrightarrow> f \<in> span l j \<Longrightarrow> k = l \<and> i = j"
    and "(k, i) \<in> B \<Longrightarrow> k < MAX_ORDER \<Longrightarrow> (k, i XOR Suc 0) \<notin> B"
  using assms unfolding blocks_ok_def by blast+

lemma mem_cover: "f \<in> cover B \<longleftrightarrow> (\<exists>k i. (k, i) \<in> B \<and> f \<in> span k i)"
  by (auto simp: cover_def)

lemma cover_insert: "cover (insert (k, i) B) = span k i \<union> cover B"
  by (auto simp: cover_def)

lemma cover_remove:
  "blocks_ok B \<Longrightarrow> (k, i) \<in> B \<Longrightarrow> cover (B - {(k, i)}) = cover B - span k i"
  by (fastforce simp: mem_cover dest: blocks_okD(2))

lemma blocks_ok_subset: "blocks_ok B \<Longrightarrow> C \<subseteq> B \<Longrightarrow> blocks_ok C"
  unfolding blocks_ok_def by blast

lemma blocks_ok_insert:
  assumes "blocks_ok B" "valid_block k i" "span k i \<inter> cover B = {}"
    "k < MAX_ORDER \<Longrightarrow> (k, i XOR Suc 0) \<notin> B"
  shows "blocks_ok (insert (k, i) B)"
proof -
  have sep: "f \<notin> span l j" if "(l, j) \<in> B" "f \<in> span k i" for l j f
    using that assms(3) unfolding cover_def by blast
  have ne: "i XOR Suc 0 \<noteq> i" by (cases "i = 0") (auto simp: xor_one_nat)
  have bud: "j XOR Suc 0 \<noteq> i" if "k < MAX_ORDER" "(k, j) \<in> B" for j
    using that assms(4) xor_one_xor_one [of j] by auto
  show ?thesis
    unfolding blocks_ok_def
  proof (intro conjI allI impI)
    fix l j assume "(l, j) \<in> insert (k, i) B"
    then show "valid_block l j" using assms(2) blocks_okD(1) [OF assms(1)] by auto
  next
    fix l j m n f assume "(l, j) \<in> insert (k, i) B \<and> (m, n) \<in> insert (k, i) B \<and> f \<in> span l j \<and> f \<in> span m n"
    then show "l = m" "j = n" using sep blocks_okD(2) [OF assms(1)] by auto
  next
    fix l j assume "(l, j) \<in> insert (k, i) B \<and> l < MAX_ORDER"
    then show "(l, j XOR Suc 0) \<notin> insert (k, i) B"
      using ne bud assms(4) blocks_okD(3) [OF assms(1)] by auto
  qed
qed

lemma span_in_memory: "valid_block k i \<Longrightarrow> span k i \<subseteq> {..<MAX_FRAMES}"
proof
  fix f assume v: "valid_block k i" and "f \<in> span k i"
  then have "f div 2 ^ k < MAX_FRAMES div 2 ^ k" by (simp add: mem_span valid_block_def)
  then show "f \<in> {..<MAX_FRAMES}" 
    using div_le_mono [of MAX_FRAMES f "2 ^ k"] by (metis lessThan_iff not_le)
qed

lemma cover_in_memory: "blocks_ok B \<Longrightarrow> cover B \<subseteq> {..<MAX_FRAMES}"
  using span_in_memory blocks_okD(1) unfolding cover_def by blast

lemma finite_cover: "blocks_ok B \<Longrightarrow> finite (cover B)"
  using cover_in_memory finite_subset by blast

lemma valid_block_child:
  "valid_block (Suc k) i \<Longrightarrow> valid_block k (2 * i) \<and> valid_block k (2 * i + 1)"
proof -
  assume v: "valid_block (Suc k) i"
  have "MAX_FRAMES div 2 ^ Suc k = MAX_FRAMES div 2 ^ k div 2" by (metis div_mult2_eq power_Suc2)
  then have "i < MAX_FRAMES div 2 ^ k div 2" using v by (simp add: valid_block_def)
  then have "2 * i + 1 < MAX_FRAMES div 2 ^ k" by linarith
  then show ?thesis using v by (simp add: valid_block_def)
qed

lemma valid_block_parent:
  assumes "valid_block k i" "k < MAX_ORDER"
  shows "valid_block (Suc k) (i div 2)" "valid_block k (i XOR Suc 0)"
proof -
  have ev: "even (MAX_FRAMES div 2 ^ k)"
  proof -
    have "k < 20" using assms(2) by (simp add: phys_consts)
    then have "(2::nat) ^ 20 = 2 ^ k * 2 ^ (20 - k)" by (simp flip: power_add)
    then have "MAX_FRAMES div 2 ^ k = 2 ^ (20 - k)"
      unfolding MAX_FRAMES_def by (metis nonzero_mult_div_cancel_left power_not_zero zero_neq_numeral)
    then show ?thesis using \<open>k < 20\<close> by simp
  qed
  have d: "MAX_FRAMES div 2 ^ Suc k = MAX_FRAMES div 2 ^ k div 2" by (metis div_mult2_eq power_Suc2)
  have i: "i < MAX_FRAMES div 2 ^ k" using assms by (simp add: valid_block_def)
  show "valid_block (Suc k) (i div 2)"
    using i ev assms(2) unfolding valid_block_def d by auto
  show "valid_block k (i XOR Suc 0)"
    using i ev assms(2) unfolding valid_block_def xor_one_nat by (auto elim!: evenE)
qed

section \<open>Allocation and release refine a set of free frames\<close>

lemma split_down_ok:
  assumes "blocks_ok (blocks b)" "valid_block (order + d) idx"
    "span (order + d) idx \<inter> cover (blocks b) = {}"
  shows "\<exists>cur b'. split_down order d idx b = Some (cur, b') \<and> blocks_ok (blocks b') \<and>
    valid_block order cur \<and> span order cur \<subseteq> span (order + d) idx \<and>
    cover (blocks b') = cover (blocks b) \<union> (span (order + d) idx - span order cur) \<and>
    ba_free_frames b' = ba_free_frames b \<and> ba_total_frames b' = ba_total_frames b"
  using assms
proof (induction d arbitrary: idx b)
  case 0
  then show ?case by auto
next
  case (Suc d)
  have halves: "span (order + Suc d) idx = span (order + d) (2 * idx) \<union> span (order + d) (2 * idx + 1)"
    using span_halves by simp
  have v: "valid_block (order + d) (2 * idx)" "valid_block (order + d) (2 * idx + 1)"
    using valid_block_child [of "order + d" idx] Suc.prems(2) by auto
  obtain b1 where b1: "set_free (order + d) (2 * idx + 1) b = Some b1"
    "blocks b1 = insert (order + d, 2 * idx + 1) (blocks b)"
    "ba_free_frames b1 = ba_free_frames b" "ba_total_frames b1 = ba_total_frames b"
    using set_free_ok valid_block_in_bitmap [OF v(2)] by blast
  have nb: "(order + d, 2 * idx) \<notin> blocks b"
    using Suc.prems(3) span_facts(3) [of "order + d" "2 * idx"] unfolding halves cover_def by blast
  have "blocks_ok (blocks b1)"
    unfolding b1(2) using Suc.prems v nb halves
    by (intro blocks_ok_insert) (auto simp: xor_one_nat)
  moreover have "span (order + d) (2 * idx) \<inter> cover (blocks b1) = {}"
    using Suc.prems(3) halves span_disjoint [of "2 * idx" "2 * idx + 1" "order + d"]
    unfolding b1(2) cover_insert by auto
  ultimately obtain cur b' where r: "split_down order d (2 * idx) b1 = Some (cur, b')"
    "blocks_ok (blocks b')" "valid_block order cur" "span order cur \<subseteq> span (order + d) (2 * idx)"
    "cover (blocks b') = cover (blocks b1) \<union> (span (order + d) (2 * idx) - span order cur)"
    "ba_free_frames b' = ba_free_frames b1" "ba_total_frames b' = ba_total_frames b1"
    using Suc.IH [OF _ v(1)] by blast
  have "span (order + d) (2 * idx + 1) \<inter> span order cur = {}"
    using r(4) span_disjoint [of "2 * idx" "2 * idx + 1" "order + d"] by auto
  then show ?case
    using r b1 halves by (auto simp: mult.commute cover_insert)
qed

lemma take_frames_simps [simp]:
  "blocks (take_frames n b) = blocks b" "free_set (take_frames n b) = free_set b"
  "ba_total_frames (take_frames n b) = ba_total_frames b"
  by (auto simp: take_frames_def blocks_def free_set_def)

lemma alloc_from_ok:
  assumes "buddy_inv b" "order \<le> k"
  shows "(\<exists>cur b'. alloc_from order k b = Some (Some (cur * 2 ^ order * PAGE_SIZE), b') \<and>
      buddy_inv b' \<and> valid_block order cur \<and> span order cur \<subseteq> free_set b \<and>
      free_set b' = free_set b - span order cur) \<or>
    alloc_from order k b = Some (None, b) \<and> (\<forall>l i. k \<le> l \<longrightarrow> (l, i) \<notin> blocks b)"
  using assms
proof (induction order k b rule: alloc_from.induct)
  case (1 order k b)
  have ok: "blocks_ok (blocks b)" and cnt: "ba_free_frames b = card (free_set b)"
    using "1.prems" by (simp_all add: buddy_inv_def)
  show ?case
  proof (cases "MAX_ORDER < k")
    case True
    then have "alloc_from order k b = Some (None, b)" by (simp add: alloc_from.simps [of order k b])
    moreover have "(l, i) \<notin> blocks b" if "k \<le> l" for l i
      using True that blocks_okD(1) [OF ok, of l i] by (auto simp: valid_block_def)
    ultimately show ?thesis by blast
  next
    case False
    show ?thesis
    proof (cases "find_free k b")
      case None
      have "(l, i) \<notin> blocks b" if "k \<le> l" "\<forall>l i. Suc k \<le> l \<longrightarrow> (l, i) \<notin> blocks b" for l i
        using that find_free_None [OF None ok] by (cases "l = k") auto
      moreover have "alloc_from order k b = alloc_from order (Suc k) b"
        using None False by (simp add: alloc_from.simps [of order k b])
      ultimately show ?thesis
        using "1.IH" [OF False None "1.prems"(1)] "1.prems"(2) by (metis le_SucI)
    next
      case (Some idx)
      have m: "(k, idx) \<in> blocks b" using find_free_Some [OF Some] False by simp
      then have v: "valid_block k idx" using blocks_okD(1) [OF ok] by simp
      obtain b1 where b1: "clr_free k idx b = Some b1" "blocks b1 = blocks b - {(k, idx)}"
        "ba_free_frames b1 = ba_free_frames b"
        using clr_free_ok valid_block_in_bitmap [OF v] by blast
      have c1: "cover (blocks b1) = cover (blocks b) - span k idx"
        unfolding b1(2) using cover_remove [OF ok m] .
      have "blocks_ok (blocks b1)" using blocks_ok_subset [OF ok] b1(2) by auto
      then obtain cur b2 where b2: "split_down order (k - order) idx b1 = Some (cur, b2)"
        "blocks_ok (blocks b2)" "valid_block order cur" "span order cur \<subseteq> span k idx"
        "cover (blocks b2) = cover (blocks b1) \<union> (span k idx - span order cur)"
        "ba_free_frames b2 = ba_free_frames b1"
        using split_down_ok [of b1 order "k - order" idx] v c1 "1.prems"(2) by auto
      have sub: "span k idx \<subseteq> free_set b" using m by (auto simp: free_set_def cover_def)
      have fs: "free_set b2 = free_set b - span order cur"
        using b2(4,5) c1 sub by (auto simp: free_set_def)
      have "card (free_set b2) = card (free_set b) - 2 ^ order" "2 ^ order \<le> card (free_set b)"
        using fs b2(4) sub finite_cover [OF ok] card_mono [of "free_set b" "span order cur"]
        by (auto simp: card_Diff_subset free_set_def)
      then have "buddy_inv (take_frames (2 ^ order) b2)"
        using b2(2,6) b1(3) cnt by (simp add: buddy_inv_def take_frames_def free_set_def blocks_def)
      moreover have "alloc_from order k b =
          Some (Some (cur * 2 ^ order * PAGE_SIZE), take_frames (2 ^ order) b2)"
        using False Some b1(1) b2(1) by (simp add: alloc_from.simps [of order k b])
      ultimately show ?thesis
        using b2(3,4) fs sub by (metis order_trans take_frames_simps(2))
    qed
  qed
qed

lemma free_loop_ok:
  assumes "blocks_ok (blocks b)" "valid_block k i" "span k i \<inter> cover (blocks b) = {}"
  shows "\<exists>b'. free_loop i k b = Some b' \<and> blocks_ok (blocks b') \<and>
    cover (blocks b') = cover (blocks b) \<union> span k i \<and>
    ba_free_frames b' = ba_free_frames b \<and> ba_total_frames b' = ba_total_frames b"
  using assms
proof (induction i k b rule: free_loop.induct)
  case (1 i k b)
  obtain b1 where b1: "set_free k i b = Some b1" "blocks b1 = insert (k, i) (blocks b)"
    "ba_free_frames b1 = ba_free_frames b" "ba_total_frames b1 = ba_total_frames b"
    using set_free_ok valid_block_in_bitmap [OF "1.prems"(2)] by blast
  have stop: ?case if "free_loop i k b = set_free k i b" "k < MAX_ORDER \<Longrightarrow> (k, i XOR Suc 0) \<notin> blocks b"
    using that b1 blocks_ok_insert [OF "1.prems"] by (auto simp: cover_insert)
  show ?case
  proof (cases "k < MAX_ORDER \<and> (k, i XOR Suc 0) \<in> blocks b")
    case False
    show ?thesis
    proof (rule stop)
      show "free_loop i k b = set_free k i b"
        using False valid_block_parent(2) [OF "1.prems"(2)] is_free_ok [OF valid_block_in_bitmap]
        by (auto simp: free_loop.simps [of i k b])
    qed (use False in blast)
  next
    case True
    have v: "valid_block k (i XOR Suc 0)" "valid_block (Suc k) (i div 2)"
      using valid_block_parent [OF "1.prems"(2)] True by auto
    have isf: "is_free k (i XOR 1) b = Some True"
      using True is_free_ok [OF valid_block_in_bitmap [OF v(1)]] by simp
    obtain b2 where b2: "clr_free k (i XOR 1) b = Some b2"
      "blocks b2 = blocks b - {(k, i XOR Suc 0)}"
      "ba_free_frames b2 = ba_free_frames b" "ba_total_frames b2 = ba_total_frames b"
      using clr_free_ok [OF valid_block_in_bitmap [OF v(1)]] by (metis One_nat_def)
    have c2: "cover (blocks b2) = cover (blocks b) - span k (i XOR Suc 0)"
      unfolding b2(2) using cover_remove [OF "1.prems"(1)] True by blast
    have sp: "span (Suc k) (i div 2) = span k i \<union> span k (i XOR Suc 0)"
      using span_buddy [of k i] by simp
    have in_cover: "span k (i XOR Suc 0) \<subseteq> cover (blocks b)" using True by (auto simp: cover_def)
    have "blocks_ok (blocks b2)" using blocks_ok_subset [OF "1.prems"(1)] b2(2) by auto
    moreover have "span (Suc k) (i div 2) \<inter> cover (blocks b2) = {}"
      using "1.prems"(3) c2 sp by auto
    moreover have "\<not> MAX_ORDER \<le> k" using True by simp
    ultimately obtain b' where b': "free_loop (i div 2) (Suc k) b2 = Some b'" "blocks_ok (blocks b')"
      "cover (blocks b') = cover (blocks b2) \<union> span (Suc k) (i div 2)"
      "ba_free_frames b' = ba_free_frames b2" "ba_total_frames b' = ba_total_frames b2"
      using "1.IH" [OF _ isf _ b2(1)] v(2) by auto
    moreover have "free_loop i k b = free_loop (i div 2) (Suc k) b2"
      using True isf b2(1) by (simp add: free_loop.simps [of i k b])
    moreover have "cover (blocks b') = cover (blocks b) \<union> span k i"
      using b'(3) c2 sp in_cover by auto
    ultimately show ?thesis using b2(3,4) by simp
  qed
qed

text \<open>
  A block of the free set that is aligned to its size lies inside one free block:
  a consequence of full coalescing, and the reason the allocator finds room
  whenever there is room.
\<close>

lemma aligned_block_in_one:
  assumes "blocks_ok B" "k \<le> MAX_ORDER" "span k j \<subseteq> cover B"
  shows "\<exists>l i. (l, i) \<in> B \<and> k \<le> l \<and> span k j \<subseteq> span l i"
  using assms(2,3)
proof (induction k arbitrary: j)
  case 0
  then show ?case by (auto simp: mem_cover)
next
  case (Suc k)
  have half: "span (Suc k) j = span k (2 * j) \<union> span k (2 * j + 1)" by (rule span_halves)
  obtain l i where li: "(l, i) \<in> B" "k \<le> l" "span k (2 * j) \<subseteq> span l i"
    using Suc.IH [of "2 * j"] Suc.prems half by auto
  obtain m n where mn: "(m, n) \<in> B" "k \<le> m" "span k (2 * j + 1) \<subseteq> span m n"
    using Suc.IH [of "2 * j + 1"] Suc.prems half by auto
  have up: "span (Suc k) j \<subseteq> span l' i'" if "Suc k \<le> l'" "span k x \<subseteq> span l' i'" "x div 2 = j" for l' i' x
  proof -
    have "x div 2 ^ (l' - k) = i'" using that span_mono_iff [of k l' x i'] by simp
    moreover have "l' - k = Suc (l' - Suc k)" using that by simp
    ultimately have "j div 2 ^ (l' - Suc k) = i'" using that(3) by (simp add: div_mult2_eq)
    then show ?thesis using span_mono_iff [of "Suc k" l' j i'] that(1) by simp
  qed
  show ?case
  proof (cases "Suc k \<le> l \<or> Suc k \<le> m")
    case True
    then show ?thesis using li mn up [of l "2 * j" i] up [of m "2 * j + 1" n] by auto
  next
    case False
    then have "l = k" "m = k" using li mn by auto
    then have "i = 2 * j" "n = 2 * j + 1"
      using li(3) mn(3) span_mono_iff [of k k] by auto
    then have "(k, 2 * j) \<in> B" "(k, 2 * j XOR Suc 0) \<in> B"
      using li mn \<open>l = k\<close> \<open>m = k\<close> by (simp_all add: xor_one_nat)
    then show ?thesis using blocks_okD(3) [OF assms(1)] Suc.prems(1) by (auto simp: Suc_le_eq)
  qed
qed

lemma buddy_new_inv: "buddy_inv buddy_new" "free_set buddy_new = {}"
proof -
  have "blocks buddy_new = {}" by (auto simp: blocks_def buddy_new_def)
  then show "buddy_inv buddy_new" "free_set buddy_new = {}"
    by (auto simp: buddy_inv_def free_set_def blocks_ok_def cover_def buddy_new_def)
qed

lemma free_set_in_memory: "buddy_inv b \<Longrightarrow> free_set b \<subseteq> {..<MAX_FRAMES}"
  by (simp add: buddy_inv_def free_set_def cover_in_memory)

lemma buddy_free_ok:
  assumes "buddy_inv b" "valid_block order i" "phys = i * 2 ^ order * PAGE_SIZE"
    "span order i \<inter> free_set b = {}"
  shows "\<exists>b'. buddy_free phys order b = Some b' \<and> buddy_inv b' \<and>
    free_set b' = free_set b \<union> span order i \<and> ba_total_frames b' = ba_total_frames b"
proof -
  let ?b = "b\<lparr>ba_free_frames := ba_free_frames b + 2 ^ order\<rparr>"
  have bl: "blocks ?b = blocks b" by (simp add: blocks_def)
  have idx: "phys div PAGE_SIZE div 2 ^ order = i" using assms(3) by (simp add: PAGE_SIZE_def)
  obtain b' where b': "free_loop i order ?b = Some b'" "blocks_ok (blocks b')"
    "cover (blocks b') = cover (blocks b) \<union> span order i"
    "ba_free_frames b' = ba_free_frames b + 2 ^ order" "ba_total_frames b' = ba_total_frames b"
    using free_loop_ok [of ?b order i] assms by (auto simp: bl buddy_inv_def free_set_def)
  have "card (free_set b \<union> span order i) = card (free_set b) + 2 ^ order"
    using assms(1,4) by (subst card_Un_disjoint) (auto simp: buddy_inv_def free_set_def finite_cover)
  then show ?thesis
    using b' assms(1) idx by (auto simp: buddy_inv_def free_set_def buddy_free_def)
qed

end
