(* ===== verification/Frame_Cache.thy ===== *)
theory Frame_Cache
  imports Phys_Frames
begin

text \<open>
  The public interface of the physical allocator (kernel/src/memory/phys.rs from the
  magazines on): per-CPU magazines, boot-time initialisation from the UEFI memory
  map, \<open>alloc_frame\<close>, \<open>free_frame\<close> and the contiguous variants.  The number of the
  running CPU (\<open>smp::current_cpu_id\<close>) is an argument.  The magazine's
  compare-and-exchange loops are the single successful exchange.  The interface
  the rest of the kernel relies on is the locale \<open>frame_allocator\<close>, interpreted at
  the end of the theory.
\<close>

section \<open>Magazines\<close>

record magazine =
  mag_frames :: "nat list"
  mag_top :: nat

definition magazine_new :: magazine where
  "magazine_new = \<lparr>mag_frames = replicate MAGAZINE_SIZE 0, mag_top = 0\<rparr>"

definition mag_pop :: "magazine \<Rightarrow> nat \<times> magazine" where
  "mag_pop m = (if mag_top m = 0 then (0, m)
     else (mag_frames m ! (mag_top m - 1), m\<lparr>mag_top := mag_top m - 1\<rparr>))"

definition mag_push :: "nat \<Rightarrow> magazine \<Rightarrow> bool \<times> magazine" where
  "mag_push phys m = (if MAGAZINE_SIZE \<le> mag_top m then (False, m)
     else (True, m\<lparr>mag_top := mag_top m + 1, mag_frames := (mag_frames m)[mag_top m := phys]\<rparr>))"

definition mag_is_empty :: "magazine \<Rightarrow> bool" where
  "mag_is_empty m \<longleftrightarrow> mag_top m = 0"

definition mag_is_full :: "magazine \<Rightarrow> bool" where
  "mag_is_full m \<longleftrightarrow> MAGAZINE_SIZE \<le> mag_top m"

definition mag_count :: "magazine \<Rightarrow> nat" where
  "mag_count m = mag_top m"

definition mag_clear :: "magazine \<Rightarrow> magazine" where
  "mag_clear m = m\<lparr>mag_top := 0\<rparr>"

record phys_state =
  BUDDY :: buddy
  MAGAZINES :: "nat \<Rightarrow> magazine"
  TOTAL_FREE :: u64
  TOTAL_ALL :: u64

section \<open>Boot\<close>

record mem_desc =
  md_type :: u32
  md_phys_start :: u64
  md_num_pages :: u64

record boot_info =
  memory_map :: "mem_desc list"
  kernel_phys_start :: u64
  kernel_phys_end :: u64
  init_phys_start :: u64
  init_size :: u64
  qshell_phys_start :: u64
  qshell_size :: u64

definition page_down :: "u64 \<Rightarrow> u64" where
  "page_down a = a AND NOT (of_nat PAGE_SIZE - 1)"

definition page_up :: "u64 \<Rightarrow> u64" where
  "page_up a = page_down (a + of_nat PAGE_SIZE - 1)"

definition is_reserved :: "boot_info \<Rightarrow> u64 \<Rightarrow> bool" where
  "is_reserved bi phys \<longleftrightarrow>
     phys < 0x100000
   \<or> page_down (kernel_phys_start bi) \<le> phys \<and> phys < page_up (kernel_phys_end bi)
   \<or> init_size bi \<noteq> 0 \<and> page_down (init_phys_start bi) \<le> phys
       \<and> phys < page_up (init_phys_start bi + init_size bi)
   \<or> qshell_size bi \<noteq> 0 \<and> page_down (qshell_phys_start bi) \<le> phys
       \<and> phys < page_up (qshell_phys_start bi + qshell_size bi)"

definition usable_type :: "u32 \<Rightarrow> bool" where
  "usable_type t \<longleftrightarrow> t \<in> {7, 3, 4, 1, 2}"

text \<open>
  The loop over the pages of a descriptor.  Addresses are 64-bit and wrap; the loop of a
  descriptor that ends within a page of the top of the address space may never end,
  which is the value \<open>None\<close>, as is the panic of an index past the bitmap.
\<close>

partial_function (option) init_pages :: "boot_info \<Rightarrow> u64 \<Rightarrow> u64 \<Rightarrow> nat \<Rightarrow> buddy \<Rightarrow> (nat \<times> buddy) option" where
  "init_pages bi phys desc_end tot b =
     (if phys < desc_end
      then if is_reserved bi phys
           then init_pages bi (phys + of_nat PAGE_SIZE) desc_end (tot + 1) b
           else do {
             b' \<leftarrow> add_range (unat (phys div of_nat PAGE_SIZE)) 1 b;
             init_pages bi (phys + of_nat PAGE_SIZE) desc_end (tot + 1) b'
           }
      else Some (tot, b))"

primrec init_descs :: "boot_info \<Rightarrow> mem_desc list \<Rightarrow> nat \<Rightarrow> buddy \<Rightarrow> (nat \<times> buddy) option" where
  "init_descs bi [] tot b = Some (tot, b)"
| "init_descs bi (d # ds) tot b =
     (if usable_type (md_type d)
      then do {
        (tot', b') \<leftarrow> init_pages bi (max (md_phys_start d) 0x100000)
                 (md_phys_start d + md_num_pages d * of_nat PAGE_SIZE) tot b;
        init_descs bi ds tot' b'
      }
      else init_descs bi ds tot b)"

definition phys_init :: "boot_info \<Rightarrow> phys_state \<Rightarrow> phys_state option" where
  "phys_init bi s = do {
     (tot, b) \<leftarrow> init_descs bi (memory_map bi) 0 buddy_new;
     Some (s\<lparr>BUDDY := b, TOTAL_ALL := of_nat tot, TOTAL_FREE := of_nat (ba_free_frames b)\<rparr>)
   }"

definition phys_boot :: phys_state where
  "phys_boot = \<lparr>BUDDY = buddy_new, MAGAZINES = (\<lambda>_. magazine_new), TOTAL_FREE = 0, TOTAL_ALL = 0\<rparr>"

section \<open>Single frames\<close>

function refill :: "buddy \<Rightarrow> magazine \<Rightarrow> (buddy \<times> magazine) option" where
  "refill b m =
     (if mag_is_full m then Some (b, m)
      else case buddy_alloc 0 b of
        None \<Rightarrow> None
      | Some (None, b') \<Rightarrow> Some (b', m)
      | Some (Some p, b') \<Rightarrow> refill b' (snd (mag_push p m)))"
  by pat_completeness auto
termination refill
  by (relation "measure (\<lambda>(b, m). MAGAZINE_SIZE - mag_top m)")
    (auto simp: mag_is_full_def mag_push_def)

declare refill.simps [simp del]

definition cpu_slot :: "nat \<Rightarrow> nat" where
  "cpu_slot cpu = min cpu (MAX_CPUS_PHYS - 1)"

definition alloc_frame :: "nat \<Rightarrow> phys_state \<Rightarrow> (nat option \<times> phys_state) option" where
  "alloc_frame cpu s =
     (let c = cpu_slot cpu; (p, m) = mag_pop (MAGAZINES s c) in
      if p \<noteq> 0
      then Some (Some p, s\<lparr>MAGAZINES := (MAGAZINES s)(c := m), TOTAL_FREE := TOTAL_FREE s - 1\<rparr>)
      else do {
        (b, m1) \<leftarrow> refill (BUDDY s) m;
        let (q, m2) = mag_pop m1;
        let s' = s\<lparr>BUDDY := b, MAGAZINES := (MAGAZINES s)(c := m2)\<rparr>;
        Some (if q \<noteq> 0 then (Some q, s'\<lparr>TOTAL_FREE := TOTAL_FREE s - 1\<rparr>) else (None, s'))
      })"

primrec drain :: "nat \<Rightarrow> buddy \<Rightarrow> magazine \<Rightarrow> (buddy \<times> magazine) option" where
  "drain 0 b m = Some (b, m)"
| "drain (Suc n) b m =
     (let (p, m') = mag_pop m in
      if p \<noteq> 0 then do { b' \<leftarrow> buddy_free p 0 b; drain n b' m' } else Some (b, m'))"

definition free_frame :: "nat \<Rightarrow> nat \<Rightarrow> phys_state \<Rightarrow> phys_state option" where
  "free_frame cpu phys s =
     (let c = cpu_slot cpu; (ok, m) = mag_push phys (MAGAZINES s c) in
      if ok
      then Some (s\<lparr>MAGAZINES := (MAGAZINES s)(c := m), TOTAL_FREE := TOTAL_FREE s + 1\<rparr>)
      else do {
        (b, m1) \<leftarrow> drain (mag_count m div 2) (BUDDY s) m;
        let m2 = snd (mag_push phys m1);
        Some (s\<lparr>BUDDY := b, MAGAZINES := (MAGAZINES s)(c := m2), TOTAL_FREE := TOTAL_FREE s + 1\<rparr>)
      })"

section \<open>Contiguous frames and statistics\<close>

fun bit_length :: "nat \<Rightarrow> nat" where
  "bit_length n = (if n = 0 then 0 else Suc (bit_length (n div 2)))"

declare bit_length.simps [simp del]

definition is_power_of_two :: "nat \<Rightarrow> bool" where
  "is_power_of_two n \<longleftrightarrow> n \<noteq> 0 \<and> n = 2 ^ (bit_length n - 1)"

definition alloc_order :: "nat \<Rightarrow> nat" where
  "alloc_order n = min (bit_length n - (if is_power_of_two n then 1 else 0)) MAX_ORDER"

definition alloc_frames :: "nat \<Rightarrow> nat \<Rightarrow> phys_state \<Rightarrow> (nat option \<times> phys_state) option" where
  "alloc_frames cpu n s =
     (if n = 0 then Some (None, s)
      else if n = 1 then alloc_frame cpu s
      else do {
        (r, b) \<leftarrow> buddy_alloc (alloc_order n) (BUDDY s);
        Some (case r of
          None \<Rightarrow> (None, s\<lparr>BUDDY := b\<rparr>)
        | Some p \<Rightarrow> (Some p, s\<lparr>BUDDY := b, TOTAL_FREE := TOTAL_FREE s - 2 ^ alloc_order n\<rparr>))
      })"

definition free_order :: "nat \<Rightarrow> nat" where
  "free_order n = min (bit_length n - 1) MAX_ORDER"

definition free_frames_n :: "nat \<Rightarrow> nat \<Rightarrow> nat \<Rightarrow> phys_state \<Rightarrow> phys_state option" where
  "free_frames_n cpu phys n s =
     (if n = 1 then free_frame cpu phys s
      else do {
        b \<leftarrow> buddy_free phys (free_order n) (BUDDY s);
        Some (s\<lparr>BUDDY := b, TOTAL_FREE := TOTAL_FREE s + 2 ^ free_order n\<rparr>)
      })"

definition free_frames :: "phys_state \<Rightarrow> u64" where
  "free_frames s = TOTAL_FREE s"

definition total_frames :: "phys_state \<Rightarrow> u64" where
  "total_frames s = TOTAL_ALL s"

definition reserve_range :: "nat \<Rightarrow> nat \<Rightarrow> phys_state \<Rightarrow> phys_state option" where
  "reserve_range phys_start bytes s = do {
     b \<leftarrow> mark_range_used (phys_start div PAGE_SIZE) ((bytes + PAGE_SIZE - 1) div PAGE_SIZE) (BUDDY s);
     Some (s\<lparr>BUDDY := b\<rparr>)
   }"

definition usage_percent :: "phys_state \<Rightarrow> u32" where
  "usage_percent s =
     (if TOTAL_ALL s = 0 then 0
      else ucast ((if TOTAL_ALL s \<le> TOTAL_FREE s then 0 else TOTAL_ALL s - TOTAL_FREE s)
                    * 100 div TOTAL_ALL s))"

section \<open>The frames a CPU can reach\<close>

definition mag_stack :: "magazine \<Rightarrow> nat list" where
  "mag_stack m = take (mag_top m) (mag_frames m)"

definition cached :: "magazine \<Rightarrow> nat set" where
  "cached m = (\<lambda>p. p div PAGE_SIZE) ` set (mag_stack m)"

definition mag_ok :: "magazine \<Rightarrow> bool" where
  "mag_ok m \<longleftrightarrow> length (mag_frames m) = MAGAZINE_SIZE \<and> mag_top m \<le> MAGAZINE_SIZE \<and>
     distinct (mag_stack m) \<and> (\<forall>p\<in>set (mag_stack m). p \<noteq> 0 \<and> PAGE_SIZE dvd p)"

definition cache_ok :: "buddy \<Rightarrow> magazine \<Rightarrow> bool" where
  "cache_ok b m \<longleftrightarrow> buddy_inv b \<and> 0 \<notin> free_set b \<and> mag_ok m \<and>
     cached m \<inter> free_set b = {} \<and> cached m \<subseteq> {..<MAX_FRAMES}"

definition avail :: "buddy \<Rightarrow> magazine \<Rightarrow> nat set" where
  "avail b m = free_set b \<union> cached m"

lemma mag_pop_empty: "mag_stack m = [] \<Longrightarrow> mag_ok m \<Longrightarrow> mag_pop m = (0, m)"
  by (auto simp: mag_stack_def mag_ok_def mag_pop_def phys_consts)

lemma mag_pop_stack:
  assumes "mag_ok m" "mag_stack m \<noteq> []"
  obtains p m' where "mag_pop m = (p, m')" "mag_stack m = mag_stack m' @ [p]"
    "mag_top m' = mag_top m - 1" "mag_frames m' = mag_frames m"
proof -
  have t: "0 < mag_top m" "mag_top m \<le> length (mag_frames m)"
    using assms by (auto simp: mag_ok_def mag_stack_def)
  then have "mag_stack m = take (mag_top m - 1) (mag_frames m) @ [mag_frames m ! (mag_top m - 1)]"
    unfolding mag_stack_def by (metis Suc_pred' less_eq_Suc_le take_Suc_conv_app_nth)
  then show thesis
    using t by (intro that [of _ "m\<lparr>mag_top := mag_top m - 1\<rparr>"]) (auto simp: mag_pop_def mag_stack_def)
qed

lemma mag_push_stack:
  assumes "mag_ok m" "mag_top m < MAGAZINE_SIZE"
  obtains m' where "mag_push p m = (True, m')" "mag_stack m' = mag_stack m @ [p]"
    "mag_top m' = Suc (mag_top m)" "length (mag_frames m') = length (mag_frames m)"
  using assms
  by (intro that [of "snd (mag_push p m)"])
    (auto simp: mag_push_def mag_stack_def mag_ok_def take_Suc_conv_app_nth)

lemma page_div_inj: "PAGE_SIZE dvd p \<Longrightarrow> PAGE_SIZE dvd q \<Longrightarrow> p div PAGE_SIZE = q div PAGE_SIZE \<Longrightarrow> p = q"
  by (metis dvd_mult_div_cancel)

lemma page_div_nonzero: "PAGE_SIZE dvd p \<Longrightarrow> p \<noteq> 0 \<Longrightarrow> p div PAGE_SIZE \<noteq> 0"
  by (metis dvd_mult_div_cancel mult_0_right)

lemma mag_pop_ok:
  assumes "mag_ok m" "mag_stack m \<noteq> []"
  shows "\<exists>p m'. mag_pop m = (p, m') \<and> mag_ok m' \<and> p \<noteq> 0 \<and> PAGE_SIZE dvd p \<and>
    p div PAGE_SIZE \<in> cached m \<and> cached m' = cached m - {p div PAGE_SIZE} \<and>
    mag_top m' = mag_top m - 1"
proof -
  obtain p m' where pm: "mag_pop m = (p, m')" "mag_stack m = mag_stack m' @ [p]"
    "mag_top m' = mag_top m - 1" "mag_frames m' = mag_frames m"
    using mag_pop_stack [OF assms] .
  have ok: "mag_ok m'" "p \<noteq> 0" "PAGE_SIZE dvd p" "p \<notin> set (mag_stack m')"
    "\<forall>q\<in>set (mag_stack m'). PAGE_SIZE dvd q"
    using assms(1) pm(2-4) by (auto simp: mag_ok_def)
  then have "p div PAGE_SIZE \<notin> cached m'" using page_div_inj by (fastforce simp: cached_def)
  moreover have "cached m = insert (p div PAGE_SIZE) (cached m')" by (simp add: cached_def pm(2))
  ultimately show ?thesis using pm ok by auto
qed

lemma mag_push_ok:
  assumes "mag_ok m" "mag_top m < MAGAZINE_SIZE" "p \<noteq> 0" "PAGE_SIZE dvd p"
    "p div PAGE_SIZE \<notin> cached m"
  shows "\<exists>m'. mag_push p m = (True, m') \<and> mag_ok m' \<and>
    cached m' = insert (p div PAGE_SIZE) (cached m) \<and> mag_top m' = Suc (mag_top m)"
proof -
  obtain m' where m': "mag_push p m = (True, m')" "mag_stack m' = mag_stack m @ [p]"
    "mag_top m' = Suc (mag_top m)" "length (mag_frames m') = length (mag_frames m)"
    using mag_push_stack [OF assms(1,2)] .
  have "p \<notin> set (mag_stack m)" using assms(5) by (auto simp: cached_def)
  then have "mag_ok m'" using m' assms by (auto simp: mag_ok_def)
  then show ?thesis using m' by (auto simp: cached_def)
qed

lemma mag_empty_iff: "mag_ok m \<Longrightarrow> mag_stack m = [] \<longleftrightarrow> cached m = {}"
  by (simp add: cached_def)

lemma buddy_alloc_frame:
  assumes "buddy_inv b"
  shows "buddy_alloc 0 b = Some (None, b) \<and> free_set b = {} \<or>
    (\<exists>f b'. buddy_alloc 0 b = Some (Some (f * PAGE_SIZE), b') \<and> buddy_inv b' \<and> f \<in> free_set b \<and>
       free_set b' = free_set b - {f})"
  using alloc_from_ok [OF assms, of 0 0] by (auto simp: buddy_alloc_def free_set_def cover_def)

lemma refill_ok:
  "cache_ok b m \<Longrightarrow> \<exists>b' m'. refill b m = Some (b', m') \<and> cache_ok b' m' \<and> avail b' m' = avail b m \<and>
     (cached m' = {} \<longrightarrow> avail b m = {})"
proof (induction b m rule: refill.induct)
  case (1 b m)
  have ok: "buddy_inv b" "0 \<notin> free_set b" "mag_ok m" "cached m \<inter> free_set b = {}"
    "cached m \<subseteq> {..<MAX_FRAMES}" using "1.prems" by (auto simp: cache_ok_def)
  have mem: "free_set b \<subseteq> {..<MAX_FRAMES}" using free_set_in_memory [OF ok(1)] .
  show ?case
  proof (cases "mag_is_full m")
    case True
    then have "cached m \<noteq> {}"
      using ok(3) by (auto simp: cached_def mag_stack_def mag_ok_def mag_is_full_def phys_consts)
    then show ?thesis using True "1.prems" by (simp add: refill.simps [of b m])
  next
    case False
    from buddy_alloc_frame [OF ok(1)] show ?thesis
    proof (elim disjE exE conjE)
      assume "buddy_alloc 0 b = Some (None, b)" "free_set b = {}"
      then show ?thesis using False "1.prems" by (simp add: refill.simps [of b m] avail_def)
    next
      fix f b' assume a: "buddy_alloc 0 b = Some (Some (f * PAGE_SIZE), b')" "buddy_inv b'"
        "f \<in> free_set b" "free_set b' = free_set b - {f}"
      have "f \<noteq> 0" using a(3) ok(2) by metis
      moreover have "f \<notin> cached m" using ok(4) a(3) by auto
      moreover have "mag_top m < MAGAZINE_SIZE" using False by (simp add: mag_is_full_def)
      ultimately obtain m' where m': "mag_push (f * PAGE_SIZE) m = (True, m')" "mag_ok m'"
        "cached m' = insert f (cached m)"
        using mag_push_ok [OF ok(3), of "f * PAGE_SIZE"] by (auto simp: PAGE_SIZE_def)
      have "cache_ok b' m'" using a m' ok mem by (auto simp: cache_ok_def)
      moreover have "avail b' m' = avail b m" using a m' by (auto simp: avail_def)
      moreover have "refill b m = refill b' m'" using False a(1) m'(1) by (simp add: refill.simps [of b m])
      ultimately show ?thesis using "1.IH" [OF False a(1) refl refl] m'(1) by simp
    qed
  qed
qed

lemma drain_ok:
  "cache_ok b m \<Longrightarrow> \<exists>b' m'. drain n b m = Some (b', m') \<and> cache_ok b' m' \<and> avail b' m' = avail b m \<and>
     mag_top m' = mag_top m - n"
proof (induction n arbitrary: b m)
  case 0
  then show ?case by simp
next
  case (Suc n)
  have ok: "buddy_inv b" "0 \<notin> free_set b" "mag_ok m" "cached m \<inter> free_set b = {}"
    "cached m \<subseteq> {..<MAX_FRAMES}" using Suc.prems by (auto simp: cache_ok_def)
  show ?case
  proof (cases "mag_stack m = []")
    case True
    then have "mag_top m = 0" using ok(3) by (auto simp: mag_stack_def mag_ok_def phys_consts)
    then show ?thesis using mag_pop_empty [OF True ok(3)] Suc.prems by simp
  next
    case False
    obtain p m' where p: "mag_pop m = (p, m')" "mag_ok m'" "p \<noteq> 0" "PAGE_SIZE dvd p"
      "p div PAGE_SIZE \<in> cached m" "cached m' = cached m - {p div PAGE_SIZE}" "mag_top m' = mag_top m - 1"
      using mag_pop_ok [OF ok(3) False] by auto
    have f: "valid_block 0 (p div PAGE_SIZE)" "p = p div PAGE_SIZE * 2 ^ 0 * PAGE_SIZE"
      "span 0 (p div PAGE_SIZE) \<inter> free_set b = {}" "p div PAGE_SIZE \<noteq> 0"
      using p ok page_div_nonzero [OF p(4,3)] by (auto simp: valid_block_def)
    obtain b' where b': "buddy_free p 0 b = Some b'" "buddy_inv b'"
      "free_set b' = insert (p div PAGE_SIZE) (free_set b)"
      using buddy_free_ok [OF ok(1) f(1,2,3)] by auto
    have c: "cache_ok b' m'" using b' p ok f(4) by (auto simp: cache_ok_def)
    have av: "avail b' m' = avail b m" using b' p by (auto simp: avail_def)
    show ?thesis
      using Suc.IH [OF c] p(1,3,7) b'(1) av by auto
  qed
qed

section \<open>The allocator as a set of frames\<close>

definition frame_pool :: "phys_state \<Rightarrow> nat set" where
  "frame_pool s = free_set (BUDDY s) \<union> (\<Union>c. cached (MAGAZINES s c))"

definition phys_inv :: "phys_state \<Rightarrow> bool" where
  "phys_inv s \<longleftrightarrow> (\<forall>c. cache_ok (BUDDY s) (MAGAZINES s c)) \<and>
     (\<forall>c d. c \<noteq> d \<longrightarrow> cached (MAGAZINES s c) \<inter> cached (MAGAZINES s d) = {}) \<and>
     TOTAL_FREE s = of_nat (card (frame_pool s))"

definition others :: "phys_state \<Rightarrow> nat \<Rightarrow> nat set" where
  "others s c = (\<Union>d\<in>-{c}. cached (MAGAZINES s d))"

lemma pool_split: "frame_pool s = avail (BUDDY s) (MAGAZINES s c) \<union> others s c"
  by (auto simp: frame_pool_def avail_def others_def)

lemma avail_others: "phys_inv s \<Longrightarrow> avail (BUDDY s) (MAGAZINES s c) \<inter> others s c = {}"
  unfolding phys_inv_def cache_ok_def avail_def others_def by blast

lemma pool_bounds: "phys_inv s \<Longrightarrow> frame_pool s \<subseteq> {..<MAX_FRAMES} \<and> 0 \<notin> frame_pool s"
proof -
  assume i: "phys_inv s"
  have "0 \<notin> cached (MAGAZINES s c)" for c
    using i page_div_nonzero unfolding phys_inv_def cache_ok_def mag_ok_def cached_def by fastforce
  then show ?thesis
    using i free_set_in_memory [of "BUDDY s"] unfolding phys_inv_def cache_ok_def frame_pool_def by blast
qed

lemma finite_pool: "phys_inv s \<Longrightarrow> finite (frame_pool s)"
  using pool_bounds finite_subset by blast

text \<open>One CPU changing its magazine and the buddy allocator leaves the others alone.\<close>

lemma phys_inv_update:
  assumes inv: "phys_inv s" and ok: "cache_ok b m" and sep: "avail b m \<inter> others s c = {}"
    and s': "BUDDY s' = b" "MAGAZINES s' = (MAGAZINES s)(c := m)"
    and cnt: "TOTAL_FREE s' = of_nat (card (avail b m \<union> others s c))"
  shows "phys_inv s'" "frame_pool s' = avail b m \<union> others s c"
proof -
  have o: "others s' c = others s c" by (auto simp: others_def s')
  show pool: "frame_pool s' = avail b m \<union> others s c"
    using pool_split [of s' c] o by (simp add: s')
  have other: "cached (MAGAZINES s d) \<inter> (free_set b \<union> cached m) = {}" if "d \<noteq> c" for d
    using sep that unfolding others_def avail_def by blast
  have "cache_ok b (MAGAZINES s d)" if "d \<noteq> c" for d
    using inv ok other [OF that] unfolding phys_inv_def cache_ok_def by blast
  then have "cache_ok b (MAGAZINES s' d)" for d using ok by (simp add: s')
  moreover have "cached (MAGAZINES s' d) \<inter> cached (MAGAZINES s' e) = {}" if "d \<noteq> e" for d e
    using other [of d] other [of e] inv that unfolding phys_inv_def by (auto simp: s')
  ultimately show "phys_inv s'" unfolding phys_inv_def using cnt pool s' by simp
qed

lemma of_nat_card_remove: "finite A \<Longrightarrow> x \<in> A \<Longrightarrow> (of_nat (card (A - {x})) :: u64) = of_nat (card A) - 1"
  by (metis card_Suc_Diff1 add_diff_cancel_left' of_nat_Suc)

lemma phys_invD: "phys_inv s \<Longrightarrow> cache_ok (BUDDY s) (MAGAZINES s c)"
  by (simp add: phys_inv_def)

lemma phys_take:
  assumes inv: "phys_inv s" and ok: "cache_ok b m" and f: "f \<in> avail (BUDDY s) (MAGAZINES s c)"
    and av: "avail b m = avail (BUDDY s) (MAGAZINES s c) - {f}"
    and s': "BUDDY s' = b" "MAGAZINES s' = (MAGAZINES s)(c := m)" "TOTAL_FREE s' = TOTAL_FREE s - 1"
  shows "phys_inv s' \<and> f \<in> frame_pool s \<and> frame_pool s' = frame_pool s - {f}"
proof -
  have sep: "f \<notin> others s c" "avail b m \<inter> others s c = {}" using avail_others [OF inv, of c] f av by auto
  then have eq: "avail b m \<union> others s c = frame_pool s - {f}" using av pool_split [of s c] by auto
  have fp: "f \<in> frame_pool s" using f pool_split by blast
  have "TOTAL_FREE s' = of_nat (card (avail b m \<union> others s c))"
    using s'(3) inv of_nat_card_remove [OF finite_pool [OF inv] fp] by (simp add: eq phys_inv_def)
  then show ?thesis using phys_inv_update [OF inv ok sep(2) s'(1,2)] eq fp by simp
qed

lemma phys_give:
  assumes inv: "phys_inv s" and ok: "cache_ok b m" and f: "f \<notin> frame_pool s"
    and av: "avail b m = insert f (avail (BUDDY s) (MAGAZINES s c))"
    and s': "BUDDY s' = b" "MAGAZINES s' = (MAGAZINES s)(c := m)" "TOTAL_FREE s' = TOTAL_FREE s + 1"
  shows "phys_inv s' \<and> frame_pool s' = insert f (frame_pool s)"
proof -
  have sep: "avail b m \<inter> others s c = {}"
    using avail_others [OF inv, of c] f av pool_split [of s c] by auto
  have eq: "avail b m \<union> others s c = insert f (frame_pool s)" using av pool_split [of s c] by auto
  have "TOTAL_FREE s' = of_nat (card (avail b m \<union> others s c))"
    using s'(3) inv f finite_pool [OF inv] by (simp add: eq phys_inv_def)
  then show ?thesis using phys_inv_update [OF inv ok sep s'(1,2)] eq by simp
qed

lemma alloc_frame_ok:
  assumes inv: "phys_inv s"
  shows "(\<exists>p s'. alloc_frame cpu s = Some (Some p, s') \<and> phys_inv s' \<and> PAGE_SIZE dvd p \<and>
      p div PAGE_SIZE \<in> frame_pool s \<and> frame_pool s' = frame_pool s - {p div PAGE_SIZE}) \<or>
    (\<exists>s'. alloc_frame cpu s = Some (None, s') \<and> phys_inv s' \<and> frame_pool s' = frame_pool s \<and>
      avail (BUDDY s) (MAGAZINES s (cpu_slot cpu)) = {})"
proof -
  let ?c = "cpu_slot cpu" let ?m = "MAGAZINES s ?c"
  have co: "cache_ok (BUDDY s) ?m" using phys_invD [OF inv] .
  then have mo: "mag_ok ?m" and b: "buddy_inv (BUDDY s)" by (simp_all add: cache_ok_def)
  show ?thesis
  proof (cases "mag_stack ?m = []")
    case False
    obtain p m' where p: "mag_pop ?m = (p, m')" "mag_ok m'" "p \<noteq> 0" "PAGE_SIZE dvd p"
      "p div PAGE_SIZE \<in> cached ?m" "cached m' = cached ?m - {p div PAGE_SIZE}"
      using mag_pop_ok [OF mo False] by auto
    let ?s = "s\<lparr>MAGAZINES := (MAGAZINES s)(?c := m'), TOTAL_FREE := TOTAL_FREE s - 1\<rparr>"
    have "alloc_frame cpu s = Some (Some p, ?s)" using p by (simp add: alloc_frame_def)
    moreover have "cache_ok (BUDDY s) m'" using co p by (auto simp: cache_ok_def)
    moreover have "avail (BUDDY s) m' = avail (BUDDY s) ?m - {p div PAGE_SIZE}"
      using p co by (auto simp: avail_def cache_ok_def)
    moreover have "p div PAGE_SIZE \<in> avail (BUDDY s) ?m" using p by (simp add: avail_def)
    ultimately show ?thesis using phys_take [OF inv, of "BUDDY s" m' _ ?c ?s] p(4) by auto
  next
    case True
    obtain b1 m1 where r: "refill (BUDDY s) ?m = Some (b1, m1)" "cache_ok b1 m1"
      "avail b1 m1 = avail (BUDDY s) ?m" "cached m1 = {} \<longrightarrow> avail (BUDDY s) ?m = {}"
      using refill_ok [OF co] by auto
    have e: "mag_pop ?m = (0, ?m)" using mag_pop_empty [OF True mo] .
    show ?thesis
    proof (cases "mag_stack m1 = []")
      case True
      let ?s = "s\<lparr>BUDDY := b1, MAGAZINES := (MAGAZINES s)(?c := m1)\<rparr>"
      have "alloc_frame cpu s = Some (None, ?s)"
        using e r True mag_pop_empty [OF True] by (simp add: alloc_frame_def cache_ok_def)
      moreover have "phys_inv ?s \<and> frame_pool ?s = frame_pool s"
        using phys_inv_update [OF inv r(2), of ?c ?s] r(3) avail_others [OF inv] pool_split [of s ?c] inv
        by (simp add: phys_inv_def)
      moreover have "avail (BUDDY s) ?m = {}" using r(4) True by (simp add: cached_def)
      ultimately show ?thesis by blast
    next
      case False
      obtain p m' where p: "mag_pop m1 = (p, m')" "mag_ok m'" "p \<noteq> 0" "PAGE_SIZE dvd p"
        "p div PAGE_SIZE \<in> cached m1" "cached m' = cached m1 - {p div PAGE_SIZE}"
        using mag_pop_ok [OF _ False] r(2) by (auto simp: cache_ok_def)
      let ?s = "s\<lparr>BUDDY := b1, MAGAZINES := (MAGAZINES s)(?c := m'), TOTAL_FREE := TOTAL_FREE s - 1\<rparr>"
      have "alloc_frame cpu s = Some (Some p, ?s)" using e r(1) p by (simp add: alloc_frame_def)
      moreover have "cache_ok b1 m'" using r(2) p by (auto simp: cache_ok_def)
      moreover have "avail b1 m' = avail (BUDDY s) ?m - {p div PAGE_SIZE}"
        using p r(2,3) by (auto simp: avail_def cache_ok_def)
      moreover have "p div PAGE_SIZE \<in> avail (BUDDY s) ?m" using p r(3) by (auto simp: avail_def)
      ultimately show ?thesis using phys_take [OF inv, of b1 m' _ ?c ?s] p(4) by auto
    qed
  qed
qed

lemma cache_ok_push:
  assumes "cache_ok b m" "mag_top m < MAGAZINE_SIZE" "PAGE_SIZE dvd p" "p \<noteq> 0"
    "p div PAGE_SIZE < MAX_FRAMES" "p div PAGE_SIZE \<notin> avail b m"
  shows "\<exists>m'. mag_push p m = (True, m') \<and> cache_ok b m' \<and> avail b m' = insert (p div PAGE_SIZE) (avail b m)"
  using mag_push_ok [of m p] assms by (auto simp: cache_ok_def avail_def)

lemma free_frame_ok:
  assumes inv: "phys_inv s" and p: "PAGE_SIZE dvd p" "p \<noteq> 0" "p div PAGE_SIZE < MAX_FRAMES"
    and new: "p div PAGE_SIZE \<notin> frame_pool s"
  shows "\<exists>s'. free_frame cpu p s = Some s' \<and> phys_inv s' \<and>
    frame_pool s' = insert (p div PAGE_SIZE) (frame_pool s)"
proof -
  let ?c = "cpu_slot cpu" let ?m = "MAGAZINES s ?c"
  have co: "cache_ok (BUDDY s) ?m" using phys_invD [OF inv] .
  have na: "p div PAGE_SIZE \<notin> avail (BUDDY s) ?m" using new pool_split by blast
  show ?thesis
  proof (cases "mag_top ?m < MAGAZINE_SIZE")
    case True
    obtain m' where m': "mag_push p ?m = (True, m')" "cache_ok (BUDDY s) m'"
      "avail (BUDDY s) m' = insert (p div PAGE_SIZE) (avail (BUDDY s) ?m)"
      using cache_ok_push [OF co True p na] by auto
    then show ?thesis using phys_give [OF inv m'(2) new m'(3)] by (simp add: free_frame_def)
  next
    case False
    then have push: "mag_push p ?m = (False, ?m)" by (simp add: mag_push_def)
    have top: "mag_top ?m = MAGAZINE_SIZE" using False co by (simp add: cache_ok_def mag_ok_def)
    obtain b1 m1 where d: "drain (mag_count ?m div 2) (BUDDY s) ?m = Some (b1, m1)" "cache_ok b1 m1"
      "avail b1 m1 = avail (BUDDY s) ?m" "mag_top m1 < MAGAZINE_SIZE"
      using drain_ok [OF co, of "mag_count ?m div 2"] top by (auto simp: mag_count_def phys_consts)
    obtain m2 where m2: "mag_push p m1 = (True, m2)" "cache_ok b1 m2"
      "avail b1 m2 = insert (p div PAGE_SIZE) (avail (BUDDY s) ?m)"
      using cache_ok_push [OF d(2,4) p] na d(3) by auto
    then show ?thesis
      using phys_give [OF inv m2(2) new m2(3)] d(1) push by (simp add: free_frame_def)
  qed
qed

section \<open>The interface of the frame allocator\<close>

text \<open>
  What the slab cache, tmpfs and the page tables rely on: a frame handed out leaves
  the pool, a frame given back returns to it, and no other frame moves.
\<close>

locale frame_allocator =
  fixes alloc :: "'s \<Rightarrow> (nat option \<times> 's) option"
    and dealloc :: "nat \<Rightarrow> 's \<Rightarrow> 's option"
    and inv :: "'s \<Rightarrow> bool"
    and pool :: "'s \<Rightarrow> nat set"
  assumes alloc_total: "inv s \<Longrightarrow> \<exists>r s'. alloc s = Some (r, s') \<and> inv s'"
    and alloc_some: "inv s \<Longrightarrow> alloc s = Some (Some p, s') \<Longrightarrow>
      PAGE_SIZE dvd p \<and> p div PAGE_SIZE \<in> pool s \<and> pool s' = pool s - {p div PAGE_SIZE}"
    and alloc_none: "inv s \<Longrightarrow> alloc s = Some (None, s') \<Longrightarrow> pool s' = pool s"
    and pool_frames: "inv s \<Longrightarrow> pool s \<subseteq> {1..<MAX_FRAMES}"
    and dealloc_ok: "inv s \<Longrightarrow> PAGE_SIZE dvd p \<Longrightarrow> p div PAGE_SIZE \<in> {1..<MAX_FRAMES} \<Longrightarrow>
      p div PAGE_SIZE \<notin> pool s \<Longrightarrow>
      \<exists>s'. dealloc p s = Some s' \<and> inv s' \<and> pool s' = insert (p div PAGE_SIZE) (pool s)"
begin

lemma alloc_dealloc:
  assumes "inv s" "alloc s = Some (Some p, s')"
  shows "\<exists>s''. dealloc p s' = Some s'' \<and> inv s'' \<and> pool s'' = pool s"
proof -
  have p: "PAGE_SIZE dvd p" "p div PAGE_SIZE \<in> pool s" "pool s' = pool s - {p div PAGE_SIZE}" "inv s'"
    using alloc_some [OF assms] alloc_total [OF assms(1)] assms(2) by auto
  have "p div PAGE_SIZE \<in> {1..<MAX_FRAMES}" using p(2) pool_frames [OF assms(1)] by blast
  then show ?thesis
    using dealloc_ok [OF p(4,1)] p(2,3) by (auto simp: insert_absorb)
qed

lemma alloc_fresh:
  assumes "inv s" "alloc s = Some (Some p, s1)" "alloc s1 = Some (Some q, s2)"
  shows "p \<noteq> q"
proof -
  have "inv s1" using alloc_total [OF assms(1)] assms(2) by auto
  then show ?thesis using alloc_some [OF assms(1,2)] alloc_some [OF _ assms(3)] by auto
qed

end

interpretation phys: frame_allocator "alloc_frame cpu" "free_frame cpu" phys_inv frame_pool for cpu
proof unfold_locales
  fix s s' p assume i: "phys_inv s"
  show "\<exists>r s'. alloc_frame cpu s = Some (r, s') \<and> phys_inv s'"
    using alloc_frame_ok [OF i, of cpu] by blast
  show "frame_pool s \<subseteq> {1..<MAX_FRAMES}"
    using pool_bounds [OF i] by (force simp: Suc_le_eq intro: gr0I)
  show "alloc_frame cpu s = Some (None, s') \<Longrightarrow> frame_pool s' = frame_pool s"
    using alloc_frame_ok [OF i, of cpu] by auto
  show "alloc_frame cpu s = Some (Some p, s') \<Longrightarrow> PAGE_SIZE dvd p \<and> p div PAGE_SIZE \<in> frame_pool s \<and>
      frame_pool s' = frame_pool s - {p div PAGE_SIZE}"
    using alloc_frame_ok [OF i, of cpu] by auto
  show "PAGE_SIZE dvd p \<Longrightarrow> p div PAGE_SIZE \<in> {1..<MAX_FRAMES} \<Longrightarrow> p div PAGE_SIZE \<notin> frame_pool s \<Longrightarrow>
      \<exists>s'. free_frame cpu p s = Some s' \<and> phys_inv s' \<and> frame_pool s' = insert (p div PAGE_SIZE) (frame_pool s)"
    using free_frame_ok [OF i, of p cpu] by force
qed

section \<open>Boot hands every usable page to the buddy allocator\<close>

text \<open>The frames of a range of addresses that the boot loop does not skip.\<close>

definition usable_frames :: "boot_info \<Rightarrow> nat \<Rightarrow> nat \<Rightarrow> nat set" where
  "usable_frames bi lo hi =
     {f. lo \<le> f * PAGE_SIZE \<and> f * PAGE_SIZE < hi \<and> \<not> is_reserved bi (of_nat (f * PAGE_SIZE))}"

lemma usable_frames_step:
  assumes "PAGE_SIZE dvd lo" "lo < hi"
  shows "usable_frames bi lo hi =
    (if is_reserved bi (of_nat lo) then {} else {lo div PAGE_SIZE}) \<union> usable_frames bi (lo + PAGE_SIZE) hi"
proof -
  obtain n where n: "lo = n * PAGE_SIZE" using assms(1) by (metis dvdE mult.commute)
  have key: "n * PAGE_SIZE \<le> f * PAGE_SIZE \<longleftrightarrow> f = n \<or> n * PAGE_SIZE + PAGE_SIZE \<le> f * PAGE_SIZE" for f
    by (auto simp: PAGE_SIZE_def)
  have "f \<in> usable_frames bi lo hi \<longleftrightarrow>
      f = n \<and> \<not> is_reserved bi (of_nat lo) \<or> f \<in> usable_frames bi (lo + PAGE_SIZE) hi" for f
    using assms(2) key [of f] by (auto simp: usable_frames_def n simp del: of_nat_mult)
  moreover have "lo div PAGE_SIZE = n" by (simp add: n PAGE_SIZE_def)
  ultimately show ?thesis by auto
qed

lemma add_range_one:
  assumes "buddy_inv b" "f < MAX_FRAMES" "f \<notin> free_set b"
  shows "\<exists>b'. add_range f 1 b = Some b' \<and> buddy_inv b' \<and> free_set b' = insert f (free_set b)"
proof -
  obtain b' where b': "buddy_free (f * PAGE_SIZE) 0 b = Some b'" "buddy_inv b'"
    "free_set b' = insert f (free_set b)"
    using buddy_free_ok [of b 0 f "f * PAGE_SIZE"] assms by (auto simp: valid_block_def)
  let ?b = "b'\<lparr>ba_total_frames := ba_total_frames b' + 1\<rparr>"
  have "blocks ?b = blocks b'" by (simp add: blocks_def)
  then have "buddy_inv ?b \<and> free_set ?b = free_set b'" using b'(2) by (simp add: buddy_inv_def free_set_def)
  then show ?thesis using b' by (auto simp: add_range_def)
qed

lemma init_pages_ok:
  assumes "buddy_inv b" "PAGE_SIZE dvd unat phys" "unat desc_end \<le> MAX_FRAMES * PAGE_SIZE"
    "usable_frames bi (unat phys) (unat desc_end) \<inter> free_set b = {}"
  shows "\<exists>t' b'. init_pages bi phys desc_end t b = Some (t', b') \<and> buddy_inv b' \<and>
    free_set b' = free_set b \<union> usable_frames bi (unat phys) (unat desc_end)"
  using assms
proof (induction "unat desc_end - unat phys" arbitrary: phys t b rule: less_induct)
  case less
  let ?next = "phys + of_nat PAGE_SIZE" and ?f = "unat (phys div of_nat PAGE_SIZE)"
  show ?case
  proof (cases "phys < desc_end")
    case False
    then have "usable_frames bi (unat phys) (unat desc_end) = {}"
      by (auto simp: usable_frames_def word_less_nat_alt)
    then show ?thesis using False less.prems(1) by (subst init_pages.simps) simp
  next
    case True
    have lt: "unat phys < unat desc_end" using True by (simp add: word_less_nat_alt)
    have nxt: "unat ?next = unat phys + PAGE_SIZE"
      using lt less.prems(3) by (simp add: unat_word_ariths phys_consts)
    have f: "?f = unat phys div PAGE_SIZE" by (simp add: unat_div PAGE_SIZE_def)
    have step: "usable_frames bi (unat phys) (unat desc_end) =
      (if is_reserved bi phys then {} else {?f}) \<union> usable_frames bi (unat ?next) (unat desc_end)"
      using usable_frames_step [OF less.prems(2) lt, of bi] unfolding f nxt by simp
    have m: "unat desc_end - unat ?next < unat desc_end - unat phys" using nxt lt by (simp add: PAGE_SIZE_def)
    have al: "PAGE_SIZE dvd unat ?next" using less.prems(2) nxt by simp
    show ?thesis
    proof (cases "is_reserved bi phys")
      case r: True
      have "usable_frames bi (unat ?next) (unat desc_end) \<inter> free_set b = {}"
        using less.prems(4) step r by simp
      from less.hyps [OF m less.prems(1) al less.prems(3) this, of "t + 1"]
      show ?thesis using True r step by (subst init_pages.simps) simp
    next
      case r: False
      have "?f < MAX_FRAMES"
        unfolding f using lt less.prems(3) by (auto simp: PAGE_SIZE_def less_mult_imp_div_less)
      moreover have "?f \<notin> free_set b" using less.prems(4) step r by auto
      ultimately obtain b1 where b1: "add_range ?f 1 b = Some b1" "buddy_inv b1"
        "free_set b1 = insert ?f (free_set b)"
        using add_range_one [OF less.prems(1)] by blast
      have "?f \<notin> usable_frames bi (unat ?next) (unat desc_end)"
        unfolding f nxt using less.prems(2) by (auto simp: usable_frames_def PAGE_SIZE_def)
      then have "usable_frames bi (unat ?next) (unat desc_end) \<inter> free_set b1 = {}"
        using less.prems(4) step b1(3) by auto
      from less.hyps [OF m b1(2) al less.prems(3) this, of "t + 1"]
      show ?thesis using True r step b1 by (subst init_pages.simps) auto
    qed
  qed
qed

text \<open>
  What the firmware's map promises: the pages of a usable descriptor, and that
  descriptors start at page boundaries, usable ones end at or below 4 GiB (the
  frames the bitmap has room for) and share no page.  The images lie at least a page below
  the top of the address space.
\<close>

definition desc_end :: "mem_desc \<Rightarrow> nat" where
  "desc_end d = unat (md_phys_start d) + unat (md_num_pages d) * PAGE_SIZE"

definition desc_pages :: "mem_desc \<Rightarrow> nat set" where
  "desc_pages d = (if usable_type (md_type d)
     then {f. unat (md_phys_start d) \<le> f * PAGE_SIZE \<and> f * PAGE_SIZE < desc_end d} else {})"

definition desc_ok :: "mem_desc \<Rightarrow> bool" where
  "desc_ok d \<longleftrightarrow> PAGE_SIZE dvd unat (md_phys_start d) \<and>
     (usable_type (md_type d) \<longrightarrow> desc_end d \<le> MAX_FRAMES * PAGE_SIZE)"

definition map_ok :: "boot_info \<Rightarrow> bool" where
  "map_ok bi \<longleftrightarrow> list_all desc_ok (memory_map bi) \<and>
     sorted_wrt (\<lambda>d e. desc_pages d \<inter> desc_pages e = {}) (memory_map bi) \<and>
     unat (kernel_phys_end bi) + PAGE_SIZE \<le> 2 ^ 64 \<and>
     unat (init_phys_start bi) + unat (init_size bi) + PAGE_SIZE \<le> 2 ^ 64 \<and>
     unat (qshell_phys_start bi) + unat (qshell_size bi) + PAGE_SIZE \<le> 2 ^ 64"

text \<open>The page of a frame meets the bytes from an address up to another.\<close>

definition page_meets :: "nat \<Rightarrow> nat \<Rightarrow> nat \<Rightarrow> bool" where
  "page_meets f lo hi \<longleftrightarrow> f * PAGE_SIZE < hi \<and> lo < (f + 1) * PAGE_SIZE"

definition image_page :: "boot_info \<Rightarrow> nat \<Rightarrow> bool" where
  "image_page bi f \<longleftrightarrow>
     page_meets f (unat (kernel_phys_start bi)) (unat (kernel_phys_end bi)) \<or>
     init_size bi \<noteq> 0 \<and>
       page_meets f (unat (init_phys_start bi)) (unat (init_phys_start bi) + unat (init_size bi)) \<or>
     qshell_size bi \<noteq> 0 \<and>
       page_meets f (unat (qshell_phys_start bi)) (unat (qshell_phys_start bi) + unat (qshell_size bi))"

lemma and_not_split: "(a AND NOT m) + (a AND m) = (a :: u64)"
proof -
  have "(a AND NOT m) + (a AND m) = (a AND NOT m) OR (a AND m)"
    by (rule disjunctive_add) (simp add: bit_and_iff bit_not_iff)
  also have "\<dots> = a" by (rule bit_word_eqI) (auto simp: bit_or_iff bit_and_iff bit_not_iff)
  finally show ?thesis .
qed

lemma unat_page_down: "unat (page_down a) = unat a - unat a mod PAGE_SIZE"
proof -
  have m: "a AND 4095 = take_bit 12 a" by (simp add: take_bit_eq_mask mask_eq_exp_minus_1)
  have "page_down a = a AND NOT 4095" by (simp add: page_down_def PAGE_SIZE_def)
  then have "page_down a + take_bit 12 a = a" using and_not_split [of a 4095] by (simp only: m)
  then have e: "page_down a = a - take_bit 12 a" by (simp add: eq_diff_eq)
  have u: "unat (take_bit 12 a) = unat a mod PAGE_SIZE"
    unfolding unsigned_take_bit_eq by (simp add: take_bit_eq_mod PAGE_SIZE_def)
  then have "take_bit 12 a \<le> a" by (simp add: word_le_nat_alt)
  then show ?thesis using u by (simp add: e unat_sub)
qed

lemma page_range_meets:
  assumes "unat phys = f * PAGE_SIZE" "unat hi + PAGE_SIZE \<le> 2 ^ 64"
  shows "page_down lo \<le> phys \<and> phys < page_up hi \<longleftrightarrow> page_meets f (unat lo) (unat hi)"
proof -
  have "unat (hi + of_nat PAGE_SIZE - 1) = unat hi + 4095"
    using assms(2) by (simp add: PAGE_SIZE_def unat_word_ariths)
  then have u: "unat (page_up hi) = (unat hi + 4095) div 4096 * 4096"
    by (simp add: page_up_def unat_page_down PAGE_SIZE_def minus_mod_eq_div_mult)
  have d: "unat (page_down lo) = unat lo div 4096 * 4096"
    by (simp add: unat_page_down PAGE_SIZE_def minus_mod_eq_div_mult)
  have "unat lo div 4096 * 4096 \<le> f * 4096 \<longleftrightarrow> unat lo < (f + 1) * 4096"
    using div_less_iff_less_mult [of 4096 "unat lo" "f + 1"] by auto
  moreover have "f * 4096 < (unat hi + 4095) div 4096 * 4096 \<longleftrightarrow> f * 4096 < unat hi"
    using less_eq_div_iff_mult_less_eq [of 4096 "f + 1" "unat hi + 4095"] by auto
  ultimately show ?thesis
    using assms(1) by (auto simp: word_le_nat_alt word_less_nat_alt u d page_meets_def PAGE_SIZE_def)
qed

lemma reserved_pages:
  assumes "map_ok bi" "f < MAX_FRAMES"
  shows "is_reserved bi (of_nat (f * PAGE_SIZE)) \<longleftrightarrow> f < 256 \<or> image_page bi f"
proof -
  let ?a = "of_nat (f * PAGE_SIZE) :: u64"
  have u: "unat ?a = f * PAGE_SIZE"
    using assms(2) by (simp add: unat_of_nat phys_consts del: of_nat_mult)
  have sums: "unat (init_phys_start bi + init_size bi) = unat (init_phys_start bi) + unat (init_size bi)"
    "unat (qshell_phys_start bi + qshell_size bi) = unat (qshell_phys_start bi) + unat (qshell_size bi)"
    using assms(1) by (simp_all add: map_ok_def unat_word_ariths PAGE_SIZE_def)
  have "?a < 0x100000 \<longleftrightarrow> f < 256" by (simp add: word_less_nat_alt u del: of_nat_mult) (auto simp: PAGE_SIZE_def)
  then show ?thesis
    using assms(1) page_range_meets [OF u, of "kernel_phys_end bi" "kernel_phys_start bi"]
      page_range_meets [OF u, of "init_phys_start bi + init_size bi" "init_phys_start bi"]
      page_range_meets [OF u, of "qshell_phys_start bi + qshell_size bi" "qshell_phys_start bi"]
    by (simp add: is_reserved_def image_page_def map_ok_def sums del: of_nat_mult)
qed

lemma desc_frames:
  assumes "map_ok bi" "usable_type (md_type d)" "desc_ok d"
  shows "usable_frames bi (unat (max (md_phys_start d) 0x100000)) (desc_end d) =
    {f \<in> desc_pages d. 256 \<le> f \<and> \<not> image_page bi f}"
proof -
  have m: "unat (max (md_phys_start d) 0x100000) = max (unat (md_phys_start d)) 0x100000"
    by (simp add: max_def word_le_nat_alt)
  have "f < MAX_FRAMES" if "f * PAGE_SIZE < desc_end d" for f
    using assms(2,3) that by (auto simp: desc_ok_def PAGE_SIZE_def)
  then show ?thesis
    unfolding usable_frames_def m using reserved_pages [OF assms(1)] assms(2)
    by (auto simp: desc_pages_def simp del: of_nat_mult) (auto simp: PAGE_SIZE_def)
qed

lemma init_descs_ok:
  assumes "buddy_inv b" "map_ok bi" "list_all desc_ok ds"
    "sorted_wrt (\<lambda>d e. desc_pages d \<inter> desc_pages e = {}) ds" "\<forall>d\<in>set ds. desc_pages d \<inter> free_set b = {}"
  shows "\<exists>t' b'. init_descs bi ds t b = Some (t', b') \<and> buddy_inv b' \<and>
    free_set b' = free_set b \<union> {f \<in> (\<Union>d\<in>set ds. desc_pages d). 256 \<le> f \<and> \<not> image_page bi f}"
  using assms(1,3,4,5)
proof (induction ds arbitrary: t b)
  case (Cons d ds)
  show ?case
  proof (cases "usable_type (md_type d)")
    case False
    then show ?thesis using Cons.IH [of b t] Cons.prems by (simp add: desc_pages_def)
  next
    case True
    let ?lo = "max (md_phys_start d) 0x100000" and ?hi = "md_phys_start d + md_num_pages d * of_nat PAGE_SIZE"
    let ?F = "{f \<in> desc_pages d. 256 \<le> f \<and> \<not> image_page bi f}"
    have ok: "desc_ok d" using Cons.prems(2) by simp
    have hi: "unat ?hi = desc_end d"
      using ok True by (simp add: desc_ok_def desc_end_def unat_word_ariths phys_consts)
    have df: "usable_frames bi (unat ?lo) (unat ?hi) = ?F"
      unfolding hi by (rule desc_frames [OF assms(2) True ok])
    have "PAGE_SIZE dvd unat ?lo" using ok by (auto simp: desc_ok_def max_def PAGE_SIZE_def)
    moreover have "unat ?hi \<le> MAX_FRAMES * PAGE_SIZE" using ok True hi by (simp add: desc_ok_def)
    ultimately obtain t1 b1 where b1: "init_pages bi ?lo ?hi t b = Some (t1, b1)"
      "buddy_inv b1" "free_set b1 = free_set b \<union> ?F"
      using init_pages_ok [OF Cons.prems(1), of ?lo ?hi bi t] Cons.prems(4) unfolding df by auto
    have "\<forall>e\<in>set ds. desc_pages e \<inter> free_set b1 = {}"
      using Cons.prems(3,4) b1(3) by auto
    then obtain t' b' where "init_descs bi ds t1 b1 = Some (t', b')" "buddy_inv b'"
      "free_set b' = free_set b1 \<union> {f \<in> (\<Union>d\<in>set ds. desc_pages d). 256 \<le> f \<and> \<not> image_page bi f}"
      using Cons.IH [OF b1(2), of t1] Cons.prems(2,3) by auto
    then show ?thesis using b1 True by auto
  qed
qed simp

section \<open>Contiguous blocks\<close>

lemma bit_length_bounds: "n \<noteq> 0 \<Longrightarrow> 2 ^ (bit_length n - 1) \<le> n \<and> n < 2 ^ bit_length n \<and> bit_length n \<noteq> 0"
proof (induction n rule: bit_length.induct)
  case (1 n)
  show ?case
  proof (cases "n div 2 = 0")
    case True
    then have "n = 1" using "1.prems" by auto
    then show ?thesis by (simp add: bit_length.simps [of "Suc 0"] bit_length.simps [of 0])
  next
    case False
    define l where "l = bit_length (n div 2)"
    have l: "2 ^ (l - 1) \<le> n div 2" "n div 2 < 2 ^ l" "l \<noteq> 0" and e: "bit_length n = Suc l"
      using "1.IH" [OF "1.prems" False] "1.prems" by (auto simp: l_def bit_length.simps [of n])
    have "(2::nat) ^ l = 2 * 2 ^ (l - 1)" using l(3) by (cases l) auto
    moreover have "2 * a \<le> n \<and> n < 4 * a" if "a \<le> n div 2" "n div 2 < 2 * a" for a
      using that by linarith
    ultimately show ?thesis using l e by simp
  qed
qed

lemma alloc_order_covers: "0 < n \<Longrightarrow> n \<le> 2 ^ MAX_ORDER \<Longrightarrow> n \<le> 2 ^ alloc_order n"
  using bit_length_bounds [of n]
  by (auto simp: alloc_order_def is_power_of_two_def min_def)

lemma phys_inv_buddy:
  assumes inv: "phys_inv s" and b: "buddy_inv b" "0 \<notin> free_set b"
    and sep: "\<And>c. cached (MAGAZINES s c) \<inter> free_set b = {}"
    and s': "s' = s\<lparr>BUDDY := b, TOTAL_FREE := t\<rparr>"
    and cnt: "t = of_nat (card (free_set b \<union> (\<Union>c. cached (MAGAZINES s c))))"
  shows "phys_inv s'" "frame_pool s' = free_set b \<union> (\<Union>c. cached (MAGAZINES s c))"
proof -
  show pool: "frame_pool s' = free_set b \<union> (\<Union>c. cached (MAGAZINES s c))"
    by (simp add: frame_pool_def s')
  have "cache_ok b (MAGAZINES s c)" for c
    using phys_invD [OF inv, of c] b sep [of c] by (simp add: cache_ok_def)
  then show "phys_inv s'" using inv cnt pool by (simp add: phys_inv_def s')
qed

lemma alloc_frames_ok:
  assumes inv: "phys_inv s" and n: "1 < n"
  shows "(\<exists>i s'. alloc_frames cpu n s = Some (Some (i * 2 ^ alloc_order n * PAGE_SIZE), s') \<and> phys_inv s' \<and>
      valid_block (alloc_order n) i \<and> span (alloc_order n) i \<subseteq> frame_pool s \<and>
      frame_pool s' = frame_pool s - span (alloc_order n) i) \<or>
    alloc_frames cpu n s = Some (None, s) \<and> (\<forall>i. \<not> span (alloc_order n) i \<subseteq> free_set (BUDDY s))"
proof -
  let ?k = "alloc_order n" and ?C = "\<Union>c. cached (MAGAZINES s c)"
  have b: "buddy_inv (BUDDY s)" "0 \<notin> free_set (BUDDY s)" "?C \<inter> free_set (BUDDY s) = {}"
    using inv unfolding phys_inv_def cache_ok_def by blast+
  have k: "?k \<le> MAX_ORDER" by (simp add: alloc_order_def)
  from alloc_from_ok [OF b(1) order_refl, of ?k] show ?thesis
  proof (elim disjE exE conjE)
    fix i b' assume a: "alloc_from ?k ?k (BUDDY s) = Some (Some (i * 2 ^ ?k * PAGE_SIZE), b')" "buddy_inv b'"
      "valid_block ?k i" "span ?k i \<subseteq> free_set (BUDDY s)" "free_set b' = free_set (BUDDY s) - span ?k i"
    let ?s = "s\<lparr>BUDDY := b', TOTAL_FREE := TOTAL_FREE s - 2 ^ ?k\<rparr>"
    have pool: "free_set b' \<union> ?C = frame_pool s - span ?k i" "span ?k i \<subseteq> frame_pool s"
      using a(4,5) b(3) by (auto simp: frame_pool_def)
    have "card (span ?k i) \<le> card (frame_pool s)" using card_mono [OF finite_pool [OF inv] pool(2)] .
    then have "TOTAL_FREE s - 2 ^ ?k = of_nat (card (free_set b' \<union> ?C))"
      using inv pool by (simp add: phys_inv_def card_Diff_subset of_nat_diff)
    moreover have "cached (MAGAZINES s c) \<inter> free_set b' = {}" "0 \<notin> free_set b'" for c
      using a(5) b by auto
    ultimately have "phys_inv ?s \<and> frame_pool ?s = frame_pool s - span ?k i"
      using phys_inv_buddy [OF inv a(2) _ _ refl] pool(1) by simp
    then show ?thesis
      using a(1,3) pool(2) n by (auto simp: alloc_frames_def buddy_alloc_def)
  next
    assume a: "alloc_from ?k ?k (BUDDY s) = Some (None, BUDDY s)" "\<forall>l i. ?k \<le> l \<longrightarrow> (l, i) \<notin> blocks (BUDDY s)"
    have "\<not> span ?k i \<subseteq> free_set (BUDDY s)" for i
      using aligned_block_in_one [of "blocks (BUDDY s)" ?k i] b(1) k a(2)
      unfolding buddy_inv_def free_set_def by blast
    then show ?thesis using a(1) n by (simp add: alloc_frames_def buddy_alloc_def)
  qed
qed

lemma free_frames_n_ok:
  assumes inv: "phys_inv s" and n: "n \<noteq> 1" and v: "valid_block (free_order n) i" and i: "i \<noteq> 0"
    and p: "phys = i * 2 ^ free_order n * PAGE_SIZE" and sep: "span (free_order n) i \<inter> frame_pool s = {}"
  shows "\<exists>s'. free_frames_n cpu phys n s = Some s' \<and> phys_inv s' \<and>
    frame_pool s' = frame_pool s \<union> span (free_order n) i"
proof -
  let ?k = "free_order n" and ?C = "\<Union>c. cached (MAGAZINES s c)"
  have b: "buddy_inv (BUDDY s)" "0 \<notin> free_set (BUDDY s)" "?C \<inter> free_set (BUDDY s) = {}"
    using inv unfolding phys_inv_def cache_ok_def by blast+
  have sp: "span ?k i \<inter> free_set (BUDDY s) = {}" "span ?k i \<inter> ?C = {}"
    using sep by (auto simp: frame_pool_def)
  obtain b' where b': "buddy_free phys ?k (BUDDY s) = Some b'" "buddy_inv b'"
    "free_set b' = free_set (BUDDY s) \<union> span ?k i"
    using buddy_free_ok [OF b(1) v p sp(1)] by blast
  let ?s = "s\<lparr>BUDDY := b', TOTAL_FREE := TOTAL_FREE s + 2 ^ ?k\<rparr>"
  have pool: "free_set b' \<union> ?C = frame_pool s \<union> span ?k i"
    using b'(3) by (auto simp: frame_pool_def)
  have "TOTAL_FREE s + 2 ^ ?k = of_nat (card (free_set b' \<union> ?C))"
    using inv sep finite_pool [OF inv] unfolding pool
    by (subst card_Un_disjoint) (auto simp: phys_inv_def)
  moreover have "0 \<notin> free_set b'" using b b'(3) i by (auto simp: mem_span)
  moreover have "cached (MAGAZINES s c) \<inter> free_set b' = {}" for c using b(3) b'(3) sp(2) by blast
  ultimately have "phys_inv ?s \<and> frame_pool ?s = frame_pool s \<union> span ?k i"
    using phys_inv_buddy [OF inv b'(2) _ _ refl] pool by simp
  then show ?thesis using b'(1) n by (simp add: free_frames_n_def)
qed

section \<open>Properties of the allocator\<close>

text \<open>
  C1. Buddy allocation refines a set of free frames.  On every well-formed state
  \<open>alloc\<close> either hands out the address of an aligned block of exactly \<open>2 ^ order\<close>
  frames that were all free, and exactly those frames stop being free, or returns
  nothing, leaves the state as it was, and no aligned block of that size was
  free: the allocator never fails while there is room.  It does not panic and
  the invariant (blocks in memory, disjoint, coalesced, counter exact) holds after.
\<close>
theorem buddy_alloc_refines:
  assumes "buddy_inv b" "order \<le> MAX_ORDER"
  shows "(\<exists>i b'. buddy_alloc order b = Some (Some (i * 2 ^ order * PAGE_SIZE), b') \<and> buddy_inv b' \<and>
      valid_block order i \<and> span order i \<subseteq> free_set b \<and> free_set b' = free_set b - span order i) \<or>
    (buddy_alloc order b = Some (None, b) \<and> (\<forall>i. \<not> span order i \<subseteq> free_set b))"
proof -
  have "\<not> span order i \<subseteq> free_set b" if "\<forall>l i. order \<le> l \<longrightarrow> (l, i) \<notin> blocks b" for i
    using aligned_block_in_one [of "blocks b" order i] assms that
    unfolding buddy_inv_def free_set_def by blast
  then show ?thesis
    using alloc_from_ok [OF assms(1) order_refl, of order] unfolding buddy_alloc_def by blast
qed

text \<open>The allocator that holds one free block, for the concrete instances below.\<close>

definition one_block :: "nat \<Rightarrow> nat \<Rightarrow> buddy" where
  "one_block k i = \<lparr>free_bitmaps = (\<lambda>l w. if l = k \<and> w = i div 64 then bit_mask (i mod 64) else 0),
     ba_total_frames = 2 ^ k, ba_free_frames = 2 ^ k\<rparr>"

lemma one_block_facts:
  assumes "valid_block k i"
  shows "buddy_inv (one_block k i)" "free_set (one_block k i) = span k i"
proof -
  have "(l, j) \<in> blocks (one_block k i) \<longleftrightarrow> l = k \<and> j = i" for l j
    using valid_block_in_bitmap [OF assms] div_mod_64_eq [of j i]
    by (auto simp: mem_blocks one_block_def bits_simps)
  then have bl: "blocks (one_block k i) = {(k, i)}" by auto
  then show fs: "free_set (one_block k i) = span k i" by (simp add: free_set_def cover_def)
  have "i XOR Suc 0 \<noteq> i" by (cases "i = 0") (auto simp: xor_one_nat)
  then show "buddy_inv (one_block k i)"
    unfolding buddy_inv_def fs bl using assms by (simp add: blocks_ok_def one_block_def)
qed

definition one_frame :: buddy where
  "one_frame = one_block 0 256"

lemma valid_block_examples: "valid_block 0 256" "valid_block 0 257" "valid_block 2 64"
  by (simp_all add: valid_block_def phys_consts)

lemma one_frame_facts: "buddy_inv one_frame" "free_set one_frame = {256}"
  using one_block_facts [OF valid_block_examples(1)] by (simp_all add: one_frame_def)

theorem buddy_alloc_refines_witness:
  "buddy_inv one_frame \<and> (0::nat) \<le> MAX_ORDER \<and>
   (\<exists>b'. buddy_alloc 0 one_frame = Some (Some (256 * PAGE_SIZE), b') \<and> free_set b' = {})"
  using buddy_alloc_refines [of one_frame 0] one_frame_facts by auto

text \<open>
  C2. Releasing a block refines the same set: \<open>free\<close> of an aligned block inside
  memory whose frames are all in use makes exactly those frames free, without a
  panic, and restores the invariant; in particular buddies are merged up to the
  top order, whatever the order in which blocks are released.
\<close>
theorem buddy_free_refines:
  assumes "buddy_inv b" "valid_block order i" "span order i \<inter> free_set b = {}"
  shows "\<exists>b'. buddy_free (i * 2 ^ order * PAGE_SIZE) order b = Some b' \<and> buddy_inv b' \<and>
    free_set b' = free_set b \<union> span order i"
  using buddy_free_ok [OF assms(1,2) refl assms(3)] by blast

theorem buddy_free_refines_witness:
  "valid_block 0 257 \<and> span 0 257 \<inter> free_set one_frame = {} \<and>
   (\<exists>b'. buddy_free (257 * 2 ^ 0 * PAGE_SIZE) 0 one_frame = Some b' \<and> buddy_inv b' \<and>
      free_set b' = {256, 257})"
proof -
  show ?thesis
    using buddy_free_refines [OF one_frame_facts(1) valid_block_examples(2)] valid_block_examples(2)
      one_frame_facts(2) by auto
qed

text \<open>
  C3. \<open>alloc_frame\<close> on any CPU, through its magazine or through a refill: it never
  panics, keeps the invariant (magazines and buddy blocks pairwise disjoint, the
  free counter exact), and either returns a page-aligned frame that was in the pool
  and removes exactly that frame, or returns nothing with the pool unchanged,
  and then neither this CPU's magazine nor the buddy allocator held a frame.
\<close>
theorem alloc_frame_takes_one:
  assumes "phys_inv s"
  shows "(\<exists>p s'. alloc_frame cpu s = Some (Some p, s') \<and> phys_inv s' \<and> PAGE_SIZE dvd p \<and>
      p div PAGE_SIZE \<in> frame_pool s \<and> frame_pool s' = frame_pool s - {p div PAGE_SIZE}) \<or>
    (\<exists>s'. alloc_frame cpu s = Some (None, s') \<and> phys_inv s' \<and> frame_pool s' = frame_pool s \<and>
      free_set (BUDDY s) = {} \<and> mag_is_empty (MAGAZINES s (cpu_slot cpu)))"
  using alloc_frame_ok [OF assms, of cpu] phys_invD [OF assms, of "cpu_slot cpu"]
  by (auto simp: avail_def cached_def mag_stack_def mag_is_empty_def cache_ok_def mag_ok_def phys_consts)

lemma magazine_new_facts: "mag_stack magazine_new = []" "cached magazine_new = {}" "mag_ok magazine_new"
  by (simp_all add: magazine_new_def mag_stack_def cached_def mag_ok_def)

definition block_state :: "nat \<Rightarrow> nat \<Rightarrow> phys_state" where
  "block_state k i = phys_boot\<lparr>BUDDY := one_block k i, TOTAL_FREE := 2 ^ k, TOTAL_ALL := 2 ^ k\<rparr>"

lemma block_state_facts:
  assumes "valid_block k i" "i \<noteq> 0"
  shows "phys_inv (block_state k i)" "frame_pool (block_state k i) = span k i"
proof -
  show p: "frame_pool (block_state k i) = span k i"
    by (simp add: frame_pool_def block_state_def phys_boot_def one_block_facts [OF assms(1)] magazine_new_facts)
  have "0 \<notin> span k i" using assms(2) by (simp add: mem_span)
  then show "phys_inv (block_state k i)"
    unfolding phys_inv_def p
    by (simp add: block_state_def phys_boot_def one_block_facts [OF assms(1)] magazine_new_facts cache_ok_def)
qed

definition one_frame_state :: phys_state where
  "one_frame_state = block_state 0 256"

lemma one_frame_state_facts: "phys_inv one_frame_state" "frame_pool one_frame_state = {256}"
  "BUDDY one_frame_state = one_frame"
  using block_state_facts [OF valid_block_examples(1)]
  by (simp_all add: one_frame_state_def block_state_def one_frame_def)

theorem alloc_frame_takes_one_witness:
  "phys_inv one_frame_state \<and>
   (\<exists>s'. alloc_frame 0 one_frame_state = Some (Some (256 * PAGE_SIZE), s') \<and> frame_pool s' = {})"
  using alloc_frame_takes_one [OF one_frame_state_facts(1), of 0] one_frame_state_facts one_frame_facts
  by (auto simp: dvd_def mult.commute)

text \<open>
  C4. \<open>free_frame\<close> of a page-aligned frame of memory that is not in the pool, on any
  CPU, into its magazine or after draining half of a full magazine into the buddy
  allocator: it never panics, keeps the invariant, and adds exactly that frame.
\<close>
theorem free_frame_gives_one:
  assumes "phys_inv s" "f < MAX_FRAMES" "f \<noteq> 0" "f \<notin> frame_pool s"
  shows "\<exists>s'. free_frame cpu (f * PAGE_SIZE) s = Some s' \<and> phys_inv s' \<and>
    frame_pool s' = insert f (frame_pool s)"
  using free_frame_ok [OF assms(1), of "f * PAGE_SIZE" cpu] assms(2-4) by (simp add: PAGE_SIZE_def)

theorem free_frame_gives_one_witness:
  "phys_inv one_frame_state \<and>
   (\<exists>s'. free_frame 3 (300 * PAGE_SIZE) one_frame_state = Some s' \<and> phys_inv s' \<and> frame_pool s' = {256, 300})"
  using free_frame_gives_one [OF one_frame_state_facts(1), of 300 3] one_frame_state_facts
  by (auto simp: MAX_FRAMES_def insert_commute)

text \<open>
  C5. Boot.  For a memory map that satisfies \<open>map_ok\<close> (every descriptor starts at a page
  boundary, the usable ones end at or below 4 GiB and share no page, and the images end
  at least a page below the top of the 64-bit address space) \<open>init\<close> ends, does not panic
  and establishes the invariant of the allocator.  The pool then holds exactly the
  frames of usable descriptors at or above 1 MiB whose page meets neither the kernel
  image nor the init and qshell images (of those that are present).
\<close>
theorem phys_init_pool:
  assumes "map_ok bi"
  shows "\<exists>s. phys_init bi phys_boot = Some s \<and> phys_inv s \<and>
    frame_pool s = {f. 256 \<le> f \<and> (\<exists>d\<in>set (memory_map bi). f \<in> desc_pages d) \<and> \<not> image_page bi f}"
proof -
  let ?F = "{f \<in> (\<Union>d\<in>set (memory_map bi). desc_pages d). 256 \<le> f \<and> \<not> image_page bi f}"
  obtain t b where r: "init_descs bi (memory_map bi) 0 buddy_new = Some (t, b)" "buddy_inv b"
    "free_set b = ?F"
    using init_descs_ok [OF buddy_new_inv(1) assms, of "memory_map bi" 0] assms buddy_new_inv(2)
    unfolding map_ok_def by auto
  have e: "?F = {f. 256 \<le> f \<and> (\<exists>d\<in>set (memory_map bi). f \<in> desc_pages d) \<and> \<not> image_page bi f}" by auto
  have "0 \<notin> free_set b" unfolding r(3) by simp
  moreover have "ba_free_frames b = card (free_set b)" using r(2) by (simp add: buddy_inv_def)
  ultimately show ?thesis
    unfolding e [symmetric] using r
    by (simp add: phys_init_def phys_boot_def phys_inv_def frame_pool_def cache_ok_def magazine_new_facts)
qed

definition small_map :: boot_info where
  "small_map = \<lparr>memory_map = [\<lparr>md_type = 7, md_phys_start = 0x100000, md_num_pages = 2\<rparr>,
      \<lparr>md_type = 9, md_phys_start = 0x102000, md_num_pages = 1\<rparr>],
    kernel_phys_start = 0x101000, kernel_phys_end = 0x101800, init_phys_start = 0, init_size = 0,
    qshell_phys_start = 0, qshell_size = 0\<rparr>"

theorem phys_init_pool_witness:
  "map_ok small_map \<and> (\<exists>s. phys_init small_map phys_boot = Some s \<and> phys_inv s \<and> frame_pool s = {256})"
proof -
  have m: "map_ok small_map"
    by (auto simp: map_ok_def small_map_def usable_type_def phys_consts desc_ok_def desc_pages_def desc_end_def)
  have "{f. 256 \<le> f \<and> (\<exists>d\<in>set (memory_map small_map). f \<in> desc_pages d) \<and> \<not> image_page small_map f} = {256}"
    by (auto simp: small_map_def desc_pages_def desc_end_def usable_type_def image_page_def page_meets_def PAGE_SIZE_def)
  then show ?thesis using phys_init_pool [OF m] m by simp
qed

text \<open>
  C6. Contiguous allocation and release disagree on the block size.  When the number
  of frames asked for is below 2048 and not a power of two, \<open>alloc_frames\<close> rounds
  the order up and \<open>free_frames_n\<close> rounds it down: after the pair, half of the block
  (as many frames as were given back) is missing from the pool, while the counter
  reports what is really in it.  Every such allocation leaks that half.  (From 2048
  frames on both orders are cut to the largest one and agree.)
\<close>
theorem free_frames_n_leaks:
  assumes inv: "phys_inv s" and n: "1 < n" "n < 2 ^ MAX_ORDER" "\<not> is_power_of_two n"
    and a: "alloc_frames cpu n s = Some (Some p, s1)"
  shows "\<exists>s2. free_frames_n cpu p n s1 = Some s2 \<and> phys_inv s2 \<and> frame_pool s2 \<subset> frame_pool s \<and>
    card (frame_pool s2) + 2 ^ free_order n = card (frame_pool s)"
proof -
  have bl: "bit_length n \<le> MAX_ORDER"
  proof (rule ccontr)
    assume "\<not> bit_length n \<le> MAX_ORDER"
    then have "(2::nat) ^ MAX_ORDER \<le> 2 ^ (bit_length n - 1)" by (intro power_increasing) auto
    then show False using bit_length_bounds [of n] n(1,2) by linarith
  qed
  then have k: "alloc_order n = Suc (free_order n)"
    using n bit_length_bounds [of n] by (simp add: alloc_order_def free_order_def)
  let ?k = "free_order n"
  obtain i where i: "p = i * 2 ^ Suc ?k * PAGE_SIZE" "phys_inv s1" "valid_block (Suc ?k) i"
    "span (Suc ?k) i \<subseteq> frame_pool s" "frame_pool s1 = frame_pool s - span (Suc ?k) i"
    using alloc_frames_ok [OF inv n(1), of cpu] a k by auto
  have half: "span (Suc ?k) i = span ?k (2 * i) \<union> span ?k (2 * i + 1)" by (rule span_halves)
  have dis: "span ?k (2 * i) \<inter> span ?k (2 * i + 1) = {}" using span_disjoint by simp
  have "i \<noteq> 0"
  proof
    assume "i = 0"
    then have "0 \<in> frame_pool s" using i(4) by (auto simp: mem_span)
    then show False using pool_bounds [OF inv] by simp
  qed
  then obtain s2 where s2: "free_frames_n cpu p n s1 = Some s2" "phys_inv s2"
    "frame_pool s2 = frame_pool s1 \<union> span ?k (2 * i)"
    using free_frames_n_ok [OF i(2), of n "2 * i" p cpu] i n half valid_block_child [OF i(3)]
    by (auto simp: mult.assoc)
  have eq: "frame_pool s = frame_pool s2 \<union> span ?k (2 * i + 1)" "frame_pool s2 \<inter> span ?k (2 * i + 1) = {}"
    using s2(3) i(4,5) half dis by auto
  then have "card (frame_pool s) = card (frame_pool s2) + 2 ^ ?k"
    using finite_pool [OF s2(2)] by (simp add: card_Un_disjoint)
  moreover have "frame_pool s2 \<subset> frame_pool s"
    using eq span_facts(3) [of ?k "2 * i + 1"] by blast
  ultimately show ?thesis using s2 by simp
qed

theorem free_frames_n_leaks_witness:
  "\<exists>p s1 s2. alloc_frames 0 3 (block_state 2 64) = Some (Some p, s1) \<and> free_frames_n 0 p 3 s1 = Some s2 \<and>
     card (frame_pool (block_state 2 64)) = 4 \<and> card (frame_pool s2) = 2"
proof -
  have f: "phys_inv (block_state 2 64)" "frame_pool (block_state 2 64) = span 2 64"
    using block_state_facts [OF valid_block_examples(3)] by simp_all
  have o: "bit_length 3 = 2" "\<not> is_power_of_two 3" "alloc_order 3 = 2" "free_order 3 = 1"
    by (simp_all add: bit_length.simps is_power_of_two_def alloc_order_def free_order_def phys_consts)
  have "free_set (BUDDY (block_state 2 64)) = span 2 64"
    using one_block_facts [OF valid_block_examples(3)] by (simp add: block_state_def)
  then obtain p s1 where a: "alloc_frames 0 3 (block_state 2 64) = Some (Some p, s1)"
    using alloc_frames_ok [OF f(1), of 3 0] o(3) by auto
  show ?thesis
    using free_frames_n_leaks [OF f(1) _ _ o(2) a] a f(2) o(4) by (auto simp: MAX_ORDER_def)
qed

end
