(* ===== verification/Tmp_File.thy ===== *)
theory Tmp_File
  imports Frame_Cache Vfs_Types
begin

text \<open>
  The contents of a tmpfs file (kernel/src/fs/tmpfs/mod.rs, \<open>TmpFileData\<close>): a length and a
  vector of 4 KiB frames taken from the physical allocator of \<open>Frame_Cache\<close>.  The bytes of
  memory are a function from the address of a frame to its contents; the allocator and the
  bytes together are the record \<open>memory\<close>.  An index past the page vector panics (None).
  Lengths and offsets are natural numbers; the one sum that wraps before an access is
  checked, in \<open>required_pages\<close>, is written out.

  The theorems relate the paged file to the plain list of its bytes, \<open>content\<close>: reading,
  writing and truncating act on the list as expected, touch no other frame, and
  neither lose nor invent a frame.
\<close>

section \<open>The operations\<close>

record memory =
  m_phys :: phys_state
  m_bytes :: "nat \<Rightarrow> u8 list"

record tmp_file =
  tf_len :: nat
  tf_pages :: "nat list"

definition TMPFS_PAGE_SIZE :: nat where
  "TMPFS_PAGE_SIZE = 4096"

definition tmp_file_new :: tmp_file where
  "tmp_file_new = \<lparr>tf_len = 0, tf_pages = []\<rparr>"

definition required_pages :: "nat \<Rightarrow> nat" where
  "required_pages len =
     (if len = 0 then 0 else (len + TMPFS_PAGE_SIZE - 1) mod 2 ^ 64 div TMPFS_PAGE_SIZE)"

text \<open>The loop of \<open>ensure_len\<close>: each new frame is cleared before it is appended.\<close>

function ensure_pages ::
    "nat \<Rightarrow> nat \<Rightarrow> nat list \<Rightarrow> memory \<Rightarrow> ((vfs_error + unit) \<times> nat list \<times> memory) option" where
  "ensure_pages cpu needed ps m =
     (if length ps < needed
      then (case alloc_frame cpu (m_phys m) of
              None \<Rightarrow> None
            | Some (None, s) \<Rightarrow> Some (Inl ENOMEM, ps, m\<lparr>m_phys := s\<rparr>)
            | Some (Some frame, s) \<Rightarrow> ensure_pages cpu needed (ps @ [frame])
                (m\<lparr>m_phys := s, m_bytes := (m_bytes m)(frame := replicate TMPFS_PAGE_SIZE 0)\<rparr>))
      else Some (Inr (), ps, m))"
  by pat_completeness auto
termination ensure_pages
  by (relation "measure (\<lambda>(cpu, needed, ps, m). needed - length ps)") auto

declare ensure_pages.simps [simp del]

definition ensure_len :: "nat \<Rightarrow> nat \<Rightarrow> tmp_file \<Rightarrow> memory \<Rightarrow> ((vfs_error + unit) \<times> tmp_file \<times> memory) option" where
  "ensure_len cpu len f m =
     map_option (\<lambda>(r, ps, m'). (r, f\<lparr>tf_pages := ps\<rparr>, m')) (ensure_pages cpu (required_pages len) (tf_pages f) m)"

definition poke :: "nat \<Rightarrow> nat \<Rightarrow> u8 list \<Rightarrow> (nat \<Rightarrow> u8 list) \<Rightarrow> nat \<Rightarrow> u8 list" where
  "poke frame off d b = b(frame := take off (b frame) @ d @ drop (off + length d) (b frame))"

function zero_loop :: "nat list \<Rightarrow> nat \<Rightarrow> nat \<Rightarrow> (nat \<Rightarrow> u8 list) \<Rightarrow> (nat \<Rightarrow> u8 list) option" where
  "zero_loop ps pos e b =
     (if pos < e
      then let page_idx = pos div TMPFS_PAGE_SIZE; page_off = pos mod TMPFS_PAGE_SIZE;
               nxt = min e ((page_idx + 1) * TMPFS_PAGE_SIZE) in
           if page_idx < length ps
           then zero_loop ps nxt e (poke (ps ! page_idx) page_off (replicate (nxt - pos) 0) b)
           else None
      else Some b)"
  by pat_completeness auto
termination zero_loop
proof (relation "measure (\<lambda>(ps, pos, e, b). e - pos)")
  fix ps pos e b x xa xb
  assume a: "pos < (e :: nat)" "x = pos div TMPFS_PAGE_SIZE" "xb = min e ((x + 1) * TMPFS_PAGE_SIZE)"
  have "pos < (x + 1) * TMPFS_PAGE_SIZE"
    unfolding a(2) by (metis Suc_eq_plus1 dividend_less_div_times mult.commute TMPFS_PAGE_SIZE_def zero_less_numeral mult_Suc)
  then show "((ps, xb, e, poke (ps ! x) xa (replicate (xb - pos) 0) b), ps, pos, e, b)
      \<in> measure (\<lambda>(ps, pos, e, b). e - pos)"
    using a by auto
qed auto

declare zero_loop.simps [simp del]

definition zero_range ::
    "nat \<Rightarrow> nat \<Rightarrow> nat \<Rightarrow> tmp_file \<Rightarrow> memory \<Rightarrow> ((vfs_error + unit) \<times> tmp_file \<times> memory) option" where
  "zero_range cpu start e f m =
     (if e \<le> start then Some (Inr (), f, m)
      else (case ensure_len cpu e f m of
              None \<Rightarrow> None
            | Some (Inl er, f', m') \<Rightarrow> Some (Inl er, f', m')
            | Some (Inr _, f', m') \<Rightarrow>
                map_option (\<lambda>b. (Inr (), f', m'\<lparr>m_bytes := b\<rparr>)) (zero_loop (tf_pages f') start e (m_bytes m'))))"

lemma page_off_less [simp]: "x mod TMPFS_PAGE_SIZE < TMPFS_PAGE_SIZE"
  by (simp add: TMPFS_PAGE_SIZE_def)

lemma page_step:
  "a < n \<Longrightarrow> q < p \<Longrightarrow> q + min (n - a) (p - q) \<le> l \<Longrightarrow> n - (a + min (l - q) (min (n - a) (p - q))) < n - a"
  for a n :: nat
  by auto

text \<open>\<open>read\<close> fills the first \<open>copied\<close> bytes of the buffer; the model returns these bytes.\<close>

function read_loop :: "nat list \<Rightarrow> (nat \<Rightarrow> u8 list) \<Rightarrow> nat \<Rightarrow> nat \<Rightarrow> u8 list \<Rightarrow> u8 list option" where
  "read_loop ps b offset tot buf =
     (if length buf < tot
      then let pos = offset + length buf;
               page_idx = pos div TMPFS_PAGE_SIZE; page_off = pos mod TMPFS_PAGE_SIZE;
               chunk = min (tot - length buf) (TMPFS_PAGE_SIZE - page_off) in
           if page_idx < length ps \<and> page_off + chunk \<le> length (b (ps ! page_idx))
           then read_loop ps b offset tot (buf @ take chunk (drop page_off (b (ps ! page_idx))))
           else None
      else Some buf)"
  by pat_completeness auto
termination read_loop
  by (relation "measure (\<lambda>(ps, b, offset, tot, buf). tot - length buf)")
    (auto simp del: diff_diff_left min_less_iff_conj intro!: page_step)

declare read_loop.simps [simp del]

definition tmp_file_read :: "nat \<Rightarrow> nat \<Rightarrow> tmp_file \<Rightarrow> (nat \<Rightarrow> u8 list) \<Rightarrow> u8 list option" where
  "tmp_file_read offset len f b =
     (if tf_len f \<le> offset then Some []
      else read_loop (tf_pages f) b offset (min len (tf_len f - offset)) [])"

function write_loop :: "nat list \<Rightarrow> nat \<Rightarrow> u8 list \<Rightarrow> nat \<Rightarrow> (nat \<Rightarrow> u8 list) \<Rightarrow> (nat \<times> (nat \<Rightarrow> u8 list)) option" where
  "write_loop ps offset data copied b =
     (if copied < length data
      then let pos = offset + copied;
               page_idx = pos div TMPFS_PAGE_SIZE; page_off = pos mod TMPFS_PAGE_SIZE;
               chunk = min (length data - copied) (TMPFS_PAGE_SIZE - page_off) in
           if page_idx < length ps
           then write_loop ps offset data (copied + chunk)
                  (poke (ps ! page_idx) page_off (take chunk (drop copied data)) b)
           else None
      else Some (copied, b))"
  by pat_completeness auto
termination write_loop
  by (relation "measure (\<lambda>(ps, offset, data, copied, b). length data - copied)")
    (auto simp: TMPFS_PAGE_SIZE_def min_def)

declare write_loop.simps [simp del]

definition tmp_file_write ::
    "nat \<Rightarrow> nat \<Rightarrow> u8 list \<Rightarrow> tmp_file \<Rightarrow> memory \<Rightarrow> ((vfs_error + nat) \<times> tmp_file \<times> memory) option" where
  "tmp_file_write cpu offset data f m =
     (if data = [] then Some (Inr 0, f, m)
      else case (if tf_len f < offset then zero_range cpu (tf_len f) offset f m else Some (Inr (), f, m)) of
        None \<Rightarrow> None
      | Some (Inl er, f1, m1) \<Rightarrow> Some (Inl er, f1, m1)
      | Some (Inr _, f1, m1) \<Rightarrow>
          (case ensure_len cpu (offset + length data) f1 m1 of
             None \<Rightarrow> None
           | Some (Inl er, f2, m2) \<Rightarrow> Some (Inl er, f2, m2)
           | Some (Inr _, f2, m2) \<Rightarrow>
               map_option (\<lambda>(copied, b).
                   (Inr copied, if tf_len f2 < offset + length data then f2\<lparr>tf_len := offset + length data\<rparr> else f2,
                    m2\<lparr>m_bytes := b\<rparr>))
                 (write_loop (tf_pages f2) offset data 0 (m_bytes m2))))"

function pop_pages :: "nat \<Rightarrow> nat \<Rightarrow> nat list \<Rightarrow> phys_state \<Rightarrow> (nat list \<times> phys_state) option" where
  "pop_pages cpu needed ps s =
     (if needed < length ps
      then (case free_frame cpu (last ps) s of
              None \<Rightarrow> None
            | Some s' \<Rightarrow> pop_pages cpu needed (butlast ps) s')
      else Some (ps, s))"
  by pat_completeness auto
termination pop_pages
  by (relation "measure (\<lambda>(cpu, needed, ps, s). length ps)") auto

declare pop_pages.simps [simp del]

definition tmp_file_truncate ::
    "nat \<Rightarrow> nat \<Rightarrow> tmp_file \<Rightarrow> memory \<Rightarrow> ((vfs_error + unit) \<times> tmp_file \<times> memory) option" where
  "tmp_file_truncate cpu len f m =
     (if tf_len f < len
      then map_option (\<lambda>(r, f', m'). case r of Inl er \<Rightarrow> (Inl er, f', m') | Inr _ \<Rightarrow> (Inr (), f'\<lparr>tf_len := len\<rparr>, m'))
             (zero_range cpu (tf_len f) len f m)
      else let needed = required_pages len; tail = len mod TMPFS_PAGE_SIZE in
           case pop_pages cpu needed (tf_pages f) (m_phys m) of
             None \<Rightarrow> None
           | Some (ps, s) \<Rightarrow>
               if 0 < needed \<and> tail \<noteq> 0
               then if needed - 1 < length ps
                    then Some (Inr (), f\<lparr>tf_len := len, tf_pages := ps\<rparr>,
                      m\<lparr>m_phys := s, m_bytes := poke (ps ! (needed - 1)) tail (replicate (TMPFS_PAGE_SIZE - tail) 0) (m_bytes m)\<rparr>)
                    else None
               else Some (Inr (), f\<lparr>tf_len := len, tf_pages := ps\<rparr>, m\<lparr>m_phys := s\<rparr>))"

text \<open>The destructor gives every frame back.\<close>

definition tmp_file_drop :: "nat \<Rightarrow> tmp_file \<Rightarrow> memory \<Rightarrow> memory option" where
  "tmp_file_drop cpu f m = map_option (\<lambda>(_, s). m\<lparr>m_phys := s\<rparr>) (pop_pages cpu 0 (tf_pages f) (m_phys m))"

section \<open>Bytes through pages\<close>

definition byte_at :: "nat list \<Rightarrow> (nat \<Rightarrow> u8 list) \<Rightarrow> nat \<Rightarrow> u8" where
  "byte_at ps b i = b (ps ! (i div TMPFS_PAGE_SIZE)) ! (i mod TMPFS_PAGE_SIZE)"

definition pages_full :: "nat list \<Rightarrow> (nat \<Rightarrow> u8 list) \<Rightarrow> bool" where
  "pages_full ps b \<longleftrightarrow> distinct ps \<and> (\<forall>p\<in>set ps. length (b p) = TMPFS_PAGE_SIZE)"

text \<open>
  \<open>patched ps lo hi g b b'\<close>: the bytes \<open>lo\<close> up to \<open>hi\<close> of the pages now follow \<open>g\<close>, all others are
  as before, and so is every frame that is not one of the pages.
\<close>

definition patched ::
    "nat list \<Rightarrow> nat \<Rightarrow> nat \<Rightarrow> (nat \<Rightarrow> u8) \<Rightarrow> (nat \<Rightarrow> u8 list) \<Rightarrow> (nat \<Rightarrow> u8 list) \<Rightarrow> bool" where
  "patched ps lo hi g b b' \<longleftrightarrow> pages_full ps b' \<and> (\<forall>p. p \<notin> set ps \<longrightarrow> b' p = b p) \<and>
     (\<forall>i < length ps * TMPFS_PAGE_SIZE. byte_at ps b' i = (if lo \<le> i \<and> i < hi then g i else byte_at ps b i))"

lemma page_idx_less: "i < n * TMPFS_PAGE_SIZE \<Longrightarrow> i div TMPFS_PAGE_SIZE < n"
  by (simp add: less_mult_imp_div_less)

lemma page_chunk [simp]: "x mod TMPFS_PAGE_SIZE + min a (TMPFS_PAGE_SIZE - x mod TMPFS_PAGE_SIZE) \<le> TMPFS_PAGE_SIZE"
  using page_off_less [of x] by linarith

lemma page_next:
  "x < (x div TMPFS_PAGE_SIZE + 1) * TMPFS_PAGE_SIZE"
  "x mod TMPFS_PAGE_SIZE + ((x div TMPFS_PAGE_SIZE + 1) * TMPFS_PAGE_SIZE - x) = TMPFS_PAGE_SIZE"
proof -
  have "x div TMPFS_PAGE_SIZE * TMPFS_PAGE_SIZE + x mod TMPFS_PAGE_SIZE = x" "x mod TMPFS_PAGE_SIZE < TMPFS_PAGE_SIZE"
    by (rule div_mult_mod_eq) simp
  then show "x < (x div TMPFS_PAGE_SIZE + 1) * TMPFS_PAGE_SIZE"
    "x mod TMPFS_PAGE_SIZE + ((x div TMPFS_PAGE_SIZE + 1) * TMPFS_PAGE_SIZE - x) = TMPFS_PAGE_SIZE"
    unfolding add_mult_distrib by linarith+
qed

lemma patched_refl: "pages_full ps b \<Longrightarrow> hi \<le> lo \<Longrightarrow> patched ps lo hi g b b"
  by (auto simp: patched_def)

lemma patched_trans:
  assumes "patched ps lo mid g b b1" "patched ps mid hi g b1 b2" "lo \<le> mid" "mid \<le> hi"
  shows "patched ps lo hi g b b2"
  using assms by (auto simp: patched_def)

lemma patched_poke:
  assumes "pages_full ps b" "lo div TMPFS_PAGE_SIZE < length ps" "lo mod TMPFS_PAGE_SIZE + length d \<le> TMPFS_PAGE_SIZE"
    and "\<And>j. j < length d \<Longrightarrow> d ! j = g (lo + j)"
  shows "patched ps lo (lo + length d) g b (poke (ps ! (lo div TMPFS_PAGE_SIZE)) (lo mod TMPFS_PAGE_SIZE) d b)"
proof -
  let ?P = TMPFS_PAGE_SIZE and ?k = "lo div TMPFS_PAGE_SIZE" and ?o = "lo mod TMPFS_PAGE_SIZE"
  let ?b = "poke (ps ! ?k) ?o d b"
  have len: "length (b (ps ! ?k)) = ?P" using assms(1,2) by (simp add: pages_full_def)
  have lo: "lo = ?k * ?P + ?o" by simp
  have "byte_at ps ?b i = (if lo \<le> i \<and> i < lo + length d then g i else byte_at ps b i)" if "i < length ps * ?P" for i
  proof (cases "i div ?P = ?k")
    case True
    then have i: "i = ?k * ?P + i mod ?P" by (metis div_mult_mod_eq)
    have "lo \<le> i \<longleftrightarrow> ?o \<le> i mod ?P" "i < lo + length d \<longleftrightarrow> i mod ?P < ?o + length d"
      "?o \<le> i mod ?P \<Longrightarrow> lo + (i mod ?P - ?o) = i"
      using i lo by linarith+
    moreover have "(take ?o (b (ps ! ?k)) @ d @ drop (?o + length d) (b (ps ! ?k))) ! (i mod ?P) =
        (if ?o \<le> i mod ?P \<and> i mod ?P < ?o + length d then d ! (i mod ?P - ?o) else b (ps ! ?k) ! (i mod ?P))"
      using len assms(3) page_off_less [of lo] page_off_less [of i] by (auto simp: nth_append min_def)
    ultimately show ?thesis
      using True assms(4) [of "i mod ?P - ?o"] by (auto simp: byte_at_def poke_def)
  next
    case False
    have ne: "ps ! (i div ?P) \<noteq> ps ! ?k"
      using False that assms(1,2) page_idx_less [OF that] by (simp add: pages_full_def nth_eq_iff_index_eq)
    have "\<not> (lo \<le> i \<and> i < lo + length d)"
    proof
      assume a: "lo \<le> i \<and> i < lo + length d"
      then have "?k * ?P \<le> i" "i < ?k * ?P + ?P" using lo assms(3) by linarith+
      then show False using False by (metis div_nat_eqI mult.commute mult_Suc_right add.commute)
    qed
    then show ?thesis using ne by (auto simp: byte_at_def poke_def)
  qed
  moreover have "pages_full ps ?b" using assms(1,3) len by (auto simp: pages_full_def poke_def)
  moreover have "?b p = b p" if "p \<notin> set ps" for p using that assms(2) by (auto simp: poke_def)
  ultimately show ?thesis by (simp add: patched_def)
qed

lemma zero_loop_ok:
  "pages_full ps b \<Longrightarrow> pos \<le> e \<Longrightarrow> e \<le> length ps * TMPFS_PAGE_SIZE \<Longrightarrow>
   \<exists>b'. zero_loop ps pos e b = Some b' \<and> patched ps pos e (\<lambda>_. 0) b b'"
proof (induction ps pos e b rule: zero_loop.induct)
  case (1 ps pos e b)
  let ?P = TMPFS_PAGE_SIZE and ?k = "pos div TMPFS_PAGE_SIZE" and ?o = "pos mod TMPFS_PAGE_SIZE"
  let ?n = "min e ((?k + 1) * ?P)" and ?b = "poke (ps ! ?k) ?o (replicate (min e ((?k + 1) * ?P) - pos) 0) b"
  show ?case
  proof (cases "pos < e")
    case True
    have k: "?k < length ps" using True 1(4) page_idx_less [of pos "length ps"] by simp
    have n: "pos \<le> ?n" "?o + (?n - pos) \<le> ?P" "?n \<le> e"
      using page_next [of pos] True by linarith+
    have p: "patched ps pos ?n (\<lambda>_. 0) b ?b"
      using patched_poke [of ps b pos "replicate (?n - pos) 0" "\<lambda>_. 0"] 1(2) k n by simp
    then have "pages_full ps ?b" by (simp add: patched_def)
    from 1(1) [OF True refl refl refl k this n(3) 1(4)] obtain b'
      where "zero_loop ps ?n e ?b = Some b'" "patched ps ?n e (\<lambda>_. 0) ?b b'" by blast
    then show ?thesis
      using patched_trans [OF p _ n(1,3)] True k by (auto simp: zero_loop.simps [of ps pos] Let_def)
  next
    case False
    then show ?thesis using patched_refl [OF 1(2)] by (auto simp: zero_loop.simps)
  qed
qed

lemma write_loop_ok:
  "pages_full ps b \<Longrightarrow> copied \<le> length data \<Longrightarrow> offset + length data \<le> length ps * TMPFS_PAGE_SIZE \<Longrightarrow>
   \<exists>b'. write_loop ps offset data copied b = Some (length data, b') \<and>
     patched ps (offset + copied) (offset + length data) (\<lambda>i. data ! (i - offset)) b b'"
proof (induction ps offset data copied b rule: write_loop.induct)
  case (1 ps offset data copied b)
  let ?P = TMPFS_PAGE_SIZE and ?pos = "offset + copied" and ?g = "\<lambda>i. data ! (i - offset)"
  let ?k = "?pos div ?P" and ?o = "?pos mod ?P"
  let ?c = "min (length data - copied) (?P - ?o)"
  let ?d = "take ?c (drop copied data)"
  let ?b = "poke (ps ! ?k) ?o ?d b"
  show ?case
  proof (cases "copied < length data")
    case True
    have k: "?k < length ps" using True 1(4) page_idx_less [of ?pos "length ps"] by simp
    have c: "length ?d = ?c" "?o + ?c \<le> ?P" "copied + ?c \<le> length data"
      using True page_off_less [of ?pos] by auto
    have "?d ! j = ?g (?pos + j)" if "j < length ?d" for j
      using that 1(3) by simp
    then have p: "patched ps ?pos (?pos + ?c) ?g b ?b"
      using patched_poke [OF 1(2) k, of ?d ?g] c(1,2) by metis
    then have "pages_full ps ?b" by (simp add: patched_def)
    from 1(1) [OF True refl refl refl refl k this c(3) 1(4)] obtain b'
      where "write_loop ps offset data (copied + ?c) ?b = Some (length data, b')"
        "patched ps (?pos + ?c) (offset + length data) ?g ?b b'" by (auto simp: add.assoc)
    moreover from this have "patched ps ?pos (offset + length data) ?g b b'"
      by (intro patched_trans [OF p]) (use c(3) in simp_all)
    ultimately show ?thesis
      by (subst write_loop.simps) (simp add: Let_def True k)
  next
    case False
    then show ?thesis using patched_refl [OF 1(2)] 1(3) by (auto simp: write_loop.simps)
  qed
qed

lemma upt_split: "i \<le> j \<Longrightarrow> j \<le> k \<Longrightarrow> [i..<k] = [i..<j] @ [j..<k]"
  by (metis upt_add_eq_append le_add_diff_inverse)

lemma in_page:
  "q < TMPFS_PAGE_SIZE \<Longrightarrow> (k * TMPFS_PAGE_SIZE + q) div TMPFS_PAGE_SIZE = k"
  "q < TMPFS_PAGE_SIZE \<Longrightarrow> (k * TMPFS_PAGE_SIZE + q) mod TMPFS_PAGE_SIZE = q"
  by simp_all

lemma read_loop_ok:
  "pages_full ps b \<Longrightarrow> length buf \<le> tot \<Longrightarrow> offset + tot \<le> length ps * TMPFS_PAGE_SIZE \<Longrightarrow>
   read_loop ps b offset tot buf = Some (buf @ map (byte_at ps b) [offset + length buf..<offset + tot])"
proof (induction ps b offset tot buf rule: read_loop.induct)
  case (1 ps b offset tot buf)
  let ?P = TMPFS_PAGE_SIZE and ?pos = "offset + length buf"
  let ?k = "?pos div ?P" and ?o = "?pos mod ?P"
  let ?c = "min (tot - length buf) (?P - ?o)"
  let ?d = "take ?c (drop ?o (b (ps ! ?k)))"
  show ?case
  proof (cases "length buf < tot")
    case True
    have k: "?k < length ps" using True 1(4) page_idx_less [of ?pos "length ps"] by simp
    have c: "?o + ?c \<le> length (b (ps ! ?k))" "length ?d = ?c" "length (buf @ ?d) \<le> tot"
      using 1(2) k True page_off_less [of ?pos] by (auto simp: pages_full_def)
    have "?d ! j = byte_at ps b (?pos + j)" if "j < ?c" for j
    proof -
      have "?o + j < ?P" using that page_off_less [of ?pos] by linarith
      moreover have "?pos + j = ?k * ?P + (?o + j)" by simp
      ultimately have "(?pos + j) div ?P = ?k" "(?pos + j) mod ?P = ?o + j" by (metis in_page)+
      then show ?thesis using that c(1) by (simp add: byte_at_def)
    qed
    then have d: "?d = map (byte_at ps b) [?pos..<?pos + ?c]"
      using c(2) by (intro nth_equalityI) auto
    have split: "[?pos..<offset + tot] = [?pos..<?pos + ?c] @ [?pos + ?c..<offset + tot]"
      by (rule upt_split) (use c in simp_all)
    have "read_loop ps b offset tot buf = read_loop ps b offset tot (buf @ ?d)"
      by (subst read_loop.simps) (simp only: Let_def True k c(1) if_True simp_thms)
    moreover have "read_loop ps b offset tot (buf @ ?d) =
        Some ((buf @ ?d) @ map (byte_at ps b) [offset + length (buf @ ?d)..<offset + tot])"
      by (rule 1(1) [OF True refl refl refl refl conjI [OF k c(1)] 1(2) c(3) 1(4)])
    moreover have "offset + length (buf @ ?d) = ?pos + ?c"
      unfolding length_append c(2) by (rule add.assoc [symmetric])
    moreover have "(buf @ ?d) @ map (byte_at ps b) [?pos + ?c..<offset + tot] = buf @ map (byte_at ps b) [?pos..<offset + tot]"
      unfolding split map_append d [symmetric] by (rule append.assoc)
    ultimately show ?thesis by argo
  next
    case False
    then show ?thesis using 1(3) by (simp add: read_loop.simps)
  qed
qed

section \<open>Frames\<close>

text \<open>
  The frames one CPU can still be given: its own magazine and the buddy allocator.
\<close>

definition local_frames :: "nat \<Rightarrow> phys_state \<Rightarrow> nat set" where
  "local_frames cpu s = avail (BUDDY s) (MAGAZINES s (cpu_slot cpu))"

lemma local_frames_pool: "phys_inv s \<Longrightarrow> local_frames cpu s = frame_pool s - others s (cpu_slot cpu)"
  using pool_split [of s "cpu_slot cpu"] avail_others [of s "cpu_slot cpu"] by (auto simp: local_frames_def)

lemma alloc_frame_others:
  "alloc_frame cpu s = Some (r, s') \<Longrightarrow> others s' (cpu_slot cpu) = others s (cpu_slot cpu)"
proof -
  assume "alloc_frame cpu s = Some (r, s')"
  then have "\<exists>x. MAGAZINES s' = (MAGAZINES s)(cpu_slot cpu := x)"
    by (auto simp: alloc_frame_def Let_def bind_eq_Some_conv split_beta split: if_splits)
  then show ?thesis by (auto simp: others_def)
qed

lemma alloc_frame_local:
  assumes "phys_inv s"
  shows "(\<exists>p s'. alloc_frame cpu s = Some (Some p, s') \<and> phys_inv s' \<and> PAGE_SIZE dvd p \<and>
      p div PAGE_SIZE \<in> local_frames cpu s \<and> frame_pool s' = frame_pool s - {p div PAGE_SIZE} \<and>
      local_frames cpu s' = local_frames cpu s - {p div PAGE_SIZE}) \<or>
    (\<exists>s'. alloc_frame cpu s = Some (None, s') \<and> phys_inv s' \<and> frame_pool s' = frame_pool s \<and>
      local_frames cpu s = {} \<and> local_frames cpu s' = {})"
  using alloc_frame_ok [OF assms, of cpu]
proof
  assume "\<exists>p s'. alloc_frame cpu s = Some (Some p, s') \<and> phys_inv s' \<and> PAGE_SIZE dvd p \<and>
      p div PAGE_SIZE \<in> frame_pool s \<and> frame_pool s' = frame_pool s - {p div PAGE_SIZE}"
  then obtain p s' where a: "alloc_frame cpu s = Some (Some p, s')" "phys_inv s'" "PAGE_SIZE dvd p"
    "p div PAGE_SIZE \<in> frame_pool s" "frame_pool s' = frame_pool s - {p div PAGE_SIZE}" by blast
  note o = alloc_frame_others [OF a(1)]
  have "others s' (cpu_slot cpu) \<subseteq> frame_pool s'" using pool_split [of s' "cpu_slot cpu"] by blast
  then show ?thesis
    using a o local_frames_pool [OF assms, of cpu] local_frames_pool [OF a(2), of cpu] by auto
next
  assume "\<exists>s'. alloc_frame cpu s = Some (None, s') \<and> phys_inv s' \<and> frame_pool s' = frame_pool s \<and>
      avail (BUDDY s) (MAGAZINES s (cpu_slot cpu)) = {}"
  then obtain s' where a: "alloc_frame cpu s = Some (None, s')" "phys_inv s'" "frame_pool s' = frame_pool s"
    "local_frames cpu s = {}" by (auto simp: local_frames_def)
  then show ?thesis
    using alloc_frame_others [OF a(1)] local_frames_pool [OF assms, of cpu] local_frames_pool [OF a(2), of cpu] by auto
qed

lemma finite_local: "phys_inv s \<Longrightarrow> finite (local_frames cpu s)"
  using finite_pool local_frames_pool by simp

definition frames_of :: "nat list \<Rightarrow> nat set" where
  "frames_of ps = (\<lambda>p. p div PAGE_SIZE) ` set ps"

definition pages_ok :: "nat list \<Rightarrow> memory \<Rightarrow> bool" where
  "pages_ok ps m \<longleftrightarrow> phys_inv (m_phys m) \<and> pages_full ps (m_bytes m) \<and>
     (\<forall>p\<in>set ps. PAGE_SIZE dvd p \<and> p div PAGE_SIZE \<in> {1..<MAX_FRAMES}) \<and> frames_of ps \<inter> frame_pool (m_phys m) = {}"

text \<open>
  What every operation on a file with pages \<open>ps\<close> guarantees: no frame is lost or invented, and
  memory that is neither free nor the file's own is not touched.
\<close>

definition keeps :: "nat list \<Rightarrow> memory \<Rightarrow> nat list \<Rightarrow> memory \<Rightarrow> bool" where
  "keeps ps m ps' m' \<longleftrightarrow> pages_ok ps' m' \<and>
     frame_pool (m_phys m') \<union> frames_of ps' = frame_pool (m_phys m) \<union> frames_of ps \<and>
     (\<forall>p. p div PAGE_SIZE \<notin> frame_pool (m_phys m) \<union> frames_of ps \<longrightarrow> m_bytes m' p = m_bytes m p)"

lemma keeps_refl: "pages_ok ps m \<Longrightarrow> keeps ps m ps m"
  by (simp add: keeps_def)

lemma keeps_trans: "keeps ps m ps1 m1 \<Longrightarrow> keeps ps1 m1 ps2 m2 \<Longrightarrow> keeps ps m ps2 m2"
  by (simp add: keeps_def)

lemma keeps_patched:
  assumes "pages_ok ps m" "patched ps lo hi g (m_bytes m) b"
  shows "keeps ps m ps (m\<lparr>m_bytes := b\<rparr>)"
  using assms by (auto simp: keeps_def pages_ok_def patched_def frames_of_def)

lemma pages_ok_new:
  assumes "pages_ok ps m" "phys_inv s" "PAGE_SIZE dvd p" "p div PAGE_SIZE \<in> frame_pool (m_phys m)"
    and "frame_pool s = frame_pool (m_phys m) - {p div PAGE_SIZE}" "length c = TMPFS_PAGE_SIZE"
  shows "p \<notin> set ps" "keeps ps m (ps @ [p]) (m\<lparr>m_phys := s, m_bytes := (m_bytes m)(p := c)\<rparr>)"
proof -
  show p: "p \<notin> set ps" using assms(1,4) by (auto simp: pages_ok_def frames_of_def)
  have "p div PAGE_SIZE \<in> {1..<MAX_FRAMES}"
    using assms(1,4) phys.pool_frames [of "m_phys m"] by (auto simp: pages_ok_def)
  then show "keeps ps m (ps @ [p]) (m\<lparr>m_phys := s, m_bytes := (m_bytes m)(p := c)\<rparr>)"
    using assms p by (auto simp: keeps_def pages_ok_def pages_full_def frames_of_def)
qed

lemma byte_at_append: "i < length ps * TMPFS_PAGE_SIZE \<Longrightarrow> byte_at (ps @ qs) b i = byte_at ps b i"
  by (simp add: byte_at_def nth_append page_idx_less)

lemma byte_at_cong:
  "(\<And>p. p \<in> set ps \<Longrightarrow> b p = b' p) \<Longrightarrow> i < length ps * TMPFS_PAGE_SIZE \<Longrightarrow> byte_at ps b i = byte_at ps b' i"
  by (simp add: byte_at_def page_idx_less)

section \<open>Growing and shrinking\<close>

text \<open>\<open>grown cpu ps m ps' m'\<close>: new pages were appended with frames this CPU could be given.\<close>

definition grown :: "nat \<Rightarrow> nat list \<Rightarrow> memory \<Rightarrow> nat list \<Rightarrow> memory \<Rightarrow> bool" where
  "grown cpu ps m ps' m' \<longleftrightarrow> keeps ps m ps' m' \<and> length ps \<le> length ps' \<and>
     length ps' + card (local_frames cpu (m_phys m')) = length ps + card (local_frames cpu (m_phys m)) \<and>
     (\<forall>i < length ps * TMPFS_PAGE_SIZE. byte_at ps' (m_bytes m') i = byte_at ps (m_bytes m) i)"

lemma grown_refl: "pages_ok ps m \<Longrightarrow> grown cpu ps m ps m"
  by (simp add: grown_def keeps_refl)

lemma grown_trans: "grown cpu ps m ps1 m1 \<Longrightarrow> grown cpu ps1 m1 ps2 m2 \<Longrightarrow> grown cpu ps m ps2 m2"
proof -
  assume a: "grown cpu ps m ps1 m1" "grown cpu ps1 m1 ps2 m2"
  then have "length ps * TMPFS_PAGE_SIZE \<le> length ps1 * TMPFS_PAGE_SIZE" by (simp add: grown_def)
  then have "i < length ps1 * TMPFS_PAGE_SIZE" if "i < length ps * TMPFS_PAGE_SIZE" for i
    using that by (rule order.strict_trans2 [rotated])
  then show ?thesis using a keeps_trans [of ps m ps1 m1 ps2 m2] by (auto simp: grown_def)
qed

lemma ensure_pages_ok:
  "pages_ok ps m \<Longrightarrow> \<exists>r ps' m'. ensure_pages cpu needed ps m = Some (r, ps', m') \<and> grown cpu ps m ps' m' \<and>
     (r = Inr () \<and> needed \<le> length ps' \<or>
      r = Inl ENOMEM \<and> length ps + card (local_frames cpu (m_phys m)) < needed)"
proof (induction cpu needed ps m rule: ensure_pages.induct)
  case (1 cpu needed ps m)
  have inv: "phys_inv (m_phys m)" using 1(2) by (simp add: pages_ok_def)
  show ?case
  proof (cases "length ps < needed")
    case True
    from alloc_frame_local [OF inv, of cpu] show ?thesis
    proof
      assume "\<exists>p s'. alloc_frame cpu (m_phys m) = Some (Some p, s') \<and> phys_inv s' \<and> PAGE_SIZE dvd p \<and>
        p div PAGE_SIZE \<in> local_frames cpu (m_phys m) \<and> frame_pool s' = frame_pool (m_phys m) - {p div PAGE_SIZE} \<and>
        local_frames cpu s' = local_frames cpu (m_phys m) - {p div PAGE_SIZE}"
      then obtain p s' where a: "alloc_frame cpu (m_phys m) = Some (Some p, s')" "phys_inv s'" "PAGE_SIZE dvd p"
        "p div PAGE_SIZE \<in> local_frames cpu (m_phys m)" "frame_pool s' = frame_pool (m_phys m) - {p div PAGE_SIZE}"
        "local_frames cpu s' = local_frames cpu (m_phys m) - {p div PAGE_SIZE}" by blast
      define m1 where "m1 = m\<lparr>m_phys := s', m_bytes := (m_bytes m)(p := replicate TMPFS_PAGE_SIZE 0)\<rparr>"
      have m1: "m_phys m1 = s'" by (simp add: m1_def)
      have pool: "p div PAGE_SIZE \<in> frame_pool (m_phys m)" using a(4) local_frames_pool [OF inv, of cpu] by blast
      note n = pages_ok_new [OF 1(2) a(2,3) pool a(5), of "replicate TMPFS_PAGE_SIZE 0", folded m1_def, simplified]
      have "card (local_frames cpu (m_phys m)) = Suc (card (local_frames cpu (m_phys m1)))"
        unfolding m1 a(6) by (rule card_Suc_Diff1 [OF finite_local [OF inv] a(4), symmetric])
      moreover have "byte_at (ps @ [p]) (m_bytes m1) i = byte_at ps (m_bytes m) i" if "i < length ps * TMPFS_PAGE_SIZE" for i
        unfolding byte_at_append [OF that] by (rule byte_at_cong [OF _ that]) (use n(1) in \<open>auto simp: m1_def\<close>)
      ultimately have g: "grown cpu ps m (ps @ [p]) m1" using n(2) by (simp add: grown_def)
      then have "pages_ok (ps @ [p]) m1" by (simp add: grown_def keeps_def)
      from 1(1) [OF True a(1) refl refl this [unfolded m1_def], folded m1_def] obtain r ps' m'
        where e: "ensure_pages cpu needed (ps @ [p]) m1 = Some (r, ps', m')" "grown cpu (ps @ [p]) m1 ps' m'"
          "r = Inr () \<and> needed \<le> length ps' \<or>
           r = Inl ENOMEM \<and> length (ps @ [p]) + card (local_frames cpu (m_phys m1)) < needed" by blast
      have "ensure_pages cpu needed ps m = Some (r, ps', m')"
        using e(1) True a(1) by (simp add: ensure_pages.simps [of cpu needed ps] m1_def)
      moreover have "length (ps @ [p]) + card (local_frames cpu (m_phys m1)) = length ps + card (local_frames cpu (m_phys m))"
        using g by (simp add: grown_def)
      ultimately show ?thesis using e(3) grown_trans [OF g e(2)] by (metis (no_types))
    next
      assume "\<exists>s'. alloc_frame cpu (m_phys m) = Some (None, s') \<and> phys_inv s' \<and> frame_pool s' = frame_pool (m_phys m) \<and>
        local_frames cpu (m_phys m) = {} \<and> local_frames cpu s' = {}"
      then obtain s' where a: "alloc_frame cpu (m_phys m) = Some (None, s')" "phys_inv s'"
        "frame_pool s' = frame_pool (m_phys m)" "local_frames cpu (m_phys m) = {}" "local_frames cpu s' = {}" by blast
      then have "grown cpu ps m ps (m\<lparr>m_phys := s'\<rparr>)"
        using 1(2) by (simp add: grown_def keeps_def pages_ok_def)
      then show ?thesis using True a by (simp add: ensure_pages.simps [of cpu needed ps])
    qed
  next
    case False
    then show ?thesis using grown_refl [OF 1(2)] by (simp add: ensure_pages.simps)
  qed
qed

lemma required_covers:
  assumes "len \<le> 2 ^ 64 - TMPFS_PAGE_SIZE"
  shows "required_pages len \<le> n \<longleftrightarrow> len \<le> n * TMPFS_PAGE_SIZE"
proof -
  have "len + TMPFS_PAGE_SIZE - 1 < 2 ^ 64" using assms by (simp add: TMPFS_PAGE_SIZE_def)
  then have "required_pages len = (if len = 0 then 0 else (len + TMPFS_PAGE_SIZE - 1) div TMPFS_PAGE_SIZE)"
    by (simp add: required_pages_def)
  then show ?thesis by (auto simp: TMPFS_PAGE_SIZE_def)
qed

lemma ensure_len_ok:
  assumes "pages_ok (tf_pages f) m" "len \<le> 2 ^ 64 - TMPFS_PAGE_SIZE"
  shows "\<exists>r ps' m'. ensure_len cpu len f m = Some (r, f\<lparr>tf_pages := ps'\<rparr>, m') \<and> grown cpu (tf_pages f) m ps' m' \<and>
     (r = Inr () \<and> len \<le> length ps' * TMPFS_PAGE_SIZE \<or>
      r = Inl ENOMEM \<and> length (tf_pages f) + card (local_frames cpu (m_phys m)) < required_pages len)"
  using ensure_pages_ok [OF assms(1), of cpu "required_pages len"] required_covers [OF assms(2)]
  by (auto simp: ensure_len_def)

lemma pop_pages_ok:
  "pages_ok ps m \<Longrightarrow> \<exists>s. pop_pages cpu needed ps (m_phys m) = Some (take needed ps, s) \<and>
     keeps ps m (take needed ps) (m\<lparr>m_phys := s\<rparr>)"
proof (induction "length ps - needed" arbitrary: ps m)
  case 0
  then show ?case by (simp add: pop_pages.simps [of cpu needed ps] keeps_refl)
next
  case (Suc n)
  obtain qs p where ps: "ps = qs @ [p]" using Suc(2) by (cases ps rule: rev_cases) auto
  have p: "PAGE_SIZE dvd p" "p div PAGE_SIZE \<in> {1..<MAX_FRAMES}" "p div PAGE_SIZE \<notin> frame_pool (m_phys m)" "phys_inv (m_phys m)"
    using Suc(3) unfolding ps by (auto simp: pages_ok_def frames_of_def)
  obtain s1 where s1: "free_frame cpu p (m_phys m) = Some s1" "phys_inv s1"
    "frame_pool s1 = insert (p div PAGE_SIZE) (frame_pool (m_phys m))"
    using phys.dealloc_ok [OF p(4,1,2,3), of cpu] by blast
  have "q div PAGE_SIZE \<noteq> p div PAGE_SIZE" if "q \<in> set qs" for q
    using that Suc(3) page_div_inj [of q p] unfolding ps by (auto simp: pages_ok_def pages_full_def)
  then have "p div PAGE_SIZE \<notin> frames_of qs" by (force simp: frames_of_def)
  then have k: "keeps ps m qs (m\<lparr>m_phys := s1\<rparr>)"
    using Suc(3) s1 unfolding ps by (auto simp: keeps_def pages_ok_def pages_full_def frames_of_def)
  then have "pages_ok qs (m\<lparr>m_phys := s1\<rparr>)" by (simp add: keeps_def)
  moreover have "n = length qs - needed" using Suc(2) ps by simp
  ultimately obtain s where s: "pop_pages cpu needed qs s1 = Some (take needed qs, s)"
    "keeps qs (m\<lparr>m_phys := s1\<rparr>) (take needed qs) (m\<lparr>m_phys := s\<rparr>)"
    using Suc(1) [of qs "m\<lparr>m_phys := s1\<rparr>"] by auto
  have "take needed ps = take needed qs" using Suc(2) ps by simp
  then show ?case
    using s s1(1) keeps_trans [OF k s(2)] Suc(2) ps by (auto simp: pop_pages.simps [of cpu needed "qs @ [p]"])
qed

section \<open>The file as a list of bytes\<close>

definition content :: "tmp_file \<Rightarrow> memory \<Rightarrow> u8 list" where
  "content f m = map (byte_at (tf_pages f) (m_bytes m)) [0..<tf_len f]"

definition file_ok :: "tmp_file \<Rightarrow> memory \<Rightarrow> bool" where
  "file_ok f m \<longleftrightarrow> pages_ok (tf_pages f) m \<and> tf_len f \<le> length (tf_pages f) * TMPFS_PAGE_SIZE"

definition overlay :: "nat \<Rightarrow> u8 list \<Rightarrow> u8 list \<Rightarrow> u8 list" where
  "overlay off d xs = (if d = [] then xs else take off xs @ replicate (off - length xs) 0 @ d @ drop (off + length d) xs)"

definition resized :: "nat \<Rightarrow> u8 list \<Rightarrow> u8 list" where
  "resized n xs = take n xs @ replicate (n - length xs) 0"

lemma length_content [simp]: "length (content f m) = tf_len f"
  by (simp add: content_def)

lemma nth_content: "i < tf_len f \<Longrightarrow> content f m ! i = byte_at (tf_pages f) (m_bytes m) i"
  by (simp add: content_def)

lemma content_eqI:
  "tf_len f = length xs \<Longrightarrow> (\<And>i. i < length xs \<Longrightarrow> byte_at (tf_pages f) (m_bytes m) i = xs ! i) \<Longrightarrow> content f m = xs"
  by (rule nth_equalityI) (simp_all add: nth_content)

lemma length_overlay: "d \<noteq> [] \<Longrightarrow> length (overlay off d xs) = max (length xs) (off + length d)"
  by (auto simp: overlay_def)

lemma nth_overlay:
  "d \<noteq> [] \<Longrightarrow> i < length (overlay off d xs) \<Longrightarrow> overlay off d xs ! i =
     (if i < off then if i < length xs then xs ! i else 0 else if i < off + length d then d ! (i - off) else xs ! i)"
  by (auto simp: overlay_def nth_append min_def)

lemma nth_resized: "i < n \<Longrightarrow> resized n xs ! i = (if i < length xs then xs ! i else 0)"
  by (auto simp: resized_def nth_append min_def)

lemma length_resized [simp]: "length (resized n xs) = n"
  by (simp add: resized_def)

lemma zero_range_ok:
  assumes "file_ok f m" "tf_len f < e" "e \<le> 2 ^ 64 - TMPFS_PAGE_SIZE"
  shows "\<exists>r ps' m'. zero_range cpu (tf_len f) e f m = Some (r, f\<lparr>tf_pages := ps'\<rparr>, m') \<and> keeps (tf_pages f) m ps' m' \<and>
     length (tf_pages f) \<le> length ps' \<and>
     length ps' + card (local_frames cpu (m_phys m')) = length (tf_pages f) + card (local_frames cpu (m_phys m)) \<and>
     (\<forall>i < tf_len f. byte_at ps' (m_bytes m') i = byte_at (tf_pages f) (m_bytes m) i) \<and>
     (r = Inr () \<and> e \<le> length ps' * TMPFS_PAGE_SIZE \<and> (\<forall>i. tf_len f \<le> i \<and> i < e \<longrightarrow> byte_at ps' (m_bytes m') i = 0) \<or>
      r = Inl ENOMEM \<and> length (tf_pages f) + card (local_frames cpu (m_phys m)) < required_pages e)"
proof -
  let ?ps = "tf_pages f"
  have ok: "pages_ok ?ps m" "tf_len f \<le> length ?ps * TMPFS_PAGE_SIZE" using assms(1) by (simp_all add: file_ok_def)
  obtain r ps' m' where e: "ensure_len cpu e f m = Some (r, f\<lparr>tf_pages := ps'\<rparr>, m')" "grown cpu ?ps m ps' m'"
    "r = Inr () \<and> e \<le> length ps' * TMPFS_PAGE_SIZE \<or>
     r = Inl ENOMEM \<and> length ?ps + card (local_frames cpu (m_phys m)) < required_pages e"
    using ensure_len_ok [OF ok(1) assms(3), of cpu] by blast
  have k: "keeps ?ps m ps' m'" "length ?ps \<le> length ps'"
    "length ps' + card (local_frames cpu (m_phys m')) = length ?ps + card (local_frames cpu (m_phys m))"
    using e(2) by (simp_all add: grown_def)
  have old: "byte_at ps' (m_bytes m') i = byte_at ?ps (m_bytes m) i" if "i < tf_len f" for i
    using e(2) less_le_trans [OF that ok(2)] by (simp add: grown_def)
  from e(3) show ?thesis
  proof
    assume r: "r = Inr () \<and> e \<le> length ps' * TMPFS_PAGE_SIZE"
    have p: "pages_ok ps' m'" "pages_full ps' (m_bytes m')" using k(1) by (simp_all add: keeps_def pages_ok_def)
    obtain b where b: "zero_loop ps' (tf_len f) e (m_bytes m') = Some b" "patched ps' (tf_len f) e (\<lambda>_. 0) (m_bytes m') b"
      using zero_loop_ok [OF p(2)] assms(2) r by (meson less_imp_le)
    have "keeps ?ps m ps' (m'\<lparr>m_bytes := b\<rparr>)" using keeps_trans [OF k(1) keeps_patched [OF p(1) b(2)]] .
    moreover have "byte_at ps' b i = (if tf_len f \<le> i then 0 else byte_at ps' (m_bytes m') i)" if "i < e" for i
      using b(2) less_le_trans [OF that conjunct2 [OF r]] that by (simp add: patched_def)
    ultimately show ?thesis using e(1) b(1) r k(2,3) old assms(2)
      by (intro exI [of _ "Inr ()"] exI [of _ ps'] exI [of _ "m'\<lparr>m_bytes := b\<rparr>"]) (simp add: zero_range_def)
  next
    assume "r = Inl ENOMEM \<and> length ?ps + card (local_frames cpu (m_phys m)) < required_pages e"
    then show ?thesis using e(1) k old assms(2)
      by (intro exI [of _ "Inl ENOMEM"] exI [of _ ps'] exI [of _ m']) (simp add: zero_range_def)
  qed
qed

lemma required_mono: "a \<le> b \<Longrightarrow> b \<le> 2 ^ 64 - TMPFS_PAGE_SIZE \<Longrightarrow> required_pages a \<le> required_pages b"
  using required_covers [of a "required_pages b"] required_covers [of b "required_pages b"] by simp

lemma tmp_file_read_ok:
  assumes "file_ok f m"
  shows "tmp_file_read off n f (m_bytes m) = Some (take n (drop off (content f m)))"
proof (cases "tf_len f \<le> off")
  case False
  let ?n = "min n (tf_len f - off)"
  have "pages_full (tf_pages f) (m_bytes m)" "off + ?n \<le> length (tf_pages f) * TMPFS_PAGE_SIZE"
    using assms False by (auto simp: file_ok_def pages_ok_def)
  then have "read_loop (tf_pages f) (m_bytes m) off ?n [] =
      Some (map (byte_at (tf_pages f) (m_bytes m)) [off..<off + ?n])"
    using read_loop_ok [of "tf_pages f" "m_bytes m" "[]" ?n off] by simp
  moreover have "map (byte_at (tf_pages f) (m_bytes m)) [off..<off + ?n] = take n (drop off (content f m))"
    by (rule nth_equalityI) (use False in \<open>auto simp: nth_content\<close>)
  ultimately show ?thesis using False by (simp add: tmp_file_read_def)
qed (simp add: tmp_file_read_def)

lemma write_prefix_ok:
  assumes "file_ok f m" "off \<le> 2 ^ 64 - TMPFS_PAGE_SIZE"
  shows "\<exists>r ps' m'. (if tf_len f < off then zero_range cpu (tf_len f) off f m else Some (Inr (), f, m)) =
       Some (r, f\<lparr>tf_pages := ps'\<rparr>, m') \<and> keeps (tf_pages f) m ps' m' \<and> length (tf_pages f) \<le> length ps' \<and>
     length ps' + card (local_frames cpu (m_phys m')) = length (tf_pages f) + card (local_frames cpu (m_phys m)) \<and>
     (\<forall>i < tf_len f. byte_at ps' (m_bytes m') i = byte_at (tf_pages f) (m_bytes m) i) \<and>
     (r = Inr () \<and> off \<le> length ps' * TMPFS_PAGE_SIZE \<and>
        (\<forall>i. tf_len f \<le> i \<and> i < off \<longrightarrow> byte_at ps' (m_bytes m') i = 0) \<or>
      r = Inl ENOMEM \<and> length (tf_pages f) + card (local_frames cpu (m_phys m)) < required_pages off)"
proof (cases "tf_len f < off")
  case True
  show ?thesis unfolding if_P [OF True] by (rule zero_range_ok [OF assms(1) True assms(2)])
next
  case False
  then have "off \<le> length (tf_pages f) * TMPFS_PAGE_SIZE" using assms(1) by (simp add: file_ok_def)
  then show ?thesis using False assms(1)
    by (intro exI [of _ "Inr ()"] exI [of _ "tf_pages f"] exI [of _ m]) (auto simp: file_ok_def keeps_refl)
qed

lemma write_tail_ok:
  assumes "pages_ok ps m'" "off + length d \<le> length ps * TMPFS_PAGE_SIZE" "d \<noteq> []" "tf_len f \<le> length ps * TMPFS_PAGE_SIZE"
    and old: "\<forall>i < tf_len f. byte_at ps (m_bytes m') i = content f m ! i"
    and gap: "\<forall>i. tf_len f \<le> i \<and> i < off \<longrightarrow> byte_at ps (m_bytes m') i = 0"
  shows "\<exists>b. write_loop ps off d 0 (m_bytes m') = Some (length d, b) \<and> keeps ps m' ps (m'\<lparr>m_bytes := b\<rparr>) \<and>
    content (f\<lparr>tf_pages := ps, tf_len := max (tf_len f) (off + length d)\<rparr>) (m'\<lparr>m_bytes := b\<rparr>) = overlay off d (content f m)"
proof -
  let ?e = "off + length d"
  have "pages_full ps (m_bytes m')" using assms(1) by (simp add: pages_ok_def)
  then obtain b where b: "write_loop ps off d 0 (m_bytes m') = Some (length d, b)"
    "patched ps off ?e (\<lambda>i. d ! (i - off)) (m_bytes m') b"
    using write_loop_ok [of ps "m_bytes m'" 0 d off] assms(2) by auto
  have "content (f\<lparr>tf_pages := ps, tf_len := max (tf_len f) ?e\<rparr>) (m'\<lparr>m_bytes := b\<rparr>) = overlay off d (content f m)"
  proof (rule content_eqI)
    fix i assume i: "i < length (overlay off d (content f m))"
    then have "i < length ps * TMPFS_PAGE_SIZE" "i < max (tf_len f) ?e" using assms by (auto simp: length_overlay)
    moreover from this have "byte_at ps b i = (if off \<le> i \<and> i < ?e then d ! (i - off) else byte_at ps (m_bytes m') i)"
      using b(2) by (simp add: patched_def)
    ultimately have "byte_at ps b i = overlay off d (content f m) ! i"
      unfolding nth_overlay [OF assms(3) i] using old [rule_format, of i] gap [rule_format, of i] by auto
    then show "byte_at (tf_pages (f\<lparr>tf_pages := ps, tf_len := max (tf_len f) ?e\<rparr>)) (m_bytes (m'\<lparr>m_bytes := b\<rparr>)) i =
        overlay off d (content f m) ! i" by simp
  qed (simp add: assms(3) length_overlay)
  then show ?thesis using b(1) keeps_patched [OF assms(1) b(2)] by blast
qed

lemma tmp_file_write_ok:
  assumes "file_ok f m" "off + length d \<le> 2 ^ 64 - TMPFS_PAGE_SIZE"
  shows "\<exists>r f' m'. tmp_file_write cpu off d f m = Some (r, f', m') \<and> file_ok f' m' \<and> keeps (tf_pages f) m (tf_pages f') m' \<and>
     (r = Inr (length d) \<and> content f' m' = overlay off d (content f m) \<or>
      r = Inl ENOMEM \<and> content f' m' = content f m \<and>
        length (tf_pages f) + card (local_frames cpu (m_phys m)) < required_pages (off + length d))"
proof (cases "d = []")
  case True
  then show ?thesis using assms(1) by (auto simp: tmp_file_write_def overlay_def file_ok_def keeps_refl)
next
  case d: False
  let ?ps = "tf_pages f" and ?e = "off + length d" and ?start = "if tf_len f < off then zero_range cpu (tf_len f) off f m else Some (Inr (), f, m)"
  have off: "off \<le> 2 ^ 64 - TMPFS_PAGE_SIZE" using assms(2) by simp
  have len: "tf_len f \<le> length ?ps * TMPFS_PAGE_SIZE" using assms(1) by (simp add: file_ok_def)
  obtain r1 ps1 m1 where z: "?start = Some (r1, f\<lparr>tf_pages := ps1\<rparr>, m1)" "keeps ?ps m ps1 m1" "length ?ps \<le> length ps1"
    "length ps1 + card (local_frames cpu (m_phys m1)) = length ?ps + card (local_frames cpu (m_phys m))"
    "\<forall>i < tf_len f. byte_at ps1 (m_bytes m1) i = byte_at ?ps (m_bytes m) i"
    "r1 = Inr () \<and> off \<le> length ps1 * TMPFS_PAGE_SIZE \<and>
        (\<forall>i. tf_len f \<le> i \<and> i < off \<longrightarrow> byte_at ps1 (m_bytes m1) i = 0) \<or>
      r1 = Inl ENOMEM \<and> length ?ps + card (local_frames cpu (m_phys m)) < required_pages off"
    using write_prefix_ok [OF assms(1) off, of cpu] by blast
  have len1: "tf_len f \<le> length ps1 * TMPFS_PAGE_SIZE" using len z(3) by (meson le_trans mult_le_mono1)
  have ok1: "pages_ok ps1 m1" using z(2) by (simp add: keeps_def)
  from z(6) show ?thesis
  proof
    assume r1: "r1 = Inl ENOMEM \<and> length ?ps + card (local_frames cpu (m_phys m)) < required_pages off"
    have "content (f\<lparr>tf_pages := ps1\<rparr>) m1 = content f m" using z(5) by (intro content_eqI) (simp_all add: nth_content)
    moreover have "required_pages off \<le> required_pages ?e" using assms(2) by (intro required_mono) simp_all
    ultimately show ?thesis using r1 z(1,2) d ok1 len1 by (simp add: tmp_file_write_def file_ok_def)
  next
    assume r1: "r1 = Inr () \<and> off \<le> length ps1 * TMPFS_PAGE_SIZE \<and>
        (\<forall>i. tf_len f \<le> i \<and> i < off \<longrightarrow> byte_at ps1 (m_bytes m1) i = 0)"
    obtain r2 ps2 m2 where e: "ensure_len cpu ?e (f\<lparr>tf_pages := ps1\<rparr>) m1 = Some (r2, f\<lparr>tf_pages := ps2\<rparr>, m2)"
      "grown cpu ps1 m1 ps2 m2"
      "r2 = Inr () \<and> ?e \<le> length ps2 * TMPFS_PAGE_SIZE \<or>
       r2 = Inl ENOMEM \<and> length ps1 + card (local_frames cpu (m_phys m1)) < required_pages ?e"
      using ensure_len_ok [of "f\<lparr>tf_pages := ps1\<rparr>" m1 ?e cpu] ok1 assms(2) by auto
    have k1: "keeps ps1 m1 ps2 m2" using e(2) by (simp add: grown_def)
    note k2 = keeps_trans [OF z(2) k1] conjunct1 [OF k1 [unfolded keeps_def]]
    have "length ps1 * TMPFS_PAGE_SIZE \<le> length ps2 * TMPFS_PAGE_SIZE" using e(2) by (simp add: grown_def)
    then have len2: "tf_len f \<le> length ps2 * TMPFS_PAGE_SIZE" using len1 by (rule le_trans [rotated])
    have old: "byte_at ps2 (m_bytes m2) i = byte_at ps1 (m_bytes m1) i" if "i < length ps1 * TMPFS_PAGE_SIZE" for i
      using e(2) that by (simp add: grown_def)
    have old2: "byte_at ps2 (m_bytes m2) i = content f m ! i" if "i < tf_len f" for i
      using old [OF less_le_trans [OF that len1]] z(5) that by (simp add: nth_content)
    from e(3) show ?thesis
    proof
      assume "r2 = Inl ENOMEM \<and> length ps1 + card (local_frames cpu (m_phys m1)) < required_pages ?e"
      moreover have "content (f\<lparr>tf_pages := ps2\<rparr>) m2 = content f m" using old2 by (intro content_eqI) simp_all
      ultimately show ?thesis using z(1,4) r1 e(1) k2 d len2 by (simp add: tmp_file_write_def file_ok_def)
    next
      assume r2: "r2 = Inr () \<and> ?e \<le> length ps2 * TMPFS_PAGE_SIZE"
      have "byte_at ps2 (m_bytes m2) i = 0" if "tf_len f \<le> i" "i < off" for i
      proof -
        have "i < length ps1 * TMPFS_PAGE_SIZE" using that r1 by linarith
        then show ?thesis using old [of i] r1 that by simp
      qed
      then have gap: "\<forall>i. tf_len f \<le> i \<and> i < off \<longrightarrow> byte_at ps2 (m_bytes m2) i = 0" by simp
      have old3: "\<forall>i < tf_len f. byte_at ps2 (m_bytes m2) i = content f m ! i" using old2 by simp
      obtain b where b: "write_loop ps2 off d 0 (m_bytes m2) = Some (length d, b)"
        "keeps ps2 m2 ps2 (m2\<lparr>m_bytes := b\<rparr>)"
        "content (f\<lparr>tf_pages := ps2, tf_len := max (tf_len f) ?e\<rparr>) (m2\<lparr>m_bytes := b\<rparr>) = overlay off d (content f m)"
        using write_tail_ok [OF k2(2) conjunct2 [OF r2] d len2 old3 gap] by (elim exE conjE)
      define f' where "f' = f\<lparr>tf_pages := ps2, tf_len := max (tf_len f) ?e\<rparr>"
      have k3: "keeps ?ps m ps2 (m2\<lparr>m_bytes := b\<rparr>)" using keeps_trans [OF k2(1) b(2)] .
      have "tmp_file_write cpu off d f m = Some (Inr (length d), f', m2\<lparr>m_bytes := b\<rparr>)"
        using z(1) r1 e(1) r2 b(1) d by (simp add: tmp_file_write_def f'_def max_def)
      moreover have "file_ok f' (m2\<lparr>m_bytes := b\<rparr>)" using k3 len2 r2 by (simp add: file_ok_def keeps_def f'_def)
      ultimately show ?thesis using k3 b(3) by (auto simp: f'_def)
    qed
  qed
qed

lemma last_page:
  assumes "len \<le> 2 ^ 64 - TMPFS_PAGE_SIZE" "len mod TMPFS_PAGE_SIZE \<noteq> 0"
  shows "0 < required_pages len" "len div TMPFS_PAGE_SIZE = required_pages len - 1"
proof -
  let ?n = "required_pages len"
  note c = required_covers [OF assms(1)]
  have "len \<noteq> 0" using assms(2) by (intro notI) simp
  then show n: "0 < ?n" using c [of 0] by simp
  have "\<not> len \<le> (?n - 1) * TMPFS_PAGE_SIZE" using c [of "?n - 1"] n by linarith
  moreover have "len \<le> ?n * TMPFS_PAGE_SIZE" using c [of ?n] by simp
  moreover have "len \<noteq> ?n * TMPFS_PAGE_SIZE" using assms(2) by (metis mod_mult_self2_is_0)
  moreover have "?n * TMPFS_PAGE_SIZE = Suc (?n - 1) * TMPFS_PAGE_SIZE" using n by simp
  ultimately show "len div TMPFS_PAGE_SIZE = ?n - 1" by (intro div_nat_eqI) (simp_all add: mult.commute)
qed

lemma truncate_down_ok:
  assumes "file_ok f m" "len \<le> tf_len f" "len \<le> 2 ^ 64 - TMPFS_PAGE_SIZE"
  shows "\<exists>f' m'. tmp_file_truncate cpu len f m = Some (Inr (), f', m') \<and> file_ok f' m' \<and>
    keeps (tf_pages f) m (tf_pages f') m' \<and> content f' m' = take len (content f m)"
proof -
  let ?n = "required_pages len" and ?t = "len mod TMPFS_PAGE_SIZE"
  let ?ps = "take ?n (tf_pages f)"
  have ok: "pages_ok (tf_pages f) m" using assms(1) by (simp add: file_ok_def)
  have n: "?n \<le> length (tf_pages f)" "len \<le> ?n * TMPFS_PAGE_SIZE"
    using required_covers [OF assms(3)] assms(1,2) by (auto simp: file_ok_def)
  then have lp: "length ?ps = ?n" by simp
  obtain s where s: "pop_pages cpu ?n (tf_pages f) (m_phys m) = Some (?ps, s)" "keeps (tf_pages f) m ?ps (m\<lparr>m_phys := s\<rparr>)"
    using pop_pages_ok [OF ok, of cpu ?n] by (elim exE conjE)
  define b where "b = (if ?t \<noteq> 0 then poke (?ps ! (?n - 1)) ?t (replicate (TMPFS_PAGE_SIZE - ?t) 0) (m_bytes m) else m_bytes m)"
  have full: "pages_full ?ps (m_bytes m)" "pages_ok ?ps (m\<lparr>m_phys := s\<rparr>)" using s(2) by (auto simp: keeps_def pages_ok_def)
  have p: "patched ?ps len (len + (TMPFS_PAGE_SIZE - ?t)) (\<lambda>_. 0) (m_bytes m) b \<or> b = m_bytes m"
  proof (cases "?t \<noteq> 0")
    case True
    note l = last_page [OF assms(3) True]
    let ?z = "replicate (TMPFS_PAGE_SIZE - ?t) (0 :: u8)"
    have "len div TMPFS_PAGE_SIZE < length ?ps" "?t + length ?z \<le> TMPFS_PAGE_SIZE"
      using l lp less_imp_le [OF page_off_less [of len]] by simp_all
    from patched_poke [OF full(1) this, of "\<lambda>_. 0"]
    have "patched ?ps len (len + length ?z) (\<lambda>_. 0) (m_bytes m) (poke (?ps ! (len div TMPFS_PAGE_SIZE)) ?t ?z (m_bytes m))"
      by simp
    moreover have "b = poke (?ps ! (len div TMPFS_PAGE_SIZE)) ?t ?z (m_bytes m)" using True l(2) by (simp add: b_def)
    ultimately show ?thesis by (simp only: length_replicate simp_thms)
  qed (simp add: b_def)
  then have "keeps ?ps (m\<lparr>m_phys := s\<rparr>) ?ps (m\<lparr>m_phys := s, m_bytes := b\<rparr>)"
    using keeps_patched [OF full(2)] keeps_refl [OF full(2)] by auto
  note k = keeps_trans [OF s(2) this]
  have "byte_at ?ps b i = byte_at (tf_pages f) (m_bytes m) i" if "i < len" for i
  proof -
    have i: "i < ?n * TMPFS_PAGE_SIZE" using that n(2) by simp
    then have "byte_at ?ps b i = byte_at ?ps (m_bytes m) i" using p that lp by (auto simp: patched_def)
    then show ?thesis using page_idx_less [OF i] by (simp add: byte_at_def)
  qed
  then have "content (f\<lparr>tf_len := len, tf_pages := ?ps\<rparr>) (m\<lparr>m_phys := s, m_bytes := b\<rparr>) = take len (content f m)"
    using assms(2) by (intro content_eqI) (simp_all add: nth_content)
  moreover have "tmp_file_truncate cpu len f m = Some (Inr (), f\<lparr>tf_len := len, tf_pages := ?ps\<rparr>, m\<lparr>m_phys := s, m_bytes := b\<rparr>)"
    using s(1) assms(2) last_page [OF assms(3)] lp by (auto simp: tmp_file_truncate_def Let_def b_def)
  moreover have "file_ok (f\<lparr>tf_len := len, tf_pages := ?ps\<rparr>) (m\<lparr>m_phys := s, m_bytes := b\<rparr>)"
    using k n by (simp add: file_ok_def keeps_def)
  ultimately show ?thesis using k by auto
qed

lemma truncate_up_ok:
  assumes "file_ok f m" "tf_len f < len" "len \<le> 2 ^ 64 - TMPFS_PAGE_SIZE"
  shows "\<exists>r f' m'. tmp_file_truncate cpu len f m = Some (r, f', m') \<and> file_ok f' m' \<and>
    keeps (tf_pages f) m (tf_pages f') m' \<and>
    (r = Inr () \<and> content f' m' = resized len (content f m) \<or>
     r = Inl ENOMEM \<and> content f' m' = content f m \<and>
       length (tf_pages f) + card (local_frames cpu (m_phys m)) < required_pages len)"
proof -
  obtain r ps m' where z: "zero_range cpu (tf_len f) len f m = Some (r, f\<lparr>tf_pages := ps\<rparr>, m')"
    "keeps (tf_pages f) m ps m'" "length (tf_pages f) \<le> length ps"
    "\<forall>i < tf_len f. byte_at ps (m_bytes m') i = byte_at (tf_pages f) (m_bytes m) i"
    "r = Inr () \<and> len \<le> length ps * TMPFS_PAGE_SIZE \<and> (\<forall>i. tf_len f \<le> i \<and> i < len \<longrightarrow> byte_at ps (m_bytes m') i = 0) \<or>
      r = Inl ENOMEM \<and> length (tf_pages f) + card (local_frames cpu (m_phys m)) < required_pages len"
    using zero_range_ok [OF assms, of cpu] by (elim exE conjE) (rule that)
  have ok: "pages_ok ps m'" using z(2) by (simp add: keeps_def)
  from z(5) show ?thesis
  proof
    assume r: "r = Inr () \<and> len \<le> length ps * TMPFS_PAGE_SIZE \<and> (\<forall>i. tf_len f \<le> i \<and> i < len \<longrightarrow> byte_at ps (m_bytes m') i = 0)"
    then have "content (f\<lparr>tf_pages := ps, tf_len := len\<rparr>) m' = resized len (content f m)"
      using z(4) assms(2) by (intro content_eqI) (auto simp: nth_resized nth_content)
    then show ?thesis using z(1,2) r assms(2) ok by (auto simp: tmp_file_truncate_def file_ok_def)
  next
    assume r: "r = Inl ENOMEM \<and> length (tf_pages f) + card (local_frames cpu (m_phys m)) < required_pages len"
    have "tf_len f \<le> length ps * TMPFS_PAGE_SIZE"
      using assms(1) mult_le_mono1 [OF z(3), of TMPFS_PAGE_SIZE] by (auto simp: file_ok_def intro: le_trans)
    then have "file_ok (f\<lparr>tf_pages := ps\<rparr>) m'" using ok by (simp add: file_ok_def)
    moreover have "content (f\<lparr>tf_pages := ps\<rparr>) m' = content f m" using z(4) by (intro content_eqI) (simp_all add: nth_content)
    ultimately show ?thesis using z(1,2) r assms(2) by (auto simp: tmp_file_truncate_def)
  qed
qed

lemma tmp_file_drop_ok:
  assumes "file_ok f m"
  shows "\<exists>m'. tmp_file_drop cpu f m = Some m' \<and> keeps (tf_pages f) m [] m'"
  using pop_pages_ok [of "tf_pages f" m cpu 0] assms by (auto simp: tmp_file_drop_def file_ok_def)

lemma zero_loop_out:
  "pos < e \<Longrightarrow> length ps * TMPFS_PAGE_SIZE < e \<Longrightarrow> zero_loop ps pos e b = None"
proof (induction ps pos e b rule: zero_loop.induct)
  case (1 ps pos e b)
  let ?k = "pos div TMPFS_PAGE_SIZE"
  show ?case
  proof (cases "?k < length ps")
    case True
    have "(?k + 1) * TMPFS_PAGE_SIZE \<le> length ps * TMPFS_PAGE_SIZE" using True by (intro mult_le_mono1) simp
    then have "min e ((?k + 1) * TMPFS_PAGE_SIZE) < e" using 1(3) by simp
    from 1(1) [OF 1(2) refl refl refl True this 1(3)] show ?thesis
      by (subst zero_loop.simps) (simp only: Let_def 1(2) True if_True)
  qed (use 1(2) in \<open>simp add: zero_loop.simps\<close>)
qed

lemma pages_bound: "pages_ok ps m \<Longrightarrow> length ps \<le> MAX_FRAMES"
proof -
  assume a: "pages_ok ps m"
  have "inj_on (\<lambda>p. p div PAGE_SIZE) (set ps)" using a page_div_inj by (auto simp: pages_ok_def inj_on_def)
  then have "length ps = card (frames_of ps)" using a by (simp add: frames_of_def card_image pages_ok_def pages_full_def distinct_card)
  also have "\<dots> \<le> card {1..<MAX_FRAMES}" using a by (intro card_mono) (auto simp: frames_of_def pages_ok_def)
  finally show ?thesis by simp
qed

text \<open>
  Lengths within one page of the top of the address range: the page count wraps to zero, no
  page is added, and the loops index past the page vector.
\<close>

lemma required_huge:
  assumes "2 ^ 64 - TMPFS_PAGE_SIZE < len" "len < 2 ^ 64"
  shows "required_pages len = 0"
proof -
  have "(len + TMPFS_PAGE_SIZE - 1) mod 2 ^ 64 = len + TMPFS_PAGE_SIZE - 1 - 2 ^ 64"
    using assms by (subst mod_if) (auto simp: TMPFS_PAGE_SIZE_def)
  then show ?thesis using assms by (simp add: required_pages_def TMPFS_PAGE_SIZE_def)
qed

lemma ensure_len_huge:
  "2 ^ 64 - TMPFS_PAGE_SIZE < len \<Longrightarrow> len < 2 ^ 64 \<Longrightarrow> ensure_len cpu len f m = Some (Inr (), f, m)"
  by (simp add: ensure_len_def required_huge ensure_pages.simps)

lemma huge_out:
  assumes "pages_ok ps m" "2 ^ 64 - TMPFS_PAGE_SIZE < len"
  shows "length ps * TMPFS_PAGE_SIZE < len"
proof -
  have "length ps * TMPFS_PAGE_SIZE \<le> MAX_FRAMES * TMPFS_PAGE_SIZE" using pages_bound [OF assms(1)] by simp
  also have "\<dots> < len" using assms(2) by (simp add: MAX_FRAMES_def TMPFS_PAGE_SIZE_def)
  finally show ?thesis .
qed

lemma zero_range_huge:
  assumes "file_ok f m" "2 ^ 64 - TMPFS_PAGE_SIZE < len" "len < 2 ^ 64"
  shows "tf_len f < len" "zero_range cpu (tf_len f) len f m = None"
proof -
  have l: "length (tf_pages f) * TMPFS_PAGE_SIZE < len" using assms(1,2) huge_out by (auto simp: file_ok_def)
  then show t: "tf_len f < len" using assms(1) by (simp add: file_ok_def)
  show "zero_range cpu (tf_len f) len f m = None"
    using zero_loop_out [OF t l] t by (simp add: zero_range_def ensure_len_huge [OF assms(2,3)])
qed

lemma truncate_huge:
  assumes "file_ok f m" "2 ^ 64 - TMPFS_PAGE_SIZE < len" "len < 2 ^ 64"
  shows "tmp_file_truncate cpu len f m = None"
  using zero_range_huge(1) [OF assms] zero_range_huge(2) [OF assms, of cpu] by (simp add: tmp_file_truncate_def)

lemma write_loop_out:
  "copied < length data \<Longrightarrow> length ps * TMPFS_PAGE_SIZE < offset + length data \<Longrightarrow>
   write_loop ps offset data copied b = None"
proof (induction ps offset data copied b rule: write_loop.induct)
  case (1 ps offset data copied b)
  let ?P = TMPFS_PAGE_SIZE and ?pos = "offset + copied"
  let ?k = "?pos div ?P" and ?c = "min (length data - copied) (?P - ?pos mod ?P)"
  show ?case
  proof (cases "?k < length ps")
    case True
    have "(?k + 1) * ?P \<le> length ps * ?P" using True by (intro mult_le_mono1) simp
    moreover have "?pos + (?P - ?pos mod ?P) = (?k + 1) * ?P" using page_next [of ?pos] by linarith
    ultimately have "?P - ?pos mod ?P < length data - copied" using 1(3) by linarith
    then have "copied + ?c < length data" by simp
    from 1(1) [OF 1(2) refl refl refl refl True this 1(3)] show ?thesis
      by (subst write_loop.simps) (simp only: Let_def 1(2) True if_True)
  qed (use 1(2) in \<open>simp add: write_loop.simps\<close>)
qed

lemma tmp_file_write_huge:
  assumes "file_ok f m" "d \<noteq> []" "2 ^ 64 - TMPFS_PAGE_SIZE < off + length d" "off + length d < 2 ^ 64"
    and w: "tmp_file_write cpu off d f m = Some (r, f', m')"
  shows "r = Inl ENOMEM" "file_ok f' m'" "keeps (tf_pages f) m (tf_pages f') m'"
proof -
  let ?start = "if tf_len f < off then zero_range cpu (tf_len f) off f m else Some (Inr (), f, m)"
  have le: "off \<le> 2 ^ 64 - TMPFS_PAGE_SIZE"
  proof (rule ccontr)
    assume "\<not> off \<le> 2 ^ 64 - TMPFS_PAGE_SIZE"
    then have "?start = None" using zero_range_huge(1) [OF assms(1), of off] zero_range_huge(2) [OF assms(1), of off cpu] assms(4) by simp
    then show False using w assms(2) by (simp add: tmp_file_write_def)
  qed
  obtain r1 ps1 m1 where z: "?start = Some (r1, f\<lparr>tf_pages := ps1\<rparr>, m1)" "keeps (tf_pages f) m ps1 m1"
    "length (tf_pages f) \<le> length ps1" "r1 = Inr () \<or> r1 = Inl ENOMEM"
    using write_prefix_ok [OF assms(1) le, of cpu] by metis
  have ok: "pages_ok ps1 m1" using z(2) by (simp add: keeps_def)
  have "r1 \<noteq> Inr ()"
  proof
    assume "r1 = Inr ()"
    moreover have "write_loop ps1 off d 0 (m_bytes m1) = None"
      using write_loop_out [of 0 d ps1 off] huge_out [OF ok assms(3)] assms(2) by simp
    ultimately show False
      using w z(1) assms(2) by (simp add: tmp_file_write_def ensure_len_huge [OF assms(3,4)])
  qed
  then have r: "r = Inl ENOMEM \<and> f' = f\<lparr>tf_pages := ps1\<rparr> \<and> m' = m1"
    using w z(1,4) assms(2) by (auto simp: tmp_file_write_def)
  moreover have "tf_len f \<le> length ps1 * TMPFS_PAGE_SIZE"
    using assms(1) z(3) by (meson file_ok_def le_trans mult_le_mono1)
  ultimately show "r = Inl ENOMEM" "file_ok f' m'" "keeps (tf_pages f) m (tf_pages f') m'"
    using z(2) ok by (simp_all add: file_ok_def)
qed

lemma tmp_file_write_returned:
  assumes "file_ok f m" "off + length d < 2 ^ 64" "tmp_file_write cpu off d f m = Some (r, f', m')"
  shows "file_ok f' m' \<and> keeps (tf_pages f) m (tf_pages f') m'"
proof (cases "off + length d \<le> 2 ^ 64 - TMPFS_PAGE_SIZE")
  case True
  then show ?thesis using tmp_file_write_ok [OF assms(1) True, of cpu] assms(3) by auto
next
  case False
  show ?thesis
  proof (cases "d = []")
    case True
    then show ?thesis using assms(1,3) by (auto simp: tmp_file_write_def file_ok_def keeps_refl)
  qed (use tmp_file_write_huge [OF assms(1) _ _ assms(2,3)] False in simp)
qed

section \<open>Properties\<close>

text \<open>
  C19. A tmpfs file behaves as the list of its bytes.  Reading returns the bytes of the list from
  the offset on; writing overlays the data, filling a gap after the old end with
  zeros; truncating cuts the list or pads it with zeros.  No frame is lost or invented, no
  memory outside the file and the free pool changes.  The only failure of a write or an extension is
  \<open>ENOMEM\<close>; the bytes are then as before, and the pages of the file together with the
  frames this CPU could still be given are fewer than needed.  This holds for writes and
  lengths that end at least one page below \<open>2 ^ 64\<close>; closer to it the page count wraps (C23).
\<close>

theorem tmp_file_refines_bytes:
  assumes "file_ok f m" "off + length d \<le> 2 ^ 64 - TMPFS_PAGE_SIZE" "len \<le> 2 ^ 64 - TMPFS_PAGE_SIZE"
  shows "tmp_file_read off n f (m_bytes m) = Some (take n (drop off (content f m))) \<and>
    (\<exists>r f' m'. tmp_file_write cpu off d f m = Some (r, f', m') \<and> file_ok f' m' \<and> keeps (tf_pages f) m (tf_pages f') m' \<and>
      (r = Inr (length d) \<and> content f' m' = overlay off d (content f m) \<or>
       r = Inl ENOMEM \<and> content f' m' = content f m \<and>
         length (tf_pages f) + card (local_frames cpu (m_phys m)) < required_pages (off + length d))) \<and>
    (\<exists>r f' m'. tmp_file_truncate cpu len f m = Some (r, f', m') \<and> file_ok f' m' \<and> keeps (tf_pages f) m (tf_pages f') m' \<and>
      (r = Inr () \<and> content f' m' = resized len (content f m) \<or>
       r = Inl ENOMEM \<and> content f' m' = content f m \<and> tf_len f < len \<and>
         length (tf_pages f) + card (local_frames cpu (m_phys m)) < required_pages len))"
proof (intro conjI)
  show "\<exists>r f' m'. tmp_file_truncate cpu len f m = Some (r, f', m') \<and> file_ok f' m' \<and> keeps (tf_pages f) m (tf_pages f') m' \<and>
      (r = Inr () \<and> content f' m' = resized len (content f m) \<or>
       r = Inl ENOMEM \<and> content f' m' = content f m \<and> tf_len f < len \<and>
         length (tf_pages f) + card (local_frames cpu (m_phys m)) < required_pages len)"
  proof (cases "tf_len f < len")
    case True
    then show ?thesis using truncate_up_ok [OF assms(1) True assms(3), of cpu] by simp
  next
    case False
    then have "resized len (content f m) = take len (content f m)" by (simp add: resized_def)
    then show ?thesis using truncate_down_ok [OF assms(1) _ assms(3), of cpu] False by auto
  qed
qed (rule tmp_file_read_ok [OF assms(1)], rule tmp_file_write_ok [OF assms(1,2)])

definition one_frame_memory :: memory where
  "one_frame_memory = \<lparr>m_phys = one_frame_state, m_bytes = (\<lambda>_. [])\<rparr>"

lemma new_file_ok: "file_ok tmp_file_new one_frame_memory"
  by (simp add: file_ok_def pages_ok_def pages_full_def frames_of_def tmp_file_new_def one_frame_memory_def one_frame_state_facts)

text \<open>Three bytes written at offset two of a new file, with one frame of memory free.\<close>

theorem tmp_file_refines_bytes_witness:
  "\<exists>f m. tmp_file_write 0 2 [7, 8, 9] tmp_file_new one_frame_memory = Some (Inr 3, f, m) \<and> content f m = [0, 0, 7, 8, 9]"
proof -
  have "local_frames 0 one_frame_state = {256}"
    using one_frame_state_facts one_frame_facts
    by (auto simp: local_frames_def avail_def one_frame_state_def block_state_def phys_boot_def magazine_new_facts one_frame_def)
  then have "\<not> card (local_frames 0 (m_phys one_frame_memory)) < required_pages 5"
    by (simp add: one_frame_memory_def required_pages_def TMPFS_PAGE_SIZE_def)
  moreover have "overlay 2 [7, 8, 9] (content tmp_file_new one_frame_memory) = [0, 0, 7, 8, 9]"
    by (simp add: overlay_def content_def tmp_file_new_def numeral_2_eq_2)
  moreover have "length (tf_pages tmp_file_new) = 0" by (simp add: tmp_file_new_def)
  ultimately show ?thesis
    using tmp_file_refines_bytes [OF new_file_ok, of 2 "[7, 8, 9]" 0 0 0] by (auto simp: TMPFS_PAGE_SIZE_def)
qed

text \<open>
  C23. A length close to the end of the address range brings the kernel down.  The number of pages
  is computed with a sum that wraps to zero, no page is allocated, and clearing the new
  range indexes past the page vector, for every file.  The system calls \<open>ftruncate\<close> and \<open>truncate\<close> pass
  any 64-bit length down, so a length of -1 suffices.
\<close>

theorem truncate_huge_panics:
  assumes "file_ok f m" "2 ^ 64 - TMPFS_PAGE_SIZE < len" "len < 2 ^ 64"
  shows "tmp_file_truncate cpu len f m = None"
  using assms by (rule truncate_huge)

theorem truncate_huge_panics_witness: "tmp_file_truncate 0 (2 ^ 64 - 1) tmp_file_new one_frame_memory = None"
  by (rule truncate_huge_panics [OF new_file_ok]) (simp_all add: TMPFS_PAGE_SIZE_def)

end
