(* ===== verification/Tmpfs.thy ===== *)
theory Tmpfs
  imports Tmp_File
begin

text \<open>
  The memory file system (kernel/src/fs/tmpfs/mod.rs from \<open>NodeData\<close> on): nodes in a table keyed by
  inode number, directories as ordered maps from names to inode numbers, and the
  operations of \<open>InodeOps\<close>.  The operations of an inode act on the inode number stored in its
  handle, the first argument here.  The credentials of the calling process and the
  clock are arguments.  An operation that may panic returns an option.

  The invariant \<open>fs_inv\<close> says that the files own disjoint frames outside the free pool, that
  every directory entry leads to a node, and that no node has two entries.
\<close>

section \<open>Nodes\<close>

datatype node_data = NFile tmp_file | NDir "(string, u64) btree" | NSymlink string

record tmp_node =
  n_ino :: u64
  n_mode :: u32
  n_uid :: u32
  n_gid :: u32
  n_data :: node_data
  n_atime :: int
  n_mtime :: int
  n_ctime :: int
  n_nlink :: u32

definition node_size :: "tmp_node \<Rightarrow> u64" where
  "node_size n = (case n_data n of
      NFile f \<Rightarrow> of_nat (tf_len f)
    | NSymlink s \<Rightarrow> of_nat (length s)
    | NDir d \<Rightarrow> of_nat (length d) * 64)"

record tmp_state =
  ts_nodes :: "(u64, tmp_node) btree"
  ts_next_ino :: u64

definition tmp_state_new :: tmp_state where
  "tmp_state_new = \<lparr>ts_nodes = bt_insert 1 \<lparr>n_ino = 1, n_mode = S_IFDIR OR 0x1ED, n_uid = 0, n_gid = 0,
     n_data = NDir [], n_atime = 0, n_mtime = 0, n_ctime = 0, n_nlink = 2\<rparr> [], ts_next_ino = 2\<rparr>"

definition alloc_ino :: "tmp_state \<Rightarrow> u64 \<times> tmp_state" where
  "alloc_ino st = (ts_next_ino st, st\<lparr>ts_next_ino := ts_next_ino st + 1\<rparr>)"

definition make_file :: "u64 \<Rightarrow> u32 \<Rightarrow> u32 \<Rightarrow> u32 \<Rightarrow> tmp_state \<Rightarrow> u64 \<times> tmp_state" where
  "make_file now mode uid gid st =
     (let (ino, st1) = alloc_ino st; t = sint now in
      (ino, st1\<lparr>ts_nodes := bt_insert ino \<lparr>n_ino = ino, n_mode = S_IFREG OR (mode AND 0x1FF), n_uid = uid, n_gid = gid,
         n_data = NFile tmp_file_new, n_atime = t, n_mtime = t, n_ctime = t, n_nlink = 1\<rparr> (ts_nodes st1)\<rparr>))"

definition make_dir :: "u64 \<Rightarrow> u32 \<Rightarrow> u32 \<Rightarrow> u32 \<Rightarrow> tmp_state \<Rightarrow> u64 \<times> tmp_state" where
  "make_dir now mode uid gid st =
     (let (ino, st1) = alloc_ino st; t = sint now in
      (ino, st1\<lparr>ts_nodes := bt_insert ino \<lparr>n_ino = ino, n_mode = S_IFDIR OR (mode AND 0x1FF), n_uid = uid, n_gid = gid,
         n_data = NDir [], n_atime = t, n_mtime = t, n_ctime = t, n_nlink = 2\<rparr> (ts_nodes st1)\<rparr>))"

definition make_symlink :: "u64 \<Rightarrow> string \<Rightarrow> u32 \<Rightarrow> u32 \<Rightarrow> tmp_state \<Rightarrow> u64 \<times> tmp_state" where
  "make_symlink now target uid gid st =
     (let (ino, st1) = alloc_ino st; t = sint now in
      (ino, st1\<lparr>ts_nodes := bt_insert ino \<lparr>n_ino = ino, n_mode = S_IFLNK OR 0x1FF, n_uid = uid, n_gid = gid,
         n_data = NSymlink target, n_atime = t, n_mtime = t, n_ctime = t, n_nlink = 1\<rparr> (ts_nodes st1)\<rparr>))"

definition make_inode :: "u64 \<Rightarrow> tmp_state \<Rightarrow> vfs_error + inode" where
  "make_inode ino st = (case bt_get (ts_nodes st) ino of
      None \<Rightarrow> Inl ENOENT
    | Some n \<Rightarrow> Inr \<lparr>i_ino = ino, i_mode = n_mode n, i_uid = n_uid n, i_gid = n_gid n, i_size = node_size n,
        i_atime = n_atime n, i_mtime = n_mtime n, i_ctime = n_ctime n, i_sb_dev = 1\<rparr>)"

definition tmp_get_root :: "tmp_state \<Rightarrow> vfs_error + inode" where
  "tmp_get_root st = make_inode 1 st"

section \<open>File contents\<close>

definition tmp_read :: "u64 \<Rightarrow> nat \<Rightarrow> u64 \<Rightarrow> tmp_state \<Rightarrow> memory \<Rightarrow> (vfs_error + u8 list) option" where
  "tmp_read ino len offset st m = (case bt_get (ts_nodes st) ino of
      None \<Rightarrow> Some (Inl ENOENT)
    | Some n \<Rightarrow> (case n_data n of
          NFile f \<Rightarrow> map_option Inr (tmp_file_read (unat offset) len f (m_bytes m))
        | NSymlink t \<Rightarrow> Some (Inr (take len (map of_char t)))
        | NDir _ \<Rightarrow> Some (Inl EISDIR)))"

definition tmp_write ::
    "nat \<Rightarrow> u64 \<Rightarrow> u64 \<Rightarrow> u8 list \<Rightarrow> u64 \<Rightarrow> tmp_state \<Rightarrow> memory \<Rightarrow> ((vfs_error + nat) \<times> tmp_state \<times> memory) option" where
  "tmp_write cpu now ino data offset st m =
     (if 2 ^ 64 \<le> unat offset + length data then Some (Inl EINVAL, st, m)
      else case bt_get (ts_nodes st) ino of
        None \<Rightarrow> Some (Inl ENOENT, st, m)
      | Some n \<Rightarrow> (case n_data n of
            NFile f \<Rightarrow> map_option (\<lambda>(r, f', m').
                (r, st\<lparr>ts_nodes := bt_adjust ino (\<lambda>n. case r of
                      Inl _ \<Rightarrow> n\<lparr>n_data := NFile f'\<rparr>
                    | Inr _ \<Rightarrow> n\<lparr>n_data := NFile f', n_mtime := sint now, n_ctime := sint now\<rparr>) (ts_nodes st)\<rparr>, m'))
              (tmp_file_write cpu (unat offset) data f m)
          | NDir _ \<Rightarrow> Some (Inl EISDIR, st, m)
          | NSymlink _ \<Rightarrow> Some (Inl EINVAL, st, m)))"

definition tmp_truncate ::
    "nat \<Rightarrow> u64 \<Rightarrow> u64 \<Rightarrow> u64 \<Rightarrow> tmp_state \<Rightarrow> memory \<Rightarrow> ((vfs_error + unit) \<times> tmp_state \<times> memory) option" where
  "tmp_truncate cpu now ino new_size st m = (case bt_get (ts_nodes st) ino of
      None \<Rightarrow> Some (Inl EINVAL, st, m)
    | Some n \<Rightarrow> (case n_data n of
          NFile f \<Rightarrow> map_option (\<lambda>(r, f', m').
              (r, st\<lparr>ts_nodes := bt_adjust ino (\<lambda>n. case r of
                    Inl _ \<Rightarrow> n\<lparr>n_data := NFile f'\<rparr>
                  | Inr _ \<Rightarrow> n\<lparr>n_data := NFile f', n_mtime := sint now, n_ctime := sint now\<rparr>) (ts_nodes st)\<rparr>, m'))
            (tmp_file_truncate cpu (unat new_size) f m)
        | _ \<Rightarrow> Some (Inl EINVAL, st, m)))"

section \<open>Directories\<close>

definition entry_type :: "tmp_node option \<Rightarrow> u8" where
  "entry_type n = (case n of None \<Rightarrow> 8
    | Some n \<Rightarrow> (case n_data n of NDir _ \<Rightarrow> 4 | NSymlink _ \<Rightarrow> 10 | NFile _ \<Rightarrow> 8))"

definition tmp_readdir :: "u64 \<Rightarrow> tmp_state \<Rightarrow> vfs_error + dir_entry list" where
  "tmp_readdir ino st = (case bt_get (ts_nodes st) ino of
      None \<Rightarrow> Inl ENOENT
    | Some n \<Rightarrow> (case n_data n of
          NDir children \<Rightarrow> Inr (\<lparr>de_name = ''.'', de_ino = ino, de_file_type = 4\<rparr> #
            \<lparr>de_name = ''..'', de_ino = ino, de_file_type = 4\<rparr> #
            map (\<lambda>(name, child). \<lparr>de_name = name, de_ino = child,
                  de_file_type = entry_type (bt_get (ts_nodes st) child)\<rparr>) children)
        | _ \<Rightarrow> Inl ENOTDIR))"

definition dir_lookup :: "u64 \<Rightarrow> string \<Rightarrow> tmp_state \<Rightarrow> vfs_error + u64" where
  "dir_lookup ino name st = (case bt_get (ts_nodes st) ino of
      None \<Rightarrow> Inl ENOENT
    | Some n \<Rightarrow> (case n_data n of
          NDir d \<Rightarrow> (case bt_get d name of None \<Rightarrow> Inl ENOENT | Some c \<Rightarrow> Inr c)
        | _ \<Rightarrow> Inl ENOTDIR))"

definition tmp_lookup :: "u64 \<Rightarrow> string \<Rightarrow> tmp_state \<Rightarrow> vfs_error + inode" where
  "tmp_lookup ino name st = (case dir_lookup ino name st of Inl e \<Rightarrow> Inl e | Inr c \<Rightarrow> make_inode c st)"

definition set_dir :: "u64 \<Rightarrow> ((string, u64) btree \<Rightarrow> (string, u64) btree) \<Rightarrow> tmp_state \<Rightarrow> tmp_state" where
  "set_dir ino g st = st\<lparr>ts_nodes := bt_adjust ino (\<lambda>n. case n_data n of
      NDir d \<Rightarrow> n\<lparr>n_data := NDir (g d)\<rparr> | _ \<Rightarrow> n) (ts_nodes st)\<rparr>"

definition add_entry :: "u64 \<Rightarrow> string \<Rightarrow> u64 \<Rightarrow> tmp_state \<Rightarrow> (vfs_error + unit) \<times> tmp_state" where
  "add_entry ino name child st = (case bt_get (ts_nodes st) ino of
      None \<Rightarrow> (Inl ENOENT, st)
    | Some n \<Rightarrow> (case n_data n of
          NDir _ \<Rightarrow> (Inr (), set_dir ino (bt_insert name child) st)
        | _ \<Rightarrow> (Inl ENOTDIR, st)))"

definition finish_new :: "u64 \<Rightarrow> string \<Rightarrow> u64 \<times> tmp_state \<Rightarrow> (vfs_error + inode) \<times> tmp_state" where
  "finish_new ino name x = (let (child, st) = x; (r, st') = add_entry ino name child st in
     case r of Inl e \<Rightarrow> (Inl e, st') | Inr _ \<Rightarrow> (make_inode child st', st'))"

definition tmp_create :: "u32 \<times> u32 \<Rightarrow> u64 \<Rightarrow> u64 \<Rightarrow> string \<Rightarrow> u32 \<Rightarrow> tmp_state \<Rightarrow> (vfs_error + inode) \<times> tmp_state" where
  "tmp_create cred now ino name mode st = finish_new ino name (make_file now mode (fst cred) (snd cred) st)"

definition tmp_mkdir :: "u32 \<times> u32 \<Rightarrow> u64 \<Rightarrow> u64 \<Rightarrow> string \<Rightarrow> u32 \<Rightarrow> tmp_state \<Rightarrow> (vfs_error + inode) \<times> tmp_state" where
  "tmp_mkdir cred now ino name mode st = finish_new ino name (make_dir now mode (fst cred) (snd cred) st)"

definition tmp_symlink :: "u32 \<times> u32 \<Rightarrow> u64 \<Rightarrow> u64 \<Rightarrow> string \<Rightarrow> string \<Rightarrow> tmp_state \<Rightarrow> (vfs_error + inode) \<times> tmp_state" where
  "tmp_symlink cred now ino name target st = finish_new ino name (make_symlink now target (fst cred) (snd cred) st)"

text \<open>Removing a node drops its data; the frames of a file go back to the allocator.\<close>

definition remove_node :: "nat \<Rightarrow> u64 \<Rightarrow> tmp_state \<Rightarrow> memory \<Rightarrow> (tmp_state \<times> memory) option" where
  "remove_node cpu ino st m =
     map_option (\<lambda>m'. (st\<lparr>ts_nodes := bt_remove ino (ts_nodes st)\<rparr>, m'))
       (case bt_get (ts_nodes st) ino of
          Some n \<Rightarrow> (case n_data n of NFile f \<Rightarrow> tmp_file_drop cpu f m | _ \<Rightarrow> Some m)
        | None \<Rightarrow> Some m)"

definition unlink_node :: "nat \<Rightarrow> u64 \<Rightarrow> tmp_state \<Rightarrow> memory \<Rightarrow> (tmp_state \<times> memory) option" where
  "unlink_node cpu ino st m = (case bt_get (ts_nodes st) ino of
      None \<Rightarrow> Some (st, m)
    | Some n \<Rightarrow>
        let nl = (if 0 < n_nlink n then n_nlink n - 1 else n_nlink n);
            st1 = st\<lparr>ts_nodes := bt_adjust ino (\<lambda>n. n\<lparr>n_nlink := nl\<rparr>) (ts_nodes st)\<rparr> in
        if nl = 0 then remove_node cpu ino st1 m else Some (st1, m))"

definition tmp_unlink ::
    "nat \<Rightarrow> u64 \<Rightarrow> string \<Rightarrow> tmp_state \<Rightarrow> memory \<Rightarrow> ((vfs_error + unit) \<times> tmp_state \<times> memory) option" where
  "tmp_unlink cpu ino name st m = (case dir_lookup ino name st of
      Inl e \<Rightarrow> Some (Inl e, st, m)
    | Inr child \<Rightarrow> (case bt_get (ts_nodes st) child of
          None \<Rightarrow> Some (Inl ENOENT, st, m)
        | Some n \<Rightarrow> (case n_data n of
              NDir _ \<Rightarrow> Some (Inl EISDIR, st, m)
            | _ \<Rightarrow> map_option (\<lambda>(st', m'). (Inr (), st', m'))
                (unlink_node cpu child (set_dir ino (bt_remove name) st) m))))"

definition tmp_rmdir ::
    "nat \<Rightarrow> u64 \<Rightarrow> string \<Rightarrow> tmp_state \<Rightarrow> memory \<Rightarrow> ((vfs_error + unit) \<times> tmp_state \<times> memory) option" where
  "tmp_rmdir cpu ino name st m = (case dir_lookup ino name st of
      Inl e \<Rightarrow> Some (Inl e, st, m)
    | Inr child \<Rightarrow> (case bt_get (ts_nodes st) child of
          None \<Rightarrow> Some (Inl ENOENT, st, m)
        | Some n \<Rightarrow> (case n_data n of
              NDir d \<Rightarrow> if d \<noteq> [] then Some (Inl ENOTEMPTY, st, m)
                else map_option (\<lambda>(st', m'). (Inr (), st', m'))
                  (remove_node cpu child (set_dir ino (bt_remove name) st) m)
            | _ \<Rightarrow> Some (Inl ENOTDIR, st, m))))"

definition tmp_rename :: "u64 \<Rightarrow> string \<Rightarrow> u64 \<Rightarrow> string \<Rightarrow> tmp_state \<Rightarrow> (vfs_error + unit) \<times> tmp_state" where
  "tmp_rename ino old_name new_parent new_name st = (case dir_lookup ino old_name st of
      Inl e \<Rightarrow> (Inl e, st)
    | Inr child \<Rightarrow> add_entry new_parent new_name child (set_dir ino (bt_remove old_name) st))"

definition tmp_readlink :: "u64 \<Rightarrow> tmp_state \<Rightarrow> vfs_error + string" where
  "tmp_readlink ino st = (case bt_get (ts_nodes st) ino of
      None \<Rightarrow> Inl ENOENT
    | Some n \<Rightarrow> (case n_data n of NSymlink t \<Rightarrow> Inr t | _ \<Rightarrow> Inl EINVAL))"

section \<open>Views of the node table\<close>

definition file_at :: "tmp_state \<Rightarrow> u64 \<Rightarrow> tmp_file option" where
  "file_at st ino = Option.bind (bt_get (ts_nodes st) ino) (\<lambda>n. case n_data n of NFile f \<Rightarrow> Some f | _ \<Rightarrow> None)"

definition dir_at :: "tmp_state \<Rightarrow> u64 \<Rightarrow> (string, u64) btree option" where
  "dir_at st ino = Option.bind (bt_get (ts_nodes st) ino) (\<lambda>n. case n_data n of NDir d \<Rightarrow> Some d | _ \<Rightarrow> None)"

definition ent :: "tmp_state \<Rightarrow> u64 \<Rightarrow> string \<Rightarrow> u64 \<Rightarrow> bool" where
  "ent st i name c \<longleftrightarrow> (\<exists>d. dir_at st i = Some d \<and> bt_get d name = Some c)"

definition new_node :: "tmp_node \<Rightarrow> tmp_state \<Rightarrow> u64 \<times> tmp_state" where
  "new_node n st = (ts_next_ino st, st\<lparr>ts_nodes := bt_insert (ts_next_ino st) n (ts_nodes st), ts_next_ino := ts_next_ino st + 1\<rparr>)"

lemma dir_lookup_ent: "dir_lookup i name st = Inr c \<longleftrightarrow> ent st i name c"
  by (auto simp: dir_lookup_def ent_def dir_at_def bind_eq_Some_conv split: option.splits node_data.splits)

lemma set_dir_views [simp]:
  "file_at (set_dir i g st) j = file_at st j"
  "dir_at (set_dir i g st) j = (if j = i then map_option g (dir_at st i) else dir_at st j)"
  "bt_get (ts_nodes (set_dir i g st)) j = None \<longleftrightarrow> bt_get (ts_nodes st) j = None"
  "ts_next_ino (set_dir i g st) = ts_next_ino st"
  by (cases "bt_get (ts_nodes st) i"; cases "n_data (the (bt_get (ts_nodes st) i))";
      auto simp: set_dir_def file_at_def dir_at_def bt_simps)+

lemma new_node_views [simp]:
  "fst (new_node n st) = ts_next_ino st"
  "bt_get (ts_nodes (snd (new_node n st))) j = (if j = ts_next_ino st then Some n else bt_get (ts_nodes st) j)"
  "file_at (snd (new_node n st)) j =
     (if j = ts_next_ino st then case n_data n of NFile f \<Rightarrow> Some f | _ \<Rightarrow> None else file_at st j)"
  "dir_at (snd (new_node n st)) j =
     (if j = ts_next_ino st then case n_data n of NDir d \<Rightarrow> Some d | _ \<Rightarrow> None else dir_at st j)"
  "ts_next_ino (snd (new_node n st)) = ts_next_ino st + 1"
  by (simp_all add: new_node_def file_at_def dir_at_def bt_simps)

lemma make_new_node:
  "make_file now mode uid gid st = new_node \<lparr>n_ino = ts_next_ino st, n_mode = S_IFREG OR (mode AND 0x1FF), n_uid = uid,
     n_gid = gid, n_data = NFile tmp_file_new, n_atime = sint now, n_mtime = sint now, n_ctime = sint now, n_nlink = 1\<rparr> st"
  "make_dir now mode uid gid st = new_node \<lparr>n_ino = ts_next_ino st, n_mode = S_IFDIR OR (mode AND 0x1FF), n_uid = uid,
     n_gid = gid, n_data = NDir [], n_atime = sint now, n_mtime = sint now, n_ctime = sint now, n_nlink = 2\<rparr> st"
  "make_symlink now target uid gid st = new_node \<lparr>n_ino = ts_next_ino st, n_mode = S_IFLNK OR 0x1FF, n_uid = uid,
     n_gid = gid, n_data = NSymlink target, n_atime = sint now, n_mtime = sint now, n_ctime = sint now, n_nlink = 1\<rparr> st"
  by (simp_all add: make_file_def make_dir_def make_symlink_def new_node_def alloc_ino_def Let_def)

lemma add_entry_cases:
  "add_entry i name c st = (if dir_at st i = None then (Inl (if bt_get (ts_nodes st) i = None then ENOENT else ENOTDIR), st)
     else (Inr (), set_dir i (bt_insert name c) st))"
  by (auto simp: add_entry_def dir_at_def split: option.splits node_data.splits bind_splits)

section \<open>The tree invariant\<close>

text \<open>
  The root is a directory and nobody's child; every entry leads to a node; no node has
  two entries; inode numbers below the next one are the only ones in use; a file or link
  has link count one.
\<close>

definition node_ok :: "u64 \<Rightarrow> tmp_node \<Rightarrow> bool" where
  "node_ok ino n \<longleftrightarrow> n_ino n = ino \<and>
     (case n_data n of NDir d \<Rightarrow> bt_sorted d | _ \<Rightarrow> n_nlink n = 1)"

definition tree_inv :: "tmp_state \<Rightarrow> bool" where
  "tree_inv st \<longleftrightarrow> dir_at st 1 \<noteq> None \<and>
     (\<forall>i name c. ent st i name c \<longrightarrow> c \<noteq> 1 \<and> bt_get (ts_nodes st) c \<noteq> None) \<and>
     (\<forall>i j name name' c. ent st i name c \<longrightarrow> ent st j name' c \<longrightarrow> i = j \<and> name = name') \<and>
     (\<forall>i n. bt_get (ts_nodes st) i = Some n \<longrightarrow> i < ts_next_ino st \<and> node_ok i n)"

lemma tree_invD:
  assumes "tree_inv st"
  shows "dir_at st 1 \<noteq> None" "ent st i name c \<Longrightarrow> c \<noteq> 1" "ent st i name c \<Longrightarrow> bt_get (ts_nodes st) c \<noteq> None"
    "ent st i name c \<Longrightarrow> ent st j name' c \<Longrightarrow> i = j \<and> name = name'"
    "bt_get (ts_nodes st) i = Some n \<Longrightarrow> i < ts_next_ino st" "bt_get (ts_nodes st) i = Some n \<Longrightarrow> node_ok i n"
  using assms unfolding tree_inv_def by blast+

lemma tree_invI:
  assumes "dir_at st 1 \<noteq> None" "\<And>i name c. ent st i name c \<Longrightarrow> c \<noteq> 1 \<and> bt_get (ts_nodes st) c \<noteq> None"
    "\<And>i j name name' c. ent st i name c \<Longrightarrow> ent st j name' c \<Longrightarrow> i = j \<and> name = name'"
    "\<And>i n. bt_get (ts_nodes st) i = Some n \<Longrightarrow> i < ts_next_ino st \<and> node_ok i n"
  shows "tree_inv st"
  using assms unfolding tree_inv_def by blast

definition unlinked :: "u64 \<Rightarrow> tmp_state \<Rightarrow> bool" where
  "unlinked c st \<longleftrightarrow> (\<forall>i name. \<not> ent st i name c)"

lemma ent_set_dir_remove:
  "ent (set_dir i (bt_remove name) st) j nm c \<longleftrightarrow> ent st j nm c \<and> (j, nm) \<noteq> (i, name)"
  by (auto simp: ent_def bt_simps split: if_splits)

lemma ent_set_dir_insert:
  "ent (set_dir i (bt_insert name x) st) j nm c \<longleftrightarrow>
     (if (j, nm) = (i, name) then c = x \<and> dir_at st i \<noteq> None else ent st j nm c)"
  by (auto simp: ent_def bt_simps split: if_splits)

lemma node_ok_set_dir:
  assumes "tree_inv st" "\<And>d. bt_sorted d \<Longrightarrow> bt_sorted (g d)" "bt_get (ts_nodes (set_dir k g st)) i = Some n"
  shows "i < ts_next_ino st \<and> node_ok i n"
proof -
  have "bt_get (ts_nodes st) i \<noteq> None" using assms(3) set_dir_views(3) [of k g st i] by simp
  then obtain z where z: "bt_get (ts_nodes st) i = Some z" by blast
  note t = tree_invD(5,6) [OF assms(1) z]
  show ?thesis
  proof (cases "i = k")
    case False
    then show ?thesis using t assms(3) z by (simp add: set_dir_def bt_simps)
  next
    case True
    have z': "n = (case n_data z of NDir d \<Rightarrow> z\<lparr>n_data := NDir (g d)\<rparr> | _ \<Rightarrow> z)"
      using assms(3) z True by (simp add: set_dir_def bt_simps)
    show ?thesis
    proof (cases "n_data z")
      case (NDir d)
      then show ?thesis using t z' assms(2) [of d] by (simp add: node_ok_def)
    qed (use t z' in simp_all)
  qed
qed

lemma tree_inv_remove_entry:
  assumes "tree_inv st"
  shows "tree_inv (set_dir i (bt_remove name) st)"
proof (rule tree_invI)
  show "dir_at (set_dir i (bt_remove name) st) 1 \<noteq> None" using tree_invD(1) [OF assms] by auto
  show "k < ts_next_ino (set_dir i (bt_remove name) st) \<and> node_ok k n"
    if "bt_get (ts_nodes (set_dir i (bt_remove name) st)) k = Some n" for k n
    using node_ok_set_dir [OF assms bt_sorted_remove that] by simp
qed (use tree_invD(2-4) [OF assms] in \<open>auto simp: ent_set_dir_remove\<close>)

lemma tree_inv_add_entry:
  assumes "tree_inv st" "unlinked c st" "c \<noteq> 1" "bt_get (ts_nodes st) c \<noteq> None"
  shows "tree_inv (snd (add_entry i name c st))"
proof (cases "dir_at st i")
  case (Some d)
  have "tree_inv (set_dir i (bt_insert name c) st)"
  proof (rule tree_invI)
    let ?st = "set_dir i (bt_insert name c) st"
    note t = tree_invD [OF assms(1)]
    show "dir_at ?st 1 \<noteq> None" using t(1) by auto
    show "k < ts_next_ino ?st \<and> node_ok k n" if "bt_get (ts_nodes ?st) k = Some n" for k n
      using node_ok_set_dir [OF assms(1) bt_sorted_insert that] by simp
    show "x \<noteq> 1 \<and> bt_get (ts_nodes ?st) x \<noteq> None" if "ent ?st j nm x" for j nm x
      using that assms(3,4) t(2,3) [of j nm x] unfolding ent_set_dir_insert by (auto split: if_splits)
    show "j = k \<and> nm = nm'" if "ent ?st j nm x" "ent ?st k nm' x" for j k nm nm' x
      using that assms(2) t(4) [of j nm x k nm'] unfolding ent_set_dir_insert unlinked_def by (auto split: if_splits)
  qed
  then show ?thesis using Some by (simp add: add_entry_cases)
qed (simp add: add_entry_cases assms(1))

lemma tree_inv_new_node:
  assumes "tree_inv st" "node_ok (ts_next_ino st) n" "unat (ts_next_ino st) + 1 < 2 ^ 64"
    and "\<forall>d. n_data n = NDir d \<longrightarrow> d = []"
  shows "tree_inv (snd (new_node n st))" "unlinked (ts_next_ino st) (snd (new_node n st))" "ts_next_ino st \<noteq> 1"
proof -
  let ?k = "ts_next_ino st"
  have lt: "i < ?k + 1" if "i \<le> ?k" for i
    using that assms(3) by (simp add: word_less_nat_alt word_le_nat_alt unat_word_ariths)
  note t = tree_invD [OF assms(1)]
  have old: "bt_get (ts_nodes st) ?k = None" using t(5) [of ?k] by (metis less_irrefl not_None_eq)
  then have old2: "dir_at st ?k = None" by (simp add: dir_at_def)
  have e: "ent (snd (new_node n st)) i name c \<longleftrightarrow> ent st i name c" for i name c
    using old2 assms(4) by (auto simp: ent_def split: node_data.splits)
  show k: "?k \<noteq> 1" using t(1) old2 by auto
  show "unlinked ?k (snd (new_node n st))" using t(3) old unfolding unlinked_def e by blast
  show "tree_inv (snd (new_node n st))"
  proof (rule tree_invI)
    show "dir_at (snd (new_node n st)) 1 \<noteq> None" using t(1) k by auto
    show "i < ts_next_ino (snd (new_node n st)) \<and> node_ok i x" if "bt_get (ts_nodes (snd (new_node n st))) i = Some x" for i x
      using that assms(2) lt [of i] t(5,6) [of i x] by (auto split: if_splits simp: less_imp_le)
  qed (use t(2-4) in \<open>auto simp: e\<close>)
qed

lemma tree_inv_remove_node:
  assumes "tree_inv st" "unlinked c st" "c \<noteq> 1"
    and "st' = st\<lparr>ts_nodes := bt_remove c (ts_nodes st)\<rparr>"
  shows "tree_inv st'"
proof -
  have "dir_at st' j = (if j = c then None else dir_at st j)" for j by (simp add: assms(4) dir_at_def bt_simps)
  then have e: "ent st' i name x \<longleftrightarrow> ent st i name x \<and> i \<noteq> c" for i name x by (auto simp: ent_def)
  note t = tree_invD [OF assms(1)]
  show ?thesis
  proof (rule tree_invI)
    show "x \<noteq> 1 \<and> bt_get (ts_nodes st') x \<noteq> None" if "ent st' i name x" for i name x
      using that [unfolded e] t(2,3) [of i name x] assms(2) unfolding unlinked_def assms(4) by (auto simp: bt_simps)
    show "i < ts_next_ino st' \<and> node_ok i n" if "bt_get (ts_nodes st') i = Some n" for i n
      using that t(5,6) [of i n] by (auto simp: assms(4) bt_simps split: if_splits)
    show "i = j \<and> name = name'" if "ent st' i name x" "ent st' j name' x" for i j name name' x
      using that t(4) unfolding e by blast
  qed (use t(1) assms(3) in \<open>auto simp: assms(4) dir_at_def bt_simps\<close>)
qed

section \<open>The frames of the files\<close>

definition owned :: "tmp_state \<Rightarrow> u64 \<Rightarrow> nat list" where
  "owned st i = (case file_at st i of None \<Rightarrow> [] | Some f \<Rightarrow> tf_pages f)"

definition bytes_at :: "tmp_state \<Rightarrow> memory \<Rightarrow> u64 \<Rightarrow> u8 list option" where
  "bytes_at st m i = map_option (\<lambda>f. content f m) (file_at st i)"

definition mem_inv :: "tmp_state \<Rightarrow> memory \<Rightarrow> bool" where
  "mem_inv st m \<longleftrightarrow> phys_inv (m_phys m) \<and> (\<forall>i f. file_at st i = Some f \<longrightarrow> file_ok f m) \<and>
     (\<forall>i j. i \<noteq> j \<longrightarrow> frames_of (owned st i) \<inter> frames_of (owned st j) = {})"

definition all_frames :: "tmp_state \<Rightarrow> memory \<Rightarrow> nat set" where
  "all_frames st m = frame_pool (m_phys m) \<union> (\<Union>i. frames_of (owned st i))"

lemma keeps_other:
  assumes "keeps ps m ps' m'" "file_ok g m" "frames_of (tf_pages g) \<inter> frames_of ps = {}"
  shows "file_ok g m'" "content g m' = content g m" "frames_of (tf_pages g) \<inter> frames_of ps' = {}"
proof -
  have g: "frames_of (tf_pages g) \<inter> (frame_pool (m_phys m) \<union> frames_of ps) = {}" "tf_len g \<le> length (tf_pages g) * TMPFS_PAGE_SIZE"
    using assms(2,3) by (auto simp: file_ok_def pages_ok_def)
  have b: "m_bytes m' p = m_bytes m p" if "p \<in> set (tf_pages g)" for p
    using that g(1) assms(1) by (auto simp: keeps_def frames_of_def)
  have k: "frame_pool (m_phys m') \<union> frames_of ps' = frame_pool (m_phys m) \<union> frames_of ps" "phys_inv (m_phys m')"
    using assms(1) by (simp_all add: keeps_def pages_ok_def)
  then show "frames_of (tf_pages g) \<inter> frames_of ps' = {}" using g(1) by blast
  have "frames_of (tf_pages g) \<inter> frame_pool (m_phys m') = {}" using g(1) k(1) by blast
  then show "file_ok g m'" using assms(2) b k(2) by (auto simp: file_ok_def pages_ok_def pages_full_def)
  show "content g m' = content g m"
    using b g(2) by (auto simp: content_def intro!: byte_at_cong)
qed

lemma frames_owned: "mem_inv st m \<Longrightarrow> i \<noteq> j \<Longrightarrow> frames_of (owned st i) \<inter> frames_of (owned st j) = {}"
  by (simp add: mem_inv_def)

text \<open>One file changed, every other one is where it was.\<close>

lemma mem_inv_change:
  assumes inv: "mem_inv st m" and k: "keeps (owned st k) m (owned st' k) m'"
    and f: "\<And>f'. file_at st' k = Some f' \<Longrightarrow> file_ok f' m'"
    and o: "\<And>j. j \<noteq> k \<Longrightarrow> file_at st' j = file_at st j"
  shows "mem_inv st' m'" "\<And>j. j \<noteq> k \<Longrightarrow> bytes_at st' m' j = bytes_at st m j" "all_frames st' m' = all_frames st m"
proof -
  have ow: "owned st' j = owned st j" if "j \<noteq> k" for j using o [OF that] by (simp add: owned_def)
  have other: "file_ok g m'" "content g m' = content g m" "frames_of (tf_pages g) \<inter> frames_of (owned st' k) = {}"
    if "j \<noteq> k" "file_at st j = Some g" for j g
  proof -
    have "file_ok g m" using inv that(2) by (simp add: mem_inv_def)
    moreover have "frames_of (tf_pages g) \<inter> frames_of (owned st k) = {}"
      using frames_owned [OF inv that(1)] that(2) by (simp add: owned_def)
    ultimately show "file_ok g m'" "content g m' = content g m" "frames_of (tf_pages g) \<inter> frames_of (owned st' k) = {}"
      using keeps_other [OF k] by blast+
  qed
  have sep: "frames_of (owned st j) \<inter> frames_of (owned st' k) = {}" if "j \<noteq> k" for j
  proof (cases "file_at st j")
    case (Some g)
    then show ?thesis using other(3) [OF that Some] by (simp add: owned_def)
  qed (simp add: owned_def frames_of_def)
  have "frames_of (owned st' i) \<inter> frames_of (owned st' j) = {}" if "i \<noteq> j" for i j
  proof (cases "i = k \<or> j = k")
    case True
    then show ?thesis using sep [of i] sep [of j] ow [of i] ow [of j] that by auto
  next
    case False
    then show ?thesis using frames_owned [OF inv that] ow [of i] ow [of j] by simp
  qed
  moreover have "file_ok g m'" if "file_at st' j = Some g" for j g
    using that f o [of j] other(1) [of j g] by (cases "j = k") auto
  moreover have "phys_inv (m_phys m')" using k by (simp add: keeps_def pages_ok_def)
  ultimately show "mem_inv st' m'" unfolding mem_inv_def by blast
  show "bytes_at st' m' j = bytes_at st m j" if "j \<noteq> k" for j
    using o [OF that] other(2) [OF that] by (cases "file_at st j") (simp_all add: bytes_at_def)
  have u: "(\<Union>i. frames_of (owned s i)) = frames_of (owned s k) \<union> (\<Union>i\<in>-{k}. frames_of (owned s i))" for s by auto
  have "(\<Union>i\<in>-{k}. frames_of (owned st' i)) = (\<Union>i\<in>-{k}. frames_of (owned st i))" using ow by auto
  moreover have "frame_pool (m_phys m') \<union> frames_of (owned st' k) = frame_pool (m_phys m) \<union> frames_of (owned st k)"
    using k by (simp add: keeps_def)
  ultimately show "all_frames st' m' = all_frames st m"
    unfolding all_frames_def u [of st] u [of st'] by (simp only: sup_assoc [symmetric])
qed

lemma mem_inv_same:
  assumes "mem_inv st m" "\<And>j. file_at st' j = file_at st j"
  shows "mem_inv st' m" "all_frames st' m = all_frames st m"
  using assms by (simp_all add: mem_inv_def all_frames_def owned_def)

lemma mem_inv_new:
  assumes "mem_inv st m" "file_at st k = None" "file_at st' k = Some tmp_file_new" "\<And>j. j \<noteq> k \<Longrightarrow> file_at st' j = file_at st j"
  shows "mem_inv st' m" "all_frames st' m = all_frames st m"
proof -
  have p: "pages_ok [] m" using assms(1) by (simp add: mem_inv_def pages_ok_def pages_full_def frames_of_def)
  then have "file_ok tmp_file_new m" by (simp add: file_ok_def tmp_file_new_def)
  then have f: "file_ok f' m" if "file_at st' k = Some f'" for f' using that assms(3) by simp
  have k: "keeps (owned st k) m (owned st' k) m"
    using keeps_refl [OF p] assms(2,3) by (simp add: owned_def tmp_file_new_def)
  show "mem_inv st' m" by (rule mem_inv_change(1) [OF assms(1) k f assms(4)])
  show "all_frames st' m = all_frames st m" by (rule mem_inv_change(3) [OF assms(1) k f assms(4)])
qed

section \<open>Every operation keeps the invariant\<close>

definition fs_inv :: "tmp_state \<Rightarrow> memory \<Rightarrow> bool" where
  "fs_inv st m \<longleftrightarrow> tree_inv st \<and> mem_inv st m"

definition fs_kept :: "tmp_state \<Rightarrow> memory \<Rightarrow> tmp_state \<Rightarrow> memory \<Rightarrow> bool" where
  "fs_kept st m st' m' \<longleftrightarrow> fs_inv st' m' \<and> all_frames st' m' = all_frames st m"

lemma fs_kept_refl: "fs_inv st m \<Longrightarrow> fs_kept st m st m"
  by (simp add: fs_kept_def)

lemma fs_keptI:
  "tree_inv st' \<Longrightarrow> mem_inv st m \<Longrightarrow> (\<And>j. file_at st' j = file_at st j) \<Longrightarrow> fs_kept st m st' m"
  using mem_inv_same [of st m st'] by (simp add: fs_kept_def fs_inv_def)

lemma file_at_None: "bt_get (ts_nodes st) k = None \<Longrightarrow> file_at st k = None"
  by (simp add: file_at_def)

lemma next_ino_free: "tree_inv st \<Longrightarrow> bt_get (ts_nodes st) (ts_next_ino st) = None"
  using tree_invD(5) [of st "ts_next_ino st"] by (metis less_irrefl not_None_eq)

lemma add_entry_files [simp]: "file_at (snd (add_entry i name c st)) j = file_at st j"
  by (simp add: add_entry_cases)

lemma finish_new_state: "snd (finish_new i name (c, st)) = snd (add_entry i name c st)"
  by (auto simp: finish_new_def split: prod.splits sum.splits)

lemma finish_new_kept:
  assumes "fs_inv st m" "unat (ts_next_ino st) + 1 < 2 ^ 64" "node_ok (ts_next_ino st) n"
    and "n_data n \<in> {NFile tmp_file_new, NDir []} \<union> range NSymlink"
  shows "fs_kept st m (snd (finish_new i name (new_node n st))) m"
proof -
  let ?st1 = "snd (new_node n st)"
  have inv: "tree_inv st" "mem_inv st m" using assms(1) by (simp_all add: fs_inv_def)
  have d: "\<forall>d. n_data n = NDir d \<longrightarrow> d = []" using assms(4) by auto
  note nn = tree_inv_new_node [OF inv(1) assms(3,2) d]
  note k = next_ino_free [OF inv(1)]
  have t: "tree_inv (snd (add_entry i name (ts_next_ino st) ?st1))" by (rule tree_inv_add_entry [OF nn]) simp
  have "mem_inv ?st1 m \<and> all_frames ?st1 m = all_frames st m"
  proof (cases "n_data n")
    case (NFile f)
    then have "file_at ?st1 (ts_next_ino st) = Some tmp_file_new" using assms(4) by auto
    from mem_inv_new [OF inv(2) file_at_None [OF k] this] show ?thesis by simp
  qed (use mem_inv_same [OF inv(2), of ?st1] file_at_None [OF k] in auto)
  moreover from this have "mem_inv (snd (add_entry i name (ts_next_ino st) ?st1)) m"
    "all_frames (snd (add_entry i name (ts_next_ino st) ?st1)) m = all_frames ?st1 m"
    using mem_inv_same [of ?st1 m "snd (add_entry i name (ts_next_ino st) ?st1)"] by simp_all
  moreover have "snd (finish_new i name (new_node n st)) = snd (add_entry i name (ts_next_ino st) ?st1)"
    by (metis finish_new_state new_node_views(1) prod.collapse)
  ultimately show ?thesis using t by (simp add: fs_kept_def fs_inv_def)
qed

lemma create_kept:
  assumes "fs_inv st m" "unat (ts_next_ino st) + 1 < 2 ^ 64"
  shows "fs_kept st m (snd (tmp_create cred now i name mode st)) m" "fs_kept st m (snd (tmp_mkdir cred now i name mode st)) m"
    "fs_kept st m (snd (tmp_symlink cred now i name target st)) m"
  unfolding tmp_create_def tmp_mkdir_def tmp_symlink_def make_new_node
  by (rule finish_new_kept [OF assms]; simp add: node_ok_def)+

lemma unlinked_remove_entry:
  assumes "tree_inv st" "ent st i name c"
  shows "unlinked c (set_dir i (bt_remove name) st)"
  using tree_invD(4) [OF assms(1,2)] by (auto simp: unlinked_def ent_set_dir_remove)

lemma rename_kept:
  assumes "fs_inv st m"
  shows "fs_kept st m (snd (tmp_rename i old np new st)) m"
proof (cases "dir_lookup i old st")
  case (Inr c)
  let ?st1 = "set_dir i (bt_remove old) st"
  have inv: "tree_inv st" "mem_inv st m" using assms by (simp_all add: fs_inv_def)
  have e: "ent st i old c" using Inr by (simp add: dir_lookup_ent)
  note t = tree_inv_add_entry [OF tree_inv_remove_entry [OF inv(1), of i old] unlinked_remove_entry [OF inv(1) e] tree_invD(2) [OF inv(1) e]]
  have "tree_inv (snd (add_entry np new c ?st1))" by (rule t) (use tree_invD(3) [OF inv(1) e] in simp)
  then show ?thesis using Inr fs_keptI [OF _ inv(2)] by (simp add: tmp_rename_def)
qed (use fs_kept_refl [OF assms] in \<open>simp add: tmp_rename_def\<close>)

lemma bt_remove_adjust [simp]: "bt_remove k (bt_adjust k g b) = bt_remove k b"
  by (induction b) (auto simp: bt_remove_def bt_adjust_def)

lemma remove_node_file:
  "remove_node cpu c st m = map_option (\<lambda>m'. (st\<lparr>ts_nodes := bt_remove c (ts_nodes st)\<rparr>, m'))
     (case file_at st c of Some f \<Rightarrow> tmp_file_drop cpu f m | None \<Rightarrow> Some m)"
  by (auto simp: remove_node_def file_at_def split: option.splits node_data.splits bind_splits)

lemma remove_node_kept:
  assumes "tree_inv st" "mem_inv st m" "unlinked c st" "c \<noteq> 1"
  shows "\<exists>m'. remove_node cpu c st m = Some (st\<lparr>ts_nodes := bt_remove c (ts_nodes st)\<rparr>, m') \<and>
    fs_kept st m (st\<lparr>ts_nodes := bt_remove c (ts_nodes st)\<rparr>) m'"
proof -
  let ?st = "st\<lparr>ts_nodes := bt_remove c (ts_nodes st)\<rparr>"
  have t: "tree_inv ?st" by (rule tree_inv_remove_node [OF assms(1,3,4) refl])
  have f: "file_at ?st j = (if j = c then None else file_at st j)" for j by (simp add: file_at_def bt_simps)
  show ?thesis
  proof (cases "file_at st c")
    case None
    then show ?thesis using fs_keptI [OF t assms(2)] f by (auto simp: remove_node_file)
  next
    case (Some g)
    then have "file_ok g m" using assms(2) by (simp add: mem_inv_def)
    then obtain m' where m': "tmp_file_drop cpu g m = Some m'" "keeps (tf_pages g) m [] m'"
      using tmp_file_drop_ok by blast
    have "owned st c = tf_pages g" "owned ?st c = []" using Some f [of c] by (simp_all add: owned_def)
    then have "mem_inv ?st m'" "all_frames ?st m' = all_frames st m"
      using mem_inv_change(1,3) [OF assms(2), of c ?st m'] m'(2) f by simp_all
    then show ?thesis using t Some m'(1) by (auto simp: remove_node_file fs_kept_def fs_inv_def)
  qed
qed

lemma unlink_node_kept:
  assumes "tree_inv st" "mem_inv st m" "unlinked c st" "c \<noteq> 1" "bt_get (ts_nodes st) c = Some n" "\<forall>d. n_data n \<noteq> NDir d"
  shows "\<exists>m'. unlink_node cpu c st m = Some (st\<lparr>ts_nodes := bt_remove c (ts_nodes st)\<rparr>, m') \<and>
    fs_kept st m (st\<lparr>ts_nodes := bt_remove c (ts_nodes st)\<rparr>) m'"
proof -
  have "n_nlink n = 1" using tree_invD(6) [OF assms(1,5)] assms(6) by (auto simp: node_ok_def split: node_data.splits)
  then have "unlink_node cpu c st m = remove_node cpu c (st\<lparr>ts_nodes := bt_adjust c (\<lambda>n. n\<lparr>n_nlink := 0\<rparr>) (ts_nodes st)\<rparr>) m"
    using assms(5) by (simp add: unlink_node_def)
  also have "\<dots> = remove_node cpu c st m"
    using assms(5) by (simp add: remove_node_def bt_simps)
  finally show ?thesis using remove_node_kept [OF assms(1-4)] by simp
qed

lemma fs_kept_trans: "fs_kept st m st1 m1 \<Longrightarrow> fs_kept st1 m1 st2 m2 \<Longrightarrow> fs_kept st m st2 m2"
  by (simp add: fs_kept_def)

lemma remove_entry_kept:
  assumes "fs_inv st m"
  shows "fs_kept st m (set_dir i (bt_remove name) st) m"
  by (rule fs_keptI) (use assms tree_inv_remove_entry in \<open>auto simp: fs_inv_def\<close>)

lemma set_dir_child:
  assumes "bt_get (ts_nodes st) c = Some n" "\<forall>d. n_data n \<noteq> NDir d"
  shows "bt_get (ts_nodes (set_dir i g st)) c = Some n"
  using assms by (auto simp: set_dir_def bt_simps split: node_data.splits)

lemma unlink_kept:
  assumes "fs_inv st m"
  shows "\<exists>r st' m'. tmp_unlink cpu i name st m = Some (r, st', m') \<and> fs_kept st m st' m'"
proof (cases "dir_lookup i name st")
  case (Inl e)
  then show ?thesis using fs_kept_refl [OF assms] by (simp add: tmp_unlink_def)
next
  case (Inr c)
  have inv: "tree_inv st" using assms by (simp add: fs_inv_def)
  have e: "ent st i name c" using Inr by (simp add: dir_lookup_ent)
  obtain n where n: "bt_get (ts_nodes st) c = Some n" using tree_invD(3) [OF inv e] by blast
  show ?thesis
  proof (cases "\<exists>d. n_data n = NDir d")
    case True
    then show ?thesis using Inr n fs_kept_refl [OF assms] by (auto simp: tmp_unlink_def)
  next
    case False
    let ?st1 = "set_dir i (bt_remove name) st"
    note k1 = remove_entry_kept [OF assms, of i name]
    have i1: "tree_inv ?st1" "mem_inv ?st1 m" using k1 by (simp_all add: fs_kept_def fs_inv_def)
    from unlink_node_kept [OF i1 unlinked_remove_entry [OF inv e] tree_invD(2) [OF inv e] set_dir_child [OF n]] False
    obtain st' m' where u: "unlink_node cpu c ?st1 m = Some (st', m')" "fs_kept ?st1 m st' m'" by blast
    have "tmp_unlink cpu i name st m = map_option (\<lambda>(st', m'). (Inr (), st', m')) (unlink_node cpu c ?st1 m)"
      using Inr n False by (cases "n_data n") (simp_all add: tmp_unlink_def)
    then show ?thesis using u fs_kept_trans [OF k1 u(2)] by simp
  qed
qed

lemma rmdir_kept:
  assumes "fs_inv st m"
  shows "\<exists>r st' m'. tmp_rmdir cpu i name st m = Some (r, st', m') \<and> fs_kept st m st' m'"
proof (cases "dir_lookup i name st")
  case (Inl e)
  then show ?thesis using fs_kept_refl [OF assms] by (simp add: tmp_rmdir_def)
next
  case (Inr c)
  have inv: "tree_inv st" using assms by (simp add: fs_inv_def)
  have e: "ent st i name c" using Inr by (simp add: dir_lookup_ent)
  obtain n where n: "bt_get (ts_nodes st) c = Some n" using tree_invD(3) [OF inv e] by blast
  show ?thesis
  proof (cases "n_data n = NDir []")
    case False
    then show ?thesis using Inr n fs_kept_refl [OF assms] by (cases "n_data n") (simp_all add: tmp_rmdir_def)
  next
    case True
    let ?st1 = "set_dir i (bt_remove name) st"
    note k1 = remove_entry_kept [OF assms, of i name]
    have i1: "tree_inv ?st1" "mem_inv ?st1 m" using k1 by (simp_all add: fs_kept_def fs_inv_def)
    from remove_node_kept [OF i1 unlinked_remove_entry [OF inv e] tree_invD(2) [OF inv e]]
    obtain st' m' where u: "remove_node cpu c ?st1 m = Some (st', m')" "fs_kept ?st1 m st' m'" by blast
    then show ?thesis using Inr n True fs_kept_trans [OF k1 u(2)] by (simp add: tmp_rmdir_def)
  qed
qed

lemma file_at_node:
  assumes "file_at st i = Some f"
  obtains n where "bt_get (ts_nodes st) i = Some n" "n_data n = NFile f"
proof (cases "bt_get (ts_nodes st) i")
  case (Some n)
  then show ?thesis using assms that by (cases "n_data n") (auto simp: file_at_def)
qed (use assms in \<open>simp add: file_at_def\<close>)

lemma node_file_at: "bt_get (ts_nodes st) i = Some n \<Longrightarrow> n_data n = NFile f \<Longrightarrow> file_at st i = Some f"
  by (simp add: file_at_def)

text \<open>Writing and truncating replace the contents of one node.\<close>

lemma set_file_kept:
  assumes "fs_inv st m" "file_at st i = Some f" "file_ok f' m'" "keeps (tf_pages f) m (tf_pages f') m'"
    and "g = (\<lambda>n. n\<lparr>n_data := NFile f', n_mtime := a n, n_ctime := b n\<rparr>)"
  defines "st' \<equiv> st\<lparr>ts_nodes := bt_adjust i g (ts_nodes st)\<rparr>"
  shows "fs_kept st m st' m'" "file_at st' i = Some f'" "\<And>j. j \<noteq> i \<Longrightarrow> bytes_at st' m' j = bytes_at st m j"
    "\<And>k name c. ent st' k name c = ent st k name c"
proof -
  obtain n where n: "bt_get (ts_nodes st) i = Some n" "n_data n = NFile f"
    by (rule file_at_node [OF assms(2)])
  have inv: "tree_inv st" "mem_inv st m" using assms(1) by (simp_all add: fs_inv_def)
  have get: "bt_get (ts_nodes st') j = (if j = i then Some (g n) else bt_get (ts_nodes st) j)" for j
    using n(1) by (simp add: st'_def bt_simps)
  show fi: "file_at st' i = Some f'" by (simp add: file_at_def get assms(5))
  have fj: "file_at st' j = file_at st j" if "j \<noteq> i" for j using that by (simp add: file_at_def get)
  have d: "dir_at st' j = dir_at st j" for j using n by (simp add: dir_at_def get assms(5))
  show en: "ent st' k name c = ent st k name c" for k name c by (simp add: ent_def d)
  have "tree_inv st'"
  proof (rule tree_invI)
    show "dir_at st' 1 \<noteq> None" using tree_invD(1) [OF inv(1)] d by simp
    show "c \<noteq> 1 \<and> bt_get (ts_nodes st') c \<noteq> None" if "ent st' k name c" for k name c
      using that [unfolded en] tree_invD(2,3) [OF inv(1), of k name c] by (simp add: get)
    show "j < ts_next_ino st' \<and> node_ok j x" if "bt_get (ts_nodes st') j = Some x" for j x
    proof (cases "j = i")
      case True
      then have "x = g n" using that [unfolded get] by simp
      then show ?thesis using True tree_invD(5,6) [OF inv(1) n(1)] n(2) by (simp add: node_ok_def assms(5) st'_def)
    next
      case False
      then show ?thesis using that [unfolded get] tree_invD(5,6) [OF inv(1), of j] by (simp add: st'_def)
    qed
    show "j = k \<and> name = name'" if "ent st' j name c" "ent st' k name' c" for j k name name' c
      using that unfolding en by (rule tree_invD(4) [OF inv(1)])
  qed
  moreover have "keeps (owned st i) m (owned st' i) m'" using assms(2,4) fi by (simp add: owned_def)
  note ch = mem_inv_change [OF inv(2) this _ fj]
  have ok: "file_ok h m'" if "file_at st' i = Some h" for h using that fi assms(3) by simp
  ultimately show "fs_kept st m st' m'" using ch(1,3) ok by (simp add: fs_kept_def fs_inv_def)
  show "bytes_at st' m' j = bytes_at st m j" if "j \<noteq> i" for j by (rule ch(2)) (use ok that in auto)
qed

lemma write_kept:
  assumes "fs_inv st m" "unat off + length d \<le> 2 ^ 64 - TMPFS_PAGE_SIZE"
  shows "\<exists>r st' m'. tmp_write cpu now i d off st m = Some (r, st', m') \<and> fs_kept st m st' m' \<and>
    (\<forall>j. j \<noteq> i \<longrightarrow> bytes_at st' m' j = bytes_at st m j) \<and> (\<forall>k name c. ent st' k name c = ent st k name c) \<and>
    (\<forall>xs. bytes_at st m i = Some xs \<longrightarrow>
       r = Inr (length d) \<and> bytes_at st' m' i = Some (overlay (unat off) d xs) \<or>
       r = Inl ENOMEM \<and> bytes_at st' m' i = Some xs)"
proof (cases "file_at st i")
  case None
  have "unat off + length d < 2 ^ 64" using assms(2) by (simp add: TMPFS_PAGE_SIZE_def)
  then have "\<exists>e. tmp_write cpu now i d off st m = Some (Inl e, st, m)"
    using None by (auto simp: tmp_write_def file_at_def split: option.splits node_data.splits bind_splits)
  then show ?thesis using None fs_kept_refl [OF assms(1)] by (auto simp: bytes_at_def)
next
  case (Some f)
  obtain n where n: "bt_get (ts_nodes st) i = Some n" "n_data n = NFile f" by (rule file_at_node [OF Some])
  have "file_ok f m" using assms(1) Some by (simp add: fs_inv_def mem_inv_def)
  from tmp_file_write_ok [OF this assms(2), of cpu] obtain r f' m'
    where w: "tmp_file_write cpu (unat off) d f m = Some (r, f', m')" "file_ok f' m'" "keeps (tf_pages f) m (tf_pages f') m'"
      "r = Inr (length d) \<and> content f' m' = overlay (unat off) d (content f m) \<or> r = Inl ENOMEM \<and> content f' m' = content f m"
    by blast
  define g where "g = (\<lambda>n. n\<lparr>n_data := NFile f', n_mtime := (case r of Inl _ \<Rightarrow> n_mtime n | Inr _ \<Rightarrow> sint now),
     n_ctime := (case r of Inl _ \<Rightarrow> n_ctime n | Inr _ \<Rightarrow> sint now)\<rparr> :: tmp_node)"
  note k = set_file_kept [OF assms(1) Some w(2,3) g_def]
  have "unat off + length d < 2 ^ 64" using assms(2) by (simp add: TMPFS_PAGE_SIZE_def)
  then have "tmp_write cpu now i d off st m = Some (r, st\<lparr>ts_nodes := bt_adjust i g (ts_nodes st)\<rparr>, m')"
    using n w(1) by (cases r) (simp_all add: tmp_write_def g_def)
  then show ?thesis using k w(4) Some by (auto simp: bytes_at_def)
qed

lemma truncate_kept:
  assumes "fs_inv st m" "unat len \<le> 2 ^ 64 - TMPFS_PAGE_SIZE"
  shows "\<exists>r st' m'. tmp_truncate cpu now i len st m = Some (r, st', m') \<and> fs_kept st m st' m' \<and>
    (\<forall>j. j \<noteq> i \<longrightarrow> bytes_at st' m' j = bytes_at st m j) \<and> (\<forall>k name c. ent st' k name c = ent st k name c)"
proof (cases "file_at st i")
  case None
  have "\<exists>e. tmp_truncate cpu now i len st m = Some (Inl e, st, m)"
    using None by (auto simp: tmp_truncate_def file_at_def split: option.splits node_data.splits bind_splits)
  then show ?thesis using fs_kept_refl [OF assms(1)] by auto
next
  case (Some f)
  obtain n where n: "bt_get (ts_nodes st) i = Some n" "n_data n = NFile f" by (rule file_at_node [OF Some])
  have ok: "file_ok f m" using assms(1) Some by (simp add: fs_inv_def mem_inv_def)
  obtain r f' m' where w: "tmp_file_truncate cpu (unat len) f m = Some (r, f', m')" "file_ok f' m'"
    "keeps (tf_pages f) m (tf_pages f') m'"
    using truncate_up_ok [OF ok _ assms(2), of cpu] truncate_down_ok [OF ok _ assms(2), of cpu] by (meson not_le)
  define g where "g = (\<lambda>n. n\<lparr>n_data := NFile f', n_mtime := (case r of Inl _ \<Rightarrow> n_mtime n | Inr _ \<Rightarrow> sint now),
     n_ctime := (case r of Inl _ \<Rightarrow> n_ctime n | Inr _ \<Rightarrow> sint now)\<rparr> :: tmp_node)"
  note k = set_file_kept [OF assms(1) Some w(2,3) g_def]
  have "tmp_truncate cpu now i len st m = Some (r, st\<lparr>ts_nodes := bt_adjust i g (ts_nodes st)\<rparr>, m')"
    using n w(1) by (cases r) (simp_all add: tmp_truncate_def g_def)
  then show ?thesis using k by auto
qed

text \<open>Whatever the offset and the length: a call that returns keeps the invariant.\<close>

lemma write_returned_kept:
  assumes "fs_inv st m" "tmp_write cpu now i d off st m = Some (r, st', m')"
  shows "fs_kept st m st' m'"
proof (cases "file_at st i")
  case None
  then have "st' = st \<and> m' = m"
    using assms(2) by (auto simp: tmp_write_def file_at_def split: if_splits option.splits node_data.splits bind_splits)
  then show ?thesis using fs_kept_refl [OF assms(1)] by simp
next
  case (Some f)
  obtain n where n: "bt_get (ts_nodes st) i = Some n" "n_data n = NFile f" by (rule file_at_node [OF Some])
  have ok: "file_ok f m" using assms(1) Some by (simp add: fs_inv_def mem_inv_def)
  show ?thesis
  proof (cases "unat off + length d < 2 ^ 64")
    case True
    then obtain f' where w: "tmp_file_write cpu (unat off) d f m = Some (r, f', m')"
      and st': "st' = st\<lparr>ts_nodes := bt_adjust i (\<lambda>n. case r of Inl _ \<Rightarrow> n\<lparr>n_data := NFile f'\<rparr>
          | Inr _ \<Rightarrow> n\<lparr>n_data := NFile f', n_mtime := sint now, n_ctime := sint now\<rparr>) (ts_nodes st)\<rparr>"
      using assms(2) n by (auto simp: tmp_write_def)
    define g where "g = (\<lambda>n. n\<lparr>n_data := NFile f', n_mtime := (case r of Inl _ \<Rightarrow> n_mtime n | Inr _ \<Rightarrow> sint now),
       n_ctime := (case r of Inl _ \<Rightarrow> n_ctime n | Inr _ \<Rightarrow> sint now)\<rparr> :: tmp_node)"
    have "fs_kept st m (st\<lparr>ts_nodes := bt_adjust i g (ts_nodes st)\<rparr>) m'"
      using set_file_kept(1) [OF assms(1) Some _ _ g_def] tmp_file_write_returned [OF ok True w] by blast
    moreover have "st' = st\<lparr>ts_nodes := bt_adjust i g (ts_nodes st)\<rparr>" unfolding st' g_def by (cases r) simp_all
    ultimately show ?thesis by simp
  next
    case False
    then have "st' = st \<and> m' = m" using assms(2) by (simp add: tmp_write_def)
    then show ?thesis using fs_kept_refl [OF assms(1)] by simp
  qed
qed

lemma truncate_huge_file:
  assumes "fs_inv st m" "2 ^ 64 - TMPFS_PAGE_SIZE < unat len"
  shows "tmp_truncate cpu now i len st m = (if file_at st i = None then Some (Inl EINVAL, st, m) else None)"
proof (cases "file_at st i")
  case None
  then show ?thesis by (auto simp: tmp_truncate_def file_at_def split: option.splits node_data.splits bind_splits)
next
  case (Some f)
  obtain n where n: "bt_get (ts_nodes st) i = Some n" "n_data n = NFile f" by (rule file_at_node [OF Some])
  have "file_ok f m" using assms(1) Some by (simp add: fs_inv_def mem_inv_def)
  then have "tmp_file_truncate cpu (unat len) f m = None"
    using truncate_huge [of f m "unat len"] assms(2) unsigned_less [of len, where 'a = nat] by simp
  then show ?thesis using n Some by (simp add: tmp_truncate_def)
qed

lemma truncate_returned_kept:
  assumes "fs_inv st m" "tmp_truncate cpu now i len st m = Some (r, st', m')"
  shows "fs_kept st m st' m'"
proof (cases "unat len \<le> 2 ^ 64 - TMPFS_PAGE_SIZE")
  case True
  then show ?thesis using truncate_kept [OF assms(1) True, of cpu now i] assms(2) by auto
next
  case False
  then show ?thesis
    using truncate_huge_file [OF assms(1), of len cpu now i] assms(2) fs_kept_refl [OF assms(1)]
    by (auto split: if_splits)
qed

section \<open>Runs\<close>

text \<open>
  A file system is used by any sequence of calls that return, with any offsets, lengths and data.
  The one bound is that the counter of inode numbers does not wrap: fewer than 2^64 objects
  are created.
\<close>

inductive fs_step :: "tmp_state \<times> memory \<Rightarrow> tmp_state \<times> memory \<Rightarrow> bool" where
  create: "unat (ts_next_ino st) + 1 < 2 ^ 64 \<Longrightarrow> fs_step (st, m) (snd (tmp_create cred now i name mode st), m)"
| mkdir: "unat (ts_next_ino st) + 1 < 2 ^ 64 \<Longrightarrow> fs_step (st, m) (snd (tmp_mkdir cred now i name mode st), m)"
| symlink: "unat (ts_next_ino st) + 1 < 2 ^ 64 \<Longrightarrow> fs_step (st, m) (snd (tmp_symlink cred now i name target st), m)"
| rename: "fs_step (st, m) (snd (tmp_rename i old np new st), m)"
| unlink: "tmp_unlink cpu i name st m = Some (r, st', m') \<Longrightarrow> fs_step (st, m) (st', m')"
| rmdir: "tmp_rmdir cpu i name st m = Some (r, st', m') \<Longrightarrow> fs_step (st, m) (st', m')"
| store: "tmp_write cpu now i d off st m = Some (r, st', m') \<Longrightarrow>
    fs_step (st, m) (st', m')"
| truncate: "tmp_truncate cpu now i len st m = Some (r, st', m') \<Longrightarrow>
    fs_step (st, m) (st', m')"

inductive_cases fs_stepE: "fs_step (st, m) (st', m')"

lemma fs_step_kept: "fs_step x y \<Longrightarrow> fs_inv (fst x) (snd x) \<Longrightarrow> fs_kept (fst x) (snd x) (fst y) (snd y)"
proof (induction rule: fs_step.induct)
  case (unlink cpu i name st m r st' m')
  then show ?case using unlink_kept [of st m cpu i name] by auto
next
  case (rmdir cpu i name st m r st' m')
  then show ?case using rmdir_kept [of st m cpu i name] by auto
next
  case (store cpu now i d off st m r st' m')
  then show ?case using write_returned_kept by simp
next
  case (truncate cpu now i len st m r st' m')
  then show ?case using truncate_returned_kept by simp
qed (simp_all add: create_kept rename_kept)

lemma fs_run_kept:
  "fs_step\<^sup>*\<^sup>* x y \<Longrightarrow> fs_inv (fst x) (snd x) \<Longrightarrow> fs_kept (fst x) (snd x) (fst y) (snd y)"
proof (induction rule: rtranclp_induct)
  case (step y z)
  then show ?case using fs_step_kept [of y z] fs_kept_trans by (metis fs_kept_def)
qed (rule fs_kept_refl)

lemma tmp_state_new_inv:
  assumes "phys_inv (m_phys m)"
  shows "fs_inv tmp_state_new m" "all_frames tmp_state_new m = frame_pool (m_phys m)"
proof -
  have g: "bt_get (ts_nodes tmp_state_new) i = (if i = 1 then Some \<lparr>n_ino = 1, n_mode = S_IFDIR OR 0x1ED, n_uid = 0, n_gid = 0,
     n_data = NDir [], n_atime = 0, n_mtime = 0, n_ctime = 0, n_nlink = 2\<rparr> else None)" for i
    by (simp add: tmp_state_new_def bt_get_def)
  have d: "dir_at tmp_state_new i = (if i = 1 then Some [] else None)" "file_at tmp_state_new i = None" for i
    by (simp_all add: dir_at_def file_at_def g)
  have e: "\<not> ent tmp_state_new i name c" for i name c by (simp add: ent_def d)
  have "tree_inv tmp_state_new"
  proof (rule tree_invI)
    show "i < ts_next_ino tmp_state_new \<and> node_ok i n" if "bt_get (ts_nodes tmp_state_new) i = Some n" for i n
    proof -
      have "ts_next_ino tmp_state_new = 2" by (simp add: tmp_state_new_def)
      then show ?thesis using that unfolding g by (auto simp: node_ok_def split: if_splits)
    qed
  qed (use e in \<open>auto simp: d\<close>)
  then show "fs_inv tmp_state_new m" using assms by (simp add: fs_inv_def mem_inv_def owned_def d frames_of_def)
  show "all_frames tmp_state_new m = frame_pool (m_phys m)" by (simp add: all_frames_def owned_def d frames_of_def)
qed

section \<open>New objects\<close>

lemma finish_new_ok:
  assumes "tree_inv st" "dir_at st i \<noteq> None" "\<forall>d. n_data n = NDir d \<longrightarrow> d = []"
  shows "\<exists>ino st'. finish_new i name (new_node n st) = (Inr ino, st') \<and> make_inode (ts_next_ino st) st' = Inr ino \<and>
    bt_get (ts_nodes st') (ts_next_ino st) = Some n \<and>
    (\<forall>j nm c. ent st' j nm c \<longleftrightarrow> (if (j, nm) = (i, name) then c = ts_next_ino st else ent st j nm c)) \<and>
    (\<forall>j. file_at st' j = (if j = ts_next_ino st then case n_data n of NFile f \<Rightarrow> Some f | _ \<Rightarrow> None else file_at st j)) \<and>
    (\<forall>j. j \<noteq> ts_next_ino st \<longrightarrow> (dir_at st' j = None \<longleftrightarrow> dir_at st j = None)) \<and>
    (\<forall>j. bt_get (ts_nodes st) j \<noteq> None \<longrightarrow> bt_get (ts_nodes st') j \<noteq> None)"
proof -
  let ?c = "ts_next_ino st" and ?s = "snd (new_node n st)"
  let ?st' = "set_dir i (bt_insert name ?c) ?s"
  have free: "bt_get (ts_nodes st) ?c = None" using assms(1) by (rule next_ino_free)
  then have ci: "?c \<noteq> i" using assms(2) by (auto simp: dir_at_def)
  have nn: "new_node n st = (?c, ?s)" by (metis new_node_views(1) prod.collapse)
  have "finish_new i name (?c, ?s) = (make_inode ?c ?st', ?st')"
    using assms(2) ci by (auto simp: finish_new_def add_entry_cases)
  then have fin: "finish_new i name (new_node n st) = (make_inode ?c ?st', ?st')" using nn by metis
  have node: "bt_get (ts_nodes ?st') ?c = Some n" using ci by (simp add: set_dir_def bt_simps)
  have en: "ent ?st' j nm c \<longleftrightarrow> (if (j, nm) = (i, name) then c = ?c else ent st j nm c)" for j nm c
    unfolding ent_set_dir_insert using assms(2,3) ci free by (auto simp: ent_def dir_at_def split: node_data.splits)
  obtain ino where "make_inode ?c ?st' = Inr ino" using node by (simp add: make_inode_def)
  then show ?thesis using fin node en assms(2) ci
    by (intro exI [of _ ino] exI [of _ ?st']) auto
qed

lemma reg_mode: "(S_IFREG OR (mode AND 0x1FF)) AND S_IFMT = S_IFREG"
proof -
  have "(0x1FF :: u32) AND S_IFMT = 0" by simp
  then show ?thesis by (simp add: bit.conj_disj_distrib2 and.assoc)
qed

lemma tmp_create_ok:
  assumes "fs_inv st m" "dir_at st i \<noteq> None" "unat (ts_next_ino st) + 1 < 2 ^ 64"
  shows "\<exists>ino st1. tmp_create cred now i name mode st = (Inr ino, st1) \<and> tmp_lookup i name st1 = Inr ino \<and>
    i_ino ino = ts_next_ino st \<and> i_size ino = 0 \<and> s_isreg (i_mode ino) \<and> fs_inv st1 m \<and>
    (\<forall>j nm c. ent st1 j nm c \<longleftrightarrow> (if (j, nm) = (i, name) then c = ts_next_ino st else ent st j nm c)) \<and>
    (\<forall>j. file_at st1 j = (if j = ts_next_ino st then Some tmp_file_new else file_at st j)) \<and>
    (\<forall>j. j \<noteq> ts_next_ino st \<longrightarrow> (dir_at st1 j = None \<longleftrightarrow> dir_at st j = None))"
proof -
  let ?c = "ts_next_ino st"
  have inv: "tree_inv st" using assms(1) by (simp add: fs_inv_def)
  define nd where "nd = \<lparr>n_ino = ?c, n_mode = S_IFREG OR (mode AND 0x1FF), n_uid = fst cred,
     n_gid = snd cred, n_data = NFile tmp_file_new, n_atime = sint now, n_mtime = sint now, n_ctime = sint now, n_nlink = 1\<rparr>"
  have f: "n_data nd = NFile tmp_file_new" by (simp add: nd_def)
  obtain ino st1 where c: "finish_new i name (new_node nd st) = (Inr ino, st1)" "make_inode ?c st1 = Inr ino"
    "bt_get (ts_nodes st1) ?c = Some nd" "\<forall>j nm c. ent st1 j nm c \<longleftrightarrow> (if (j, nm) = (i, name) then c = ?c else ent st j nm c)"
    "\<forall>j. file_at st1 j = (if j = ?c then Some tmp_file_new else file_at st j)"
    "\<forall>j. j \<noteq> ?c \<longrightarrow> (dir_at st1 j = None \<longleftrightarrow> dir_at st j = None)"
    using finish_new_ok [OF inv assms(2), of nd name] f by auto
  have create: "tmp_create cred now i name mode st = (Inr ino, st1)"
    using c(1) by (simp add: tmp_create_def make_new_node nd_def)
  have ino: "i_ino ino = ?c" "i_size ino = 0" "i_mode ino = S_IFREG OR (mode AND 0x1FF)"
    using c(2,3) by (auto simp: make_inode_def node_size_def nd_def tmp_file_new_def)
  have "s_isreg (i_mode ino)" unfolding s_isreg_def ino(3) by (rule reg_mode)
  moreover have "tmp_lookup i name st1 = Inr ino"
    using c(2) c(4) [rule_format, of i name ?c] by (simp add: tmp_lookup_def dir_lookup_ent [symmetric])
  moreover have "fs_inv st1 m" using create_kept(1) [OF assms(1,3), of cred now i name mode] create by (simp add: fs_kept_def)
  ultimately show ?thesis using create ino(1,2) c(4-6) by (intro exI [of _ ino] exI [of _ st1] conjI)
qed

lemma tmp_read_bytes:
  assumes "fs_inv st m" "bytes_at st m i = Some xs"
  shows "tmp_read i n off st m = Some (Inr (take n (drop (unat off) xs)))"
proof -
  obtain f where f: "file_at st i = Some f" "xs = content f m" using assms(2) by (auto simp: bytes_at_def)
  then have "file_ok f m" using assms(1) by (simp add: fs_inv_def mem_inv_def)
  moreover obtain nd where "bt_get (ts_nodes st) i = Some nd" "n_data nd = NFile f" by (rule file_at_node [OF f(1)])
  ultimately show ?thesis using f(2) by (simp add: tmp_read_def tmp_file_read_ok)
qed

lemma tmp_write_dirs:
  assumes "tmp_write cpu now i d off st m = Some (r, st', m')"
  shows "dir_at st' j = dir_at st j"
  using assms unfolding tmp_write_def
  by (auto simp: dir_at_def bt_simps split: if_splits option.splits node_data.splits sum.splits)

lemma dir_lookup_eqI:
  assumes "dir_at st j \<noteq> None" "dir_at st' j \<noteq> None" "\<And>c. ent st j nm c = ent st' j nm c"
  shows "dir_lookup j nm st = dir_lookup j nm st'"
proof -
  have r: "dir_lookup j nm s = (case bt_get (the (dir_at s j)) nm of None \<Rightarrow> Inl ENOENT | Some c \<Rightarrow> Inr c)" if "dir_at s j \<noteq> None" for s
    using that by (auto simp: dir_lookup_def dir_at_def split: option.splits node_data.splits bind_splits)
  have "bt_get (the (dir_at st j)) nm = Some c \<longleftrightarrow> bt_get (the (dir_at st' j)) nm = Some c" for c
    using assms(1,2) assms(3) [of c] by (auto simp: ent_def)
  then have "bt_get (the (dir_at st j)) nm = bt_get (the (dir_at st' j)) nm" by (metis not_Some_eq)
  then show ?thesis using r assms(1,2) by simp
qed

section \<open>Properties\<close>

text \<open>
  C20. In every state a tmpfs reaches from mounting by any sequence of calls that return (creating fewer
  than 2^64 objects), with or without memory left: every directory entry leads to a node, no
  node has two entries, files own disjoint frames outside the free pool, and the free frames
  together with the frames of the files are exactly the frames that were free at mount time.
  In such a state \<open>unlink\<close> and \<open>rmdir\<close> never panic, and neither do \<open>write\<close> and \<open>truncate\<close> when they end at
  least one page below \<open>2 ^ 64\<close>.  A truncation to a greater length panics exactly when the
  object is a file.
\<close>

theorem tmpfs_invariant:
  assumes "phys_inv (m_phys m0)" "fs_step\<^sup>*\<^sup>* (tmp_state_new, m0) (st, m)"
  shows "fs_inv st m \<and> all_frames st m = frame_pool (m_phys m0) \<and>
    tmp_unlink cpu i name st m \<noteq> None \<and> tmp_rmdir cpu i name st m \<noteq> None \<and>
    (unat off + length d \<le> 2 ^ 64 - TMPFS_PAGE_SIZE \<longrightarrow> tmp_write cpu now i d off st m \<noteq> None) \<and>
    (unat off \<le> 2 ^ 64 - TMPFS_PAGE_SIZE \<longrightarrow> tmp_truncate cpu now i off st m \<noteq> None) \<and>
    (2 ^ 64 - TMPFS_PAGE_SIZE < unat off \<longrightarrow> (tmp_truncate cpu now i off st m = None \<longleftrightarrow> file_at st i \<noteq> None))"
proof -
  note n = tmp_state_new_inv [OF assms(1)]
  have k: "fs_kept tmp_state_new m0 st m" using fs_run_kept [OF assms(2)] n(1) by simp
  then have i: "fs_inv st m" "all_frames st m = frame_pool (m_phys m0)" using n(2) by (simp_all add: fs_kept_def)
  then show ?thesis
    using unlink_kept [OF i(1), of cpu i name] rmdir_kept [OF i(1), of cpu i name]
      write_kept [OF i(1), of off d cpu now i] truncate_kept [OF i(1), of off cpu now i]
      truncate_huge_file [OF i(1), of off cpu now i] by auto
qed

theorem tmpfs_invariant_witness:
  "\<exists>st. fs_step\<^sup>*\<^sup>* (tmp_state_new, one_frame_memory) (st, one_frame_memory) \<and> fs_inv st one_frame_memory \<and>
     all_frames st one_frame_memory = {256}"
proof -
  let ?st = "snd (tmp_create (0, 0) 5 1 ''a'' 0 tmp_state_new)"
  have "fs_step (tmp_state_new, one_frame_memory) (?st, one_frame_memory)"
    by (rule fs_step.create) (simp add: tmp_state_new_def)
  then have r: "fs_step\<^sup>*\<^sup>* (tmp_state_new, one_frame_memory) (?st, one_frame_memory)" by blast
  have p: "phys_inv (m_phys one_frame_memory)" "frame_pool (m_phys one_frame_memory) = {256}"
    by (simp_all add: one_frame_memory_def one_frame_state_facts)
  show ?thesis using tmpfs_invariant [OF p(1) r] r p(2) by metis
qed

text \<open>
  C21. A file that has just been created is found under its name and empty; what is written to it is
  read back, and no other file and no other name changes.  The write can only fail for lack
  of memory.
\<close>

theorem create_write_read:
  assumes "fs_inv st m" "dir_at st i \<noteq> None" "unat (ts_next_ino st) + 1 < 2 ^ 64" "length d \<le> 2 ^ 64 - TMPFS_PAGE_SIZE"
  shows "\<exists>ino st1. tmp_create cred now i name mode st = (Inr ino, st1) \<and> tmp_lookup i name st1 = Inr ino \<and> i_size ino = 0 \<and>
    s_isreg (i_mode ino) \<and>
    (\<exists>r st2 m2. tmp_write cpu now' (i_ino ino) d 0 st1 m = Some (r, st2, m2) \<and>
      (r = Inr (length d) \<and> tmp_read (i_ino ino) n 0 st2 m2 = Some (Inr (take n d)) \<or> r = Inl ENOMEM) \<and>
      (\<forall>j. j \<noteq> i_ino ino \<longrightarrow> bytes_at st2 m2 j = bytes_at st m j) \<and>
      (\<forall>j nm. (j, nm) \<noteq> (i, name) \<longrightarrow> dir_at st j \<noteq> None \<longrightarrow> dir_lookup j nm st2 = dir_lookup j nm st))"
proof -
  let ?c = "ts_next_ino st"
  have inv: "tree_inv st" using assms(1) by (simp add: fs_inv_def)
  obtain ino st1 where create: "tmp_create cred now i name mode st = (Inr ino, st1)" "tmp_lookup i name st1 = Inr ino"
    and ino: "i_ino ino = ?c" "i_size ino = 0" "s_isreg (i_mode ino)" and i1: "fs_inv st1 m"
    and c: "\<forall>j nm c. ent st1 j nm c \<longleftrightarrow> (if (j, nm) = (i, name) then c = ?c else ent st j nm c)"
      "\<forall>j. file_at st1 j = (if j = ?c then Some tmp_file_new else file_at st j)"
      "\<forall>j. j \<noteq> ?c \<longrightarrow> (dir_at st1 j = None \<longleftrightarrow> dir_at st j = None)"
    using tmp_create_ok [OF assms(1,2,3), of cred now name mode] by auto
  have nc: "j \<noteq> ?c" if "dir_at st j \<noteq> None" for j using that next_ino_free [OF inv] by (auto simp: dir_at_def)
  obtain r st2 m2 where w: "tmp_write cpu now' ?c d 0 st1 m = Some (r, st2, m2)" "fs_kept st1 m st2 m2"
    "\<And>j. j \<noteq> ?c \<Longrightarrow> bytes_at st2 m2 j = bytes_at st1 m j" "\<And>k nm c. ent st2 k nm c = ent st1 k nm c"
    "\<And>xs. bytes_at st1 m ?c = Some xs \<Longrightarrow> r = Inr (length d) \<and> bytes_at st2 m2 ?c = Some (overlay (unat 0) d xs) \<or>
       r = Inl ENOMEM \<and> bytes_at st2 m2 ?c = Some xs"
    using write_kept [OF i1, of 0 d cpu now' ?c] assms(4) by auto
  have "r = Inr (length d) \<and> bytes_at st2 m2 ?c = Some d \<or> r = Inl ENOMEM"
    using w(5) [of "[]"] c(2) by (auto simp: bytes_at_def content_def tmp_file_new_def overlay_def)
  then have "r = Inr (length d) \<and> tmp_read ?c n 0 st2 m2 = Some (Inr (take n d)) \<or> r = Inl ENOMEM"
    using tmp_read_bytes [of st2 m2 ?c d n 0] w(2) by (auto simp: fs_kept_def)
  moreover have "bytes_at st2 m2 j = bytes_at st m j" if "j \<noteq> ?c" for j
    using w(3) [OF that] c(2) that by (simp add: bytes_at_def)
  moreover have "dir_lookup j nm st2 = dir_lookup j nm st" if "(j, nm) \<noteq> (i, name)" "dir_at st j \<noteq> None" for j nm
    by (rule dir_lookup_eqI) (use that nc [of j] w(4) c(1,3) in \<open>auto simp: tmp_write_dirs [OF w(1)]\<close>)
  ultimately show ?thesis using create ino w(1) by auto
qed

theorem create_write_read_witness:
  "\<exists>ino st1 r st2 m2. tmp_create (0, 0) 5 1 ''a'' 0 tmp_state_new = (Inr ino, st1) \<and> tmp_lookup 1 ''a'' st1 = Inr ino \<and>
     tmp_write 0 6 (i_ino ino) [7, 8] 0 st1 one_frame_memory = Some (r, st2, m2) \<and>
     (r = Inr 2 \<and> tmp_read (i_ino ino) 9 0 st2 m2 = Some (Inr [7, 8]) \<or> r = Inl ENOMEM)"
proof -
  have p: "phys_inv (m_phys one_frame_memory)" by (simp add: one_frame_memory_def one_frame_state_facts)
  have "dir_at tmp_state_new 1 \<noteq> None" "unat (ts_next_ino tmp_state_new) + 1 < 2 ^ 64"
    by (simp_all add: dir_at_def tmp_state_new_def bt_get_def)
  moreover have "length [7, 8 :: u8] \<le> 2 ^ 64 - TMPFS_PAGE_SIZE" by (simp add: TMPFS_PAGE_SIZE_def)
  ultimately have "\<exists>ino st1. tmp_create (0, 0) 5 1 ''a'' 0 tmp_state_new = (Inr ino, st1) \<and> tmp_lookup 1 ''a'' st1 = Inr ino \<and>
     (\<exists>r st2 m2. tmp_write 0 6 (i_ino ino) [7, 8] 0 st1 one_frame_memory = Some (r, st2, m2) \<and>
       (r = Inr (length [7, 8 :: u8]) \<and> tmp_read (i_ino ino) 9 0 st2 m2 = Some (Inr (take 9 [7, 8])) \<or> r = Inl ENOMEM))"
    using create_write_read [OF tmp_state_new_inv(1) [OF p], of 1 "[7, 8]" "(0, 0)" 5 "''a''" 0 0 6 9] by meson
  then show ?thesis by (simp add: numeral_2_eq_2)
qed

text \<open>
  C22. A name that is already taken is silently given to the new object.  \<open>mkdir\<close> and \<open>rename\<close> onto an existing
  name succeed; the node that had the name stays in the table, with its frames if it
  is a file, but no directory leads to it any more, so it can never be removed.
\<close>

theorem existing_name_is_orphaned:
  assumes "fs_inv st m" "ent st i name c" "unat (ts_next_ino st) + 1 < 2 ^ 64"
  shows "(\<exists>ino st'. tmp_mkdir cred now i name mode st = (Inr ino, st') \<and> i_ino ino \<noteq> c \<and> ent st' i name (i_ino ino) \<and>
      unlinked c st' \<and> bt_get (ts_nodes st') c \<noteq> None \<and> owned st' c = owned st c) \<and>
    (ent st i old x \<and> old \<noteq> name \<longrightarrow>
      (\<exists>st'. tmp_rename i old i name st = (Inr (), st') \<and> ent st' i name x \<and>
        unlinked c st' \<and> bt_get (ts_nodes st') c \<noteq> None \<and> owned st' c = owned st c))"
proof (intro conjI impI)
  have inv: "tree_inv st" using assms(1) by (simp add: fs_inv_def)
  note only = tree_invD(4) [OF inv assms(2)]
  have here: "bt_get (ts_nodes st) c \<noteq> None" "dir_at st i \<noteq> None"
    using tree_invD(3) [OF inv assms(2)] assms(2) by (auto simp: ent_def)
  have cn: "c \<noteq> ts_next_ino st" using here(1) next_ino_free [OF inv] by auto
  define nd where "nd = \<lparr>n_ino = ts_next_ino st, n_mode = S_IFDIR OR (mode AND 0x1FF), n_uid = fst cred,
     n_gid = snd cred, n_data = NDir [], n_atime = sint now, n_mtime = sint now, n_ctime = sint now, n_nlink = 2\<rparr>"
  obtain ino st' where k: "finish_new i name (new_node nd st) = (Inr ino, st')" "make_inode (ts_next_ino st) st' = Inr ino"
    "\<And>j nm c. ent st' j nm c \<longleftrightarrow> (if (j, nm) = (i, name) then c = ts_next_ino st else ent st j nm c)"
    "\<And>j. j \<noteq> ts_next_ino st \<Longrightarrow> file_at st' j = file_at st j" "bt_get (ts_nodes st') c \<noteq> None"
    using finish_new_ok [OF inv here(2), of nd name] here(1) by (auto simp: nd_def)
  have "i_ino ino = ts_next_ino st" using k(2) by (auto simp: make_inode_def split: option.splits)
  moreover have "unlinked c st'" unfolding unlinked_def k(3) using only cn by (metis prod.inject)
  moreover have "owned st' c = owned st c" using k(4) [OF cn] by (simp add: owned_def)
  moreover have "tmp_mkdir cred now i name mode st = (Inr ino, st')"
    using k(1) by (simp add: tmp_mkdir_def make_new_node nd_def)
  ultimately show "\<exists>ino st'. tmp_mkdir cred now i name mode st = (Inr ino, st') \<and> i_ino ino \<noteq> c \<and> ent st' i name (i_ino ino) \<and>
      unlinked c st' \<and> bt_get (ts_nodes st') c \<noteq> None \<and> owned st' c = owned st c"
    using k(3,5) cn by auto
  assume x: "ent st i old x \<and> old \<noteq> name"
  let ?st1 = "set_dir i (bt_remove old) st"
  let ?st2 = "set_dir i (bt_insert name x) ?st1"
  have e: "ent ?st2 j nm y \<longleftrightarrow> (if (j, nm) = (i, name) then y = x else ent st j nm y \<and> (j, nm) \<noteq> (i, old))" for j nm y
    unfolding ent_set_dir_insert ent_set_dir_remove using here(2) by auto
  have "tmp_rename i old i name st = (Inr (), ?st2)"
    using x here(2) dir_lookup_ent [of i old st x] by (simp add: tmp_rename_def add_entry_cases)
  moreover have "unlinked c ?st2" unfolding unlinked_def e using only x by (metis prod.inject)
  ultimately show "\<exists>st'. tmp_rename i old i name st = (Inr (), st') \<and> ent st' i name x \<and>
        unlinked c st' \<and> bt_get (ts_nodes st') c \<noteq> None \<and> owned st' c = owned st c"
    using e here(1) by (simp add: owned_def del: not_None_eq)
qed

theorem existing_name_is_orphaned_witness:
  "\<exists>st st' ino. dir_lookup 1 ''a'' st = Inr 2 \<and> tmp_mkdir (0, 0) 6 1 ''a'' 0 st = (Inr ino, st') \<and> unlinked 2 st' \<and>
     bt_get (ts_nodes st') 2 \<noteq> None"
proof -
  let ?st = "snd (tmp_create (0, 0) 5 1 ''a'' 0 tmp_state_new)"
  have p: "phys_inv (m_phys one_frame_memory)" by (simp add: one_frame_memory_def one_frame_state_facts)
  have "fs_inv ?st one_frame_memory"
    using create_kept(1) [OF tmp_state_new_inv(1) [OF p], of "(0, 0)" 5 1 "''a''" 0]
    by (simp add: fs_kept_def tmp_state_new_def)
  moreover have l: "dir_lookup 1 ''a'' ?st = Inr 2" "unat (ts_next_ino ?st) + 1 < 2 ^ 64"
    by (simp_all add: dir_lookup_def tmp_create_def make_file_def alloc_ino_def finish_new_def add_entry_def set_dir_def
        make_inode_def tmp_state_new_def bt_get_def bt_adjust_def)
  ultimately show ?thesis
    using existing_name_is_orphaned [of ?st one_frame_memory 1 "''a''" 2 "(0, 0)" 6 0 "[]" 0] by (meson dir_lookup_ent)
qed

end
