(* ===== verification/Vfs_Paths.thy ===== *)
theory Vfs_Paths
  imports Fd_Table Tmpfs "HOL-Library.Sublist"
begin

text \<open>
  Path resolution in the virtual file system (kernel/src/vfs/mod.rs, from the mount table to
  \<open>resolve_inode_nofollow\<close>).  Mounted file systems are numbered; \<open>fs_ops\<close> holds the operations of the traits
  \<open>SuperblockOps\<close> and \<open>InodeOps\<close>, which act on the state \<open>'fs\<close> of all file systems and name an inode by its number.
  \<open>tmpfs_ops\<close> is the instance for tmpfs.  A changing operation may panic (None).

  The lemmas give the normal form of paths, the choice of the mount point, the end of symbolic
  link chains, and what a changed root confines.
\<close>

section \<open>Paths\<close>

abbreviation slash :: char where "slash \<equiv> CHR ''/''"

fun split_slash :: "string \<Rightarrow> string list" where
  "split_slash [] = [[]]"
| "split_slash (c # s) =
     (if c = slash then [] # split_slash s
      else case split_slash s of p # ps \<Rightarrow> (c # p) # ps | [] \<Rightarrow> [[c]])"

definition canon_step :: "string list \<Rightarrow> string \<Rightarrow> string list" where
  "canon_step parts c =
     (if c = [] \<or> c = ''.'' then parts else if c = ''..'' then butlast parts else parts @ [c])"

definition join_parts :: "string list \<Rightarrow> string" where
  "join_parts parts = concat (map (\<lambda>p. slash # p) parts)"

definition canonicalize :: "string \<Rightarrow> string" where
  "canonicalize path =
     (let parts = foldl canon_step [] (split_slash path) in if parts = [] then [slash] else join_parts parts)"

definition trim_start :: "string \<Rightarrow> string" where
  "trim_start s = dropWhile (\<lambda>c. c = slash) s"

definition trim_end :: "string \<Rightarrow> string" where
  "trim_end s = rev (dropWhile (\<lambda>c. c = slash) (rev s))"

definition starts_slash :: "string \<Rightarrow> bool" where
  "starts_slash s \<longleftrightarrow> s \<noteq> [] \<and> hd s = slash"

definition ends_slash :: "string \<Rightarrow> bool" where
  "ends_slash s \<longleftrightarrow> s \<noteq> [] \<and> last s = slash"

definition effective_root :: "kernel \<Rightarrow> string" where
  "effective_root k = (case bt_get (k_procs k) (k_current k) of
      None \<Rightarrow> [slash]
    | Some p \<Rightarrow>
        let ns_root = (if n_mnt_ns (p_namespaces p) = 0 then [slash] else mnt_ns_root (n_mnt_ns (p_namespaces p)) (k_ns k));
            chroot_root = get_root p (k_groups k) in
        if chroot_root = [slash] then ns_root else chroot_root)"

definition abs_path_in :: "string \<Rightarrow> string \<Rightarrow> string \<Rightarrow> string" where
  "abs_path_in root cwd path =
     (let raw =
        (if starts_slash path
         then if root = [slash] then canonicalize path
              else let stripped = trim_start path in
                   if stripped = [] then root else canonicalize (trim_end root @ slash # stripped)
         else canonicalize (if ends_slash cwd then cwd @ path else cwd @ slash # path)) in
      if root \<noteq> [slash] \<and> \<not> prefix root raw then root else raw)"

definition abs_path :: "kernel \<Rightarrow> string \<Rightarrow> string \<Rightarrow> string" where
  "abs_path k cwd path = abs_path_in (effective_root k) cwd path"

definition rfind_slash :: "string \<Rightarrow> nat option" where
  "rfind_slash s =
     (if slash \<in> set s then Some (length s - 1 - length (takeWhile (\<lambda>c. c \<noteq> slash) (rev s))) else None)"

definition split_path :: "string \<Rightarrow> string \<times> string" where
  "split_path path = (case rfind_slash path of
      Some pos \<Rightarrow>
        if pos = 0 \<and> starts_slash path then ([slash], drop 1 path)
        else (if take pos path = [] then [slash] else take pos path, drop (pos + 1) path)
    | None \<Rightarrow> (''.'', path))"

section \<open>Mounts\<close>

record mount_point =
  mp_path :: string
  mp_sb :: nat

definition vfs_mount :: "string \<Rightarrow> nat \<Rightarrow> mount_point list \<Rightarrow> mount_point list" where
  "vfs_mount path sb ms = filter (\<lambda>mp. mp_path mp \<noteq> path) ms @ [\<lparr>mp_path = path, mp_sb = sb\<rparr>]"

definition vfs_umount :: "string \<Rightarrow> mount_point list \<Rightarrow> bool \<times> mount_point list" where
  "vfs_umount path ms =
     (let ms' = filter (\<lambda>mp. mp_path mp \<noteq> path) ms in (length ms' < length ms, ms'))"

definition covers :: "string \<Rightarrow> mount_point \<Rightarrow> bool" where
  "covers ap mp \<longleftrightarrow> prefix (mp_path mp) ap \<and>
     (let rest = drop (length (mp_path mp)) ap in rest = [] \<or> starts_slash rest \<or> mp_path mp = [slash])"

fun best_mount :: "string \<Rightarrow> (nat \<times> mount_point) option \<Rightarrow> mount_point list \<Rightarrow> (nat \<times> mount_point) option" where
  "best_mount ap best [] = best"
| "best_mount ap best (mp # ms) =
     best_mount ap
       (if covers ap mp \<and> (case best of None \<Rightarrow> True | Some (l, _) \<Rightarrow> l < length (mp_path mp))
        then Some (length (mp_path mp), mp) else best) ms"

definition find_mount :: "mount_point list \<Rightarrow> string \<Rightarrow> (nat \<times> string) option" where
  "find_mount ms ap = map_option (\<lambda>(len, mp).
      let rel = (if len < length ap then trim_start (drop len ap) else []) in
      (mp_sb mp, if rel = [] then [slash] else rel)) (best_mount ap None ms)"

section \<open>File systems\<close>

record 'fs fs_ops =
  fo_root :: "nat \<Rightarrow> 'fs \<Rightarrow> vfs_error + inode"
  fo_lookup :: "nat \<Rightarrow> u64 \<Rightarrow> string \<Rightarrow> 'fs \<Rightarrow> vfs_error + inode"
  fo_readlink :: "nat \<Rightarrow> u64 \<Rightarrow> 'fs \<Rightarrow> vfs_error + string"
  fo_device_minor :: "nat \<Rightarrow> u64 \<Rightarrow> u32 option"
  fo_create :: "nat \<Rightarrow> u64 \<Rightarrow> string \<Rightarrow> u32 \<Rightarrow> 'fs \<Rightarrow> ((vfs_error + inode) \<times> 'fs) option"
  fo_mkdir :: "nat \<Rightarrow> u64 \<Rightarrow> string \<Rightarrow> u32 \<Rightarrow> 'fs \<Rightarrow> ((vfs_error + inode) \<times> 'fs) option"
  fo_symlink :: "nat \<Rightarrow> u64 \<Rightarrow> string \<Rightarrow> string \<Rightarrow> 'fs \<Rightarrow> ((vfs_error + inode) \<times> 'fs) option"
  fo_unlink :: "nat \<Rightarrow> u64 \<Rightarrow> string \<Rightarrow> 'fs \<Rightarrow> ((vfs_error + unit) \<times> 'fs) option"
  fo_rmdir :: "nat \<Rightarrow> u64 \<Rightarrow> string \<Rightarrow> 'fs \<Rightarrow> ((vfs_error + unit) \<times> 'fs) option"
  fo_rename :: "nat \<Rightarrow> u64 \<Rightarrow> string \<Rightarrow> u64 \<Rightarrow> string \<Rightarrow> 'fs \<Rightarrow> ((vfs_error + unit) \<times> 'fs) option"
  fo_truncate :: "nat \<Rightarrow> u64 \<Rightarrow> u64 \<Rightarrow> 'fs \<Rightarrow> ((vfs_error + unit) \<times> 'fs) option"
  fo_read :: "nat \<Rightarrow> u64 \<Rightarrow> nat \<Rightarrow> u64 \<Rightarrow> 'fs \<Rightarrow> (vfs_error + u8 list) option"
  fo_write :: "nat \<Rightarrow> u64 \<Rightarrow> u8 list \<Rightarrow> u64 \<Rightarrow> 'fs \<Rightarrow> ((vfs_error + nat) \<times> 'fs) option"
  fo_readdir :: "nat \<Rightarrow> u64 \<Rightarrow> 'fs \<Rightarrow> vfs_error + dir_entry list"

definition on_state :: "nat \<Rightarrow> (tmp_state \<Rightarrow> 'r \<times> tmp_state) \<Rightarrow> tmp_state list \<times> memory \<Rightarrow> ('r \<times> tmp_state list \<times> memory) option" where
  "on_state sb g fs = (let (r, st) = g (fst fs ! sb) in Some (r, (fst fs)[sb := st], snd fs))"

definition on_memory ::
    "nat \<Rightarrow> (tmp_state \<Rightarrow> memory \<Rightarrow> ('r \<times> tmp_state \<times> memory) option) \<Rightarrow> tmp_state list \<times> memory \<Rightarrow>
      ('r \<times> tmp_state list \<times> memory) option" where
  "on_memory sb g fs = map_option (\<lambda>(r, st, m). (r, (fst fs)[sb := st], m)) (g (fst fs ! sb) (snd fs))"

definition tmpfs_ops :: "nat \<Rightarrow> u32 \<times> u32 \<Rightarrow> u64 \<Rightarrow> (tmp_state list \<times> memory) fs_ops" where
  "tmpfs_ops cpu cred now = \<lparr>
     fo_root = (\<lambda>sb fs. tmp_get_root (fst fs ! sb)),
     fo_lookup = (\<lambda>sb ino name fs. tmp_lookup ino name (fst fs ! sb)),
     fo_readlink = (\<lambda>sb ino fs. tmp_readlink ino (fst fs ! sb)),
     fo_device_minor = (\<lambda>sb ino. None),
     fo_create = (\<lambda>sb ino name mode. on_state sb (tmp_create cred now ino name mode)),
     fo_mkdir = (\<lambda>sb ino name mode. on_state sb (tmp_mkdir cred now ino name mode)),
     fo_symlink = (\<lambda>sb ino name target. on_state sb (tmp_symlink cred now ino name target)),
     fo_unlink = (\<lambda>sb ino name. on_memory sb (tmp_unlink cpu ino name)),
     fo_rmdir = (\<lambda>sb ino name. on_memory sb (tmp_rmdir cpu ino name)),
     fo_rename = (\<lambda>sb ino old np new. on_state sb (tmp_rename ino old np new)),
     fo_truncate = (\<lambda>sb ino len. on_memory sb (tmp_truncate cpu now ino len)),
     fo_read = (\<lambda>sb ino len offset fs. tmp_read ino len offset (fst fs ! sb) (snd fs)),
     fo_write = (\<lambda>sb ino data offset. on_memory sb (tmp_write cpu now ino data offset)),
     fo_readdir = (\<lambda>sb ino fs. tmp_readdir ino (fst fs ! sb))\<rparr>"

definition path_parts :: "string \<Rightarrow> string list" where
  "path_parts rel = filter (\<lambda>s. s \<noteq> []) (split_slash rel)"

fun walk :: "'fs fs_ops \<Rightarrow> nat \<Rightarrow> 'fs \<Rightarrow> inode \<Rightarrow> string list \<Rightarrow> vfs_error + inode" where
  "walk ops sb fs cur [] = Inr cur"
| "walk ops sb fs cur (p # ps) =
     (case fo_lookup ops sb (i_ino cur) p fs of Inl e \<Rightarrow> Inl e | Inr child \<Rightarrow> walk ops sb fs child ps)"

text \<open>The loop of \<open>resolve_inode_inner\<close>: a link stops it, with the number of parts from the link on.\<close>

datatype walk_result = WFound inode | WError vfs_error | WLink string nat

fun walk_links :: "'fs fs_ops \<Rightarrow> nat \<Rightarrow> 'fs \<Rightarrow> bool \<Rightarrow> inode \<Rightarrow> string list \<Rightarrow> walk_result" where
  "walk_links ops sb fs follow cur [] = WFound cur"
| "walk_links ops sb fs follow cur (p # ps) =
     (case fo_lookup ops sb (i_ino cur) p fs of
        Inl e \<Rightarrow> WError e
      | Inr child \<Rightarrow>
          if s_islnk (i_mode child) \<and> (follow \<or> ps \<noteq> [])
          then (case fo_readlink ops sb (i_ino child) fs of Inl e \<Rightarrow> WError e | Inr target \<Rightarrow> WLink target (length (p # ps)))
          else walk_links ops sb fs follow child ps)"

definition cut_last :: "string \<Rightarrow> string" where
  "cut_last s = (case rfind_slash s of None \<Rightarrow> s | Some pos \<Rightarrow> take pos s)"

abbreviation MAX_SYMLINK_DEPTH :: nat where "MAX_SYMLINK_DEPTH \<equiv> 40"

function resolve_inode_inner ::
    "'fs fs_ops \<Rightarrow> mount_point list \<Rightarrow> string \<Rightarrow> 'fs \<Rightarrow> string \<Rightarrow> bool \<Rightarrow> nat \<Rightarrow> vfs_error + (nat \<times> inode)" where
  "resolve_inode_inner ops ms root fs ap follow depth =
     (if MAX_SYMLINK_DEPTH < depth then Inl ELOOP
      else case find_mount ms ap of
        None \<Rightarrow> Inl ENOENT
      | Some (sb, rel) \<Rightarrow>
          (case fo_root ops sb fs of
             Inl e \<Rightarrow> Inl e
           | Inr r \<Rightarrow>
               (case walk_links ops sb fs follow r (path_parts rel) of
                  WFound i \<Rightarrow> Inr (sb, i)
                | WError e \<Rightarrow> Inl e
                | WLink target n \<Rightarrow>
                    resolve_inode_inner ops ms root fs
                      (if starts_slash target then canonicalize target
                       else abs_path_in root [slash] ((cut_last ^^ n) ap @ slash # target))
                      follow (depth + 1))))"
  by pat_completeness auto
termination resolve_inode_inner
  by (relation "measure (\<lambda>(ops, ms, root, fs, ap, follow, depth). Suc MAX_SYMLINK_DEPTH - depth)") auto

declare resolve_inode_inner.simps [simp del]

definition resolve_inode ::
    "'fs fs_ops \<Rightarrow> mount_point list \<Rightarrow> kernel \<Rightarrow> 'fs \<Rightarrow> string \<Rightarrow> string \<Rightarrow> vfs_error + (nat \<times> inode)" where
  "resolve_inode ops ms k fs cwd path =
     resolve_inode_inner ops ms (effective_root k) fs (abs_path k cwd path) True 0"

definition resolve_inode_nofollow ::
    "'fs fs_ops \<Rightarrow> mount_point list \<Rightarrow> kernel \<Rightarrow> 'fs \<Rightarrow> string \<Rightarrow> string \<Rightarrow> vfs_error + (nat \<times> inode)" where
  "resolve_inode_nofollow ops ms k fs cwd path =
     resolve_inode_inner ops ms (effective_root k) fs (abs_path k cwd path) False 0"

section \<open>The normal form of paths\<close>

definition normal :: "string \<Rightarrow> bool" where
  "normal c \<longleftrightarrow> c \<noteq> [] \<and> c \<noteq> ''.'' \<and> c \<noteq> ''..'' \<and> slash \<notin> set c"

definition parts_of :: "string \<Rightarrow> string list" where
  "parts_of path = foldl canon_step [] (split_slash path)"

definition path_of :: "string list \<Rightarrow> string" where
  "path_of ps = (if ps = [] then [slash] else join_parts ps)"

lemma canonicalize_path_of: "canonicalize path = path_of (parts_of path)"
  by (simp add: canonicalize_def parts_of_def path_of_def Let_def)

lemma split_slash_not_Nil [simp]: "split_slash s \<noteq> []"
  by (induction s) (auto split: list.splits)

lemma split_slash_no_slash: "p \<in> set (split_slash s) \<Longrightarrow> slash \<notin> set p"
  by (induction s arbitrary: p) (auto split: list.splits if_splits)

lemma split_slash_plain [simp]: "slash \<notin> set s \<Longrightarrow> split_slash s = [s]"
  by (induction s) auto

lemma split_slash_append: "split_slash (a @ slash # b) = split_slash a @ split_slash b"
  by (induction a) (auto split: list.splits)

lemma split_slash_join:
  "\<forall>p\<in>set ps. slash \<notin> set p \<Longrightarrow> split_slash (join_parts ps) = [] # ps"
proof (induction ps rule: rev_induct)
  case (snoc p ps)
  have "join_parts (ps @ [p]) = join_parts ps @ slash # p" by (simp add: join_parts_def)
  then show ?case using snoc by (simp only: split_slash_append) simp
qed (simp add: join_parts_def)

lemma foldl_canon_normal:
  "\<forall>p\<in>set ps. normal p \<Longrightarrow> foldl canon_step acc ps = acc @ ps"
  by (induction ps arbitrary: acc) (auto simp: canon_step_def normal_def)

lemma canon_step_normal:
  "\<forall>p\<in>set acc. normal p \<Longrightarrow> slash \<notin> set c \<Longrightarrow> \<forall>p\<in>set (canon_step acc c). normal p"
  by (auto simp: canon_step_def normal_def dest: in_set_butlastD)

lemma foldl_canon_keeps_normal:
  "\<forall>p\<in>set acc. normal p \<Longrightarrow> \<forall>c\<in>set cs. slash \<notin> set c \<Longrightarrow> \<forall>p\<in>set (foldl canon_step acc cs). normal p"
proof (induction cs arbitrary: acc)
  case (Cons c cs)
  have "\<forall>p\<in>set (canon_step acc c). normal p" using Cons.prems by (intro canon_step_normal) simp_all
  then show ?case using Cons by simp
qed simp

lemma parts_of_normal: "p \<in> set (parts_of path) \<Longrightarrow> normal p"
  using foldl_canon_keeps_normal [of "[]" "split_slash path"] split_slash_no_slash by (auto simp: parts_of_def)

lemma parts_of_path_of:
  assumes "\<forall>p\<in>set ps. normal p"
  shows "parts_of (path_of ps) = ps"
proof (cases "ps = []")
  case False
  have "\<forall>p\<in>set ps. slash \<notin> set p" using assms by (simp add: normal_def)
  then have "split_slash (path_of ps) = [] # ps" using False split_slash_join by (simp add: path_of_def)
  then show ?thesis using foldl_canon_normal [OF assms, of "[]"] by (simp add: parts_of_def canon_step_def)
qed (simp add: path_of_def parts_of_def canon_step_def)

lemma parts_of_append: "parts_of (a @ slash # b) = foldl canon_step (parts_of a) (split_slash b)"
  by (simp add: parts_of_def split_slash_append)

lemma canonicalize_idem: "canonicalize (canonicalize path) = canonicalize path"
  by (simp add: canonicalize_path_of parts_of_path_of parts_of_normal)

lemma canonicalize_base: "canonicalize (canonicalize a @ slash # b) = canonicalize (a @ slash # b)"
  by (simp add: canonicalize_path_of parts_of_append parts_of_path_of parts_of_normal)

section \<open>Mount points and components\<close>

lemma prefix_path_of:
  assumes "\<forall>p\<in>set xs. normal p" "\<forall>p\<in>set ys. normal p" "xs \<noteq> []"
  shows "prefix (join_parts xs) (join_parts ys) \<and>
      (let rest = drop (length (join_parts xs)) (join_parts ys) in rest = [] \<or> starts_slash rest) \<longleftrightarrow> prefix xs ys"
proof
  assume a: "prefix (join_parts xs) (join_parts ys) \<and>
      (let rest = drop (length (join_parts xs)) (join_parts ys) in rest = [] \<or> starts_slash rest)"
  then obtain r where r: "join_parts ys = join_parts xs @ r" "r = [] \<or> starts_slash r"
    by (auto simp: prefix_def Let_def)
  have ns: "split_slash (join_parts xs) = [] # xs" "split_slash (join_parts ys) = [] # ys"
    using assms(1,2) by (simp_all add: split_slash_join normal_def)
  show "prefix xs ys"
  proof (cases r)
    case Nil
    then have "[] # xs = [] # ys" using r(1) ns by simp
    then show ?thesis by simp
  next
    case (Cons c b)
    then have "split_slash (join_parts ys) = split_slash (join_parts xs) @ split_slash b"
      using r by (simp add: starts_slash_def split_slash_append)
    then show ?thesis using ns by (auto simp: prefix_def)
  qed
next
  assume "prefix xs ys"
  then obtain zs where z: "ys = xs @ zs" by (auto simp: prefix_def)
  then have j: "join_parts ys = join_parts xs @ join_parts zs" by (simp add: join_parts_def)
  have "join_parts zs = [] \<or> starts_slash (join_parts zs)" by (cases zs) (simp_all add: join_parts_def starts_slash_def)
  then show "prefix (join_parts xs) (join_parts ys) \<and>
      (let rest = drop (length (join_parts xs)) (join_parts ys) in rest = [] \<or> starts_slash rest)"
    using j by (simp add: Let_def)
qed

lemma covers_components:
  assumes "\<forall>p\<in>set xs. normal p" "\<forall>p\<in>set ys. normal p" "mp_path mp = path_of xs"
  shows "covers (path_of ys) mp \<longleftrightarrow> prefix xs ys"
proof (cases "xs = []")
  case True
  then have "mp_path mp = [slash]" using assms(3) by (simp add: path_of_def)
  moreover have "prefix [slash] (path_of ys)" by (cases ys) (simp_all add: path_of_def join_parts_def)
  ultimately show ?thesis using True by (simp add: covers_def)
next
  case xs: False
  then have mp: "mp_path mp = join_parts xs" using assms(3) by (simp add: path_of_def)
  obtain x xs' where x: "xs = x # xs'" using xs by (cases xs) auto
  have two: "2 \<le> length (join_parts xs)" using assms(1) x by (cases x) (simp_all add: join_parts_def normal_def)
  then have ne: "mp_path mp \<noteq> [slash]" using mp by auto
  show ?thesis
  proof (cases "ys = []")
    case True
    have "\<not> prefix (join_parts xs) [slash]" using two prefix_length_le [of "join_parts xs" "[slash]"] by auto
    then show ?thesis using True mp xs by (simp add: covers_def path_of_def)
  next
    case False
    then show ?thesis using prefix_path_of [OF assms(1,2) xs] mp ne by (simp add: covers_def path_of_def)
  qed
qed

lemma best_mount_spec:
  assumes "\<And>l mp. best = Some (l, mp) \<Longrightarrow> covers ap mp \<and> l = length (mp_path mp)"
  shows "case best_mount ap best ms of
      None \<Rightarrow> best = None \<and> (\<forall>mp\<in>set ms. \<not> covers ap mp)
    | Some (l, mp) \<Rightarrow> covers ap mp \<and> l = length (mp_path mp) \<and> (mp \<in> set ms \<or> best = Some (l, mp)) \<and>
        (\<forall>mp'\<in>set ms. covers ap mp' \<longrightarrow> length (mp_path mp') \<le> l) \<and> (\<forall>l' mp'. best = Some (l', mp') \<longrightarrow> l' \<le> l)"
  using assms
proof (induction ms arbitrary: best)
  case Nil
  then show ?case by (cases best) auto
next
  case (Cons m ms)
  define b where "b = (if covers ap m \<and> (case best of None \<Rightarrow> True | Some (l, _) \<Rightarrow> l < length (mp_path m))
    then Some (length (mp_path m), m) else best)"
  have ok: "covers ap mp \<and> l = length (mp_path mp)" if "b = Some (l, mp)" for l mp
    using that Cons.prems by (auto simp: b_def split: if_splits)
  note ih = Cons.IH [of b, OF ok]
  have eq: "best_mount ap best (m # ms) = best_mount ap b ms" by (simp add: b_def)
  show ?case
  proof (cases "best_mount ap b ms")
    case None
    then have "b = None" using ih by simp
    then have "best = None" "\<not> covers ap m" by (auto simp: b_def split: if_splits)
    then show ?thesis using ih None eq by simp
  next
    case (Some lm)
    obtain l mp where lm: "lm = (l, mp)" by (cases lm)
    have i: "covers ap mp" "l = length (mp_path mp)" "mp \<in> set ms \<or> b = Some (l, mp)"
      "\<forall>mp'\<in>set ms. covers ap mp' \<longrightarrow> length (mp_path mp') \<le> l" "\<And>l' mp'. b = Some (l', mp') \<Longrightarrow> l' \<le> l"
      using ih unfolding Some lm option.case prod.case by blast+
    have "length (mp_path m) \<le> l \<and> (\<forall>l' mp'. best = Some (l', mp') \<longrightarrow> l' \<le> l)" if "b = Some (length (mp_path m), m)" "covers ap m"
      using i(5) [OF that(1)] that by (auto simp: b_def split: if_splits option.splits)
    moreover have "(covers ap m \<longrightarrow> length (mp_path m) \<le> l) \<and> (\<forall>l' mp'. best = Some (l', mp') \<longrightarrow> l' \<le> l)"
      if "b = best" "\<not> (covers ap m \<and> (case best of None \<Rightarrow> True | Some (l, _) \<Rightarrow> l < length (mp_path m)))"
      using i(5) that by (cases best) fastforce+
    moreover have "mp = m \<or> mp \<in> set ms \<or> best = Some (l, mp)" using i(3) by (auto simp: b_def split: if_splits)
    ultimately show ?thesis using i(1,2,4) eq Some lm by (auto simp: b_def split: if_splits)
  qed
qed

lemma trim_start_join: "\<forall>p\<in>set zs. normal p \<Longrightarrow> split_slash (trim_start (join_parts zs)) = (if zs = [] then [[]] else zs)"
proof (cases zs)
  case (Cons z zs')
  assume n: "\<forall>p\<in>set zs. normal p"
  obtain c w where z: "z = c # w" "c \<noteq> slash" using n Cons by (cases z) (auto simp: normal_def)
  then have "trim_start (join_parts zs) = z @ join_parts zs'" using Cons by (simp add: trim_start_def join_parts_def)
  moreover have "split_slash (z @ join_parts zs') = z # zs'"
  proof (cases zs')
    case Nil
    then show ?thesis using n Cons by (simp add: join_parts_def normal_def)
  next
    case (Cons y ys)
    have "z @ join_parts zs' = z @ slash # (y @ join_parts ys)" using Cons by (simp add: join_parts_def)
    moreover have "split_slash (slash # (y @ join_parts ys)) = [] # zs'"
      using split_slash_join [of zs'] n \<open>zs = z # zs'\<close> Cons by (simp add: join_parts_def normal_def)
    ultimately show ?thesis using n \<open>zs = z # zs'\<close> by (simp add: split_slash_append normal_def)
  qed
  ultimately show ?thesis using Cons by simp
qed (simp add: trim_start_def join_parts_def)

lemma find_mount_parts:
  assumes "\<forall>p\<in>set ys. normal p" "\<forall>p\<in>set xs. normal p" "mp_path mp = path_of xs" "prefix xs ys"
    and "best_mount (path_of ys) None ms = Some (length (mp_path mp), mp)"
  shows "\<exists>rel. find_mount ms (path_of ys) = Some (mp_sb mp, rel) \<and> path_parts rel = drop (length xs) ys"
proof -
  obtain zs where z: "ys = xs @ zs" using assms(4) by (auto simp: prefix_def)
  let ?len = "length (mp_path mp)"
  let ?rel = "if ?len < length (path_of ys) then trim_start (drop ?len (path_of ys)) else []"
  have nz: "\<forall>p\<in>set zs. normal p" using assms(1) z by simp
  have j: "join_parts ys = join_parts xs @ join_parts zs" by (simp add: z join_parts_def)
  have rel: "?rel = trim_start (join_parts zs)"
  proof (cases "xs = []")
    case True
    then show ?thesis using assms(3) z
      by (cases zs) (auto simp: path_of_def trim_start_def join_parts_def)
  next
    case False
    then have "path_of ys = join_parts xs @ join_parts zs" "?len = length (join_parts xs)"
      using assms(3) z j by (simp_all add: path_of_def)
    then show ?thesis by (simp add: trim_start_def)
  qed
  have parts: "path_parts (if trim_start (join_parts zs) = [] then [slash] else trim_start (join_parts zs)) = zs"
  proof (cases "zs = []")
    case True
    then show ?thesis by (simp add: path_parts_def trim_start_def join_parts_def)
  next
    case False
    then have t: "split_slash (trim_start (join_parts zs)) = zs" using trim_start_join [OF nz] by simp
    moreover have "[] \<notin> set zs" using nz by (auto simp: normal_def)
    ultimately have "trim_start (join_parts zs) \<noteq> []" "filter (\<lambda>s. s \<noteq> []) zs = zs" using False by (auto intro: filter_True)
    then show ?thesis using t by (simp add: path_parts_def)
  qed
  have "find_mount ms (path_of ys) = Some (mp_sb mp, if ?rel = [] then [slash] else ?rel)"
    using assms(5) by (simp add: find_mount_def Let_def)
  moreover have "drop (length xs) ys = zs" by (simp add: z)
  ultimately show ?thesis using parts unfolding rel by blast
qed

section \<open>Links\<close>

lemma resolve_link:
  assumes "find_mount ms ap = Some (sb, rel)" "fo_root ops sb fs = Inr r"
    and "walk_links ops sb fs follow r (path_parts rel) = WLink target n" "starts_slash target" "depth \<le> MAX_SYMLINK_DEPTH"
  shows "resolve_inode_inner ops ms root fs ap follow depth =
    resolve_inode_inner ops ms root fs (canonicalize target) follow (depth + 1)"
  using assms by (subst resolve_inode_inner.simps) simp

section \<open>Properties\<close>

text \<open>
  C30. What \<open>canonicalize\<close> computes, component by component.  The normal form of any path is
  the root or a sequence of components, each after a slash, none empty, \<open>.\<close> or \<open>..\<close>.  The
  normal form of a single component is the root followed by it, and the root alone for
  an empty component, \<open>.\<close> and \<open>..\<close>.  Appending a component to a path leaves the normal
  form unchanged if it is empty or \<open>.\<close>, takes away the last component if it is \<open>..\<close> (the root
  stays the root), and adds the component at the end otherwise.  Paths in normal form
  are not changed, and a base path may be normalised before another path is appended.
\<close>

theorem canonicalize_normal:
  "(\<exists>ps. list_all normal ps \<and> canonicalize path = path_of ps \<and>
      (slash \<notin> set c \<longrightarrow> canonicalize (path @ slash # c) =
         path_of (if c = [] \<or> c = ''.'' then ps else if c = ''..'' then butlast ps else ps @ [c]))) \<and>
   (slash \<notin> set c \<longrightarrow> canonicalize c = path_of (if c = [] \<or> c = ''.'' \<or> c = ''..'' then [] else [c])) \<and>
   (list_all normal qs \<longrightarrow> canonicalize (path_of qs) = path_of qs) \<and>
   canonicalize (canonicalize path @ slash # rel) = canonicalize (path @ slash # rel)"
proof (intro conjI impI)
  show "\<exists>ps. list_all normal ps \<and> canonicalize path = path_of ps \<and>
      (slash \<notin> set c \<longrightarrow> canonicalize (path @ slash # c) =
         path_of (if c = [] \<or> c = ''.'' then ps else if c = ''..'' then butlast ps else ps @ [c]))"
    using parts_of_normal [of _ path]
    by (intro exI [of _ "parts_of path"]) (simp add: canonicalize_path_of parts_of_append canon_step_def list_all_iff)
  show "canonicalize c = path_of (if c = [] \<or> c = ''.'' \<or> c = ''..'' then [] else [c])" if "slash \<notin> set c"
    using that by (simp add: canonicalize_path_of parts_of_def canon_step_def)
  show "canonicalize (path_of qs) = path_of qs" if "list_all normal qs"
    using parts_of_path_of [of qs] that by (simp add: canonicalize_path_of list_all_iff)
qed (rule canonicalize_base)

theorem canonicalize_normal_witness:
  "canonicalize ''a'' = ''/a'' \<and> canonicalize ''/a/c'' = ''/a/c'' \<and> canonicalize (''/a/./b//..'' @ slash # ''c'') = ''/a/c''"
proof -
  have n: "list_all normal [''a'', ''c'']" by (simp add: normal_def)
  have p: "path_of [''a'', ''c''] = ''/a/c''" "path_of [''a''] = ''/a''" by (simp_all add: path_of_def join_parts_def)
  note t = canonicalize_normal [of "''/a/./b//..''" "''a''" "[''a'', ''c'']" "''c''"]
  have "canonicalize ''a'' = ''/a''" using t p by simp
  moreover have ac: "canonicalize ''/a/c'' = ''/a/c''" using t n p by simp
  moreover have "canonicalize ''/a/./b//..'' = ''/a''" by (simp add: canonicalize_def canon_step_def join_parts_def)
  then have "canonicalize (''/a/./b//..'' @ slash # ''c'') = ''/a/c''" using t ac by simp
  ultimately show ?thesis by simp
qed

text \<open>
  C29. The file system that serves a path is the one mounted at the longest sequence of leading
  components.  If every mount path is in normal form, \<open>find_mount\<close> fails exactly when no mount path is a
  component-wise prefix of the path; otherwise it returns the superblock of a mount point that is one and than which no
  other is longer, and the components left to resolve are those after it.
\<close>

theorem find_mount_longest:
  assumes "\<forall>p\<in>set ys. normal p" "\<forall>mp\<in>set ms. \<exists>xs. (\<forall>p\<in>set xs. normal p) \<and> mp_path mp = path_of xs"
  shows "case find_mount ms (path_of ys) of
      None \<Rightarrow> \<forall>mp\<in>set ms. \<forall>xs. (\<forall>p\<in>set xs. normal p) \<and> mp_path mp = path_of xs \<longrightarrow> \<not> prefix xs ys
    | Some (sb, rel) \<Rightarrow> \<exists>mp\<in>set ms. \<exists>xs. (\<forall>p\<in>set xs. normal p) \<and> mp_path mp = path_of xs \<and> mp_sb mp = sb \<and>
        prefix xs ys \<and> path_parts rel = drop (length xs) ys \<and>
        (\<forall>mp'\<in>set ms. \<forall>xs'. (\<forall>p\<in>set xs'. normal p) \<and> mp_path mp' = path_of xs' \<and> prefix xs' ys \<longrightarrow> length xs' \<le> length xs)"
proof (cases "best_mount (path_of ys) None ms")
  case None
  then have "find_mount ms (path_of ys) = None" by (simp add: find_mount_def)
  moreover have "\<not> prefix xs ys" if "mp \<in> set ms" "\<forall>p\<in>set xs. normal p" "mp_path mp = path_of xs" for mp xs
    using best_mount_spec [of None "path_of ys" ms] None that covers_components [OF that(2) assms(1) that(3)] by auto
  ultimately show ?thesis by auto
next
  case (Some lm)
  obtain l mp where lm: "lm = (l, mp)" by (cases lm)
  have b: "covers (path_of ys) mp" "l = length (mp_path mp)" "mp \<in> set ms"
    "\<forall>mp'\<in>set ms. covers (path_of ys) mp' \<longrightarrow> length (mp_path mp') \<le> l"
    using best_mount_spec [of None "path_of ys" ms] Some lm by auto
  obtain xs where xs: "\<forall>p\<in>set xs. normal p" "mp_path mp = path_of xs" using assms(2) b(3) by blast
  have pre: "prefix xs ys" using b(1) covers_components [OF xs(1) assms(1) xs(2)] by simp
  obtain rel where rel: "find_mount ms (path_of ys) = Some (mp_sb mp, rel)" "path_parts rel = drop (length xs) ys"
    using find_mount_parts [OF assms(1) xs(1,2) pre] Some lm b(2) by blast
  have "length xs' \<le> length xs"
    if m: "mp' \<in> set ms" "\<forall>p\<in>set xs'. normal p" "mp_path mp' = path_of xs'" "prefix xs' ys" for mp' xs'
  proof (rule ccontr)
    assume "\<not> length xs' \<le> length xs"
    then obtain w ws where w: "xs' = xs @ w # ws"
      using pre m(4) prefix_length_prefix [of xs ys xs'] by (auto simp: prefix_def neq_Nil_conv)
    have "length (mp_path mp') \<le> l" using b(4) m covers_components [OF m(2) assms(1) m(3)] by blast
    moreover have "length (path_of xs) < length (path_of xs')"
      using m(2) unfolding w by (cases w; cases xs) (auto simp: path_of_def join_parts_def normal_def)
    ultimately show False using b(2) xs(2) m(3) by simp
  qed
  then have "\<forall>mp'\<in>set ms. \<forall>xs'. (\<forall>p\<in>set xs'. normal p) \<and> mp_path mp' = path_of xs' \<and> prefix xs' ys \<longrightarrow> length xs' \<le> length xs"
    by blast
  then show ?thesis using rel b(3) xs pre unfolding rel(1) by (simp only: option.case prod.case) blast
qed

theorem find_mount_longest_witness:
  "find_mount [\<lparr>mp_path = ''/'', mp_sb = 0\<rparr>, \<lparr>mp_path = ''/tmp'', mp_sb = 1\<rparr>] ''/tmp/x'' = Some (1, ''x'') \<and>
   (\<exists>mp\<in>set [\<lparr>mp_path = ''/'', mp_sb = 0\<rparr>, \<lparr>mp_path = ''/tmp'', mp_sb = 1\<rparr>]. \<exists>xs. mp_path mp = path_of xs \<and> mp_sb mp = 1 \<and>
      prefix xs [''tmp'', ''x''])"
proof -
  let ?ms = "[\<lparr>mp_path = ''/'', mp_sb = 0\<rparr>, \<lparr>mp_path = ''/tmp'', mp_sb = 1\<rparr>]"
  have f: "find_mount ?ms ''/tmp/x'' = Some (1, ''x'')"
    by (simp add: find_mount_def covers_def starts_slash_def trim_start_def Let_def)
  have p: "path_of [''tmp'', ''x''] = ''/tmp/x''" "path_of [] = ''/''" "path_of [''tmp''] = ''/tmp''"
    by (simp_all add: path_of_def join_parts_def)
  have n: "\<forall>p\<in>set [''tmp'', ''x'']. normal p" by (simp add: normal_def)
  have "\<forall>mp\<in>set ?ms. \<exists>xs. (\<forall>p\<in>set xs. normal p) \<and> mp_path mp = path_of xs"
  proof -
    have "\<exists>xs. (\<forall>p\<in>set xs. normal p) \<and> ''/'' = path_of xs" by (intro exI [of _ "[]"]) (simp add: p)
    moreover have "\<exists>xs. (\<forall>p\<in>set xs. normal p) \<and> ''/tmp'' = path_of xs"
      by (intro exI [of _ "[''tmp'']"]) (simp add: p normal_def)
    ultimately show ?thesis by simp
  qed
  from find_mount_longest [OF n this] show ?thesis unfolding p(1) f by auto
qed

text \<open>
  C31. A changed root confines only up to the spelling of its last component.  In a process whose root is
  \<open>R/c\<close> and whose working directory is that root, the relative path \<open>../cx\<close>, for any non-empty
  \<open>x\<close>, names \<open>R/cx\<close>, a sibling of the root: the check compares strings and not components.
\<close>

theorem chroot_sibling_escape:
  assumes "\<forall>p\<in>set rs. normal p" "normal c" "normal (c @ x)" "x \<noteq> []"
  shows "abs_path_in (path_of (rs @ [c])) (path_of (rs @ [c])) (''../'' @ c @ x) = path_of (rs @ [c @ x]) \<and>
    \<not> prefix (rs @ [c]) (rs @ [c @ x])"
proof -
  let ?root = "path_of (rs @ [c])"
  have n: "\<forall>p\<in>set (rs @ [c]). normal p" "\<forall>p\<in>set (rs @ [c @ x]). normal p" using assms by simp_all
  have root: "?root = join_parts rs @ slash # c" by (simp add: path_of_def join_parts_def)
  have "c \<noteq> []" "last c \<noteq> slash" using assms(2) by (simp_all add: normal_def) (metis last_in_set)
  then have "\<not> ends_slash ?root" unfolding root by (simp add: ends_slash_def)
  moreover have "\<not> starts_slash (''../'' @ c @ x)" by (simp add: starts_slash_def)
  moreover have "parts_of (?root @ slash # (''../'' @ c @ x)) = rs @ [c @ x]"
  proof -
    have "split_slash (''../'' @ c @ x) = [''..'', c @ x]"
      using split_slash_append [of "''..''" "c @ x"] assms(3) by (simp add: normal_def)
    then show ?thesis using parts_of_path_of [OF n(1)] assms(3) by (simp add: parts_of_append canon_step_def normal_def)
  qed
  moreover have "prefix ?root (path_of (rs @ [c @ x]))" unfolding root by (simp add: path_of_def join_parts_def)
  ultimately show ?thesis using assms(4) by (simp add: abs_path_in_def canonicalize_path_of Let_def)
qed

theorem chroot_sibling_escape_witness: "abs_path_in ''/jail'' ''/jail'' ''../jail2'' = ''/jail2''"
  using chroot_sibling_escape [of "[]" "''jail''" "''2''"] by (simp add: normal_def path_of_def join_parts_def)

text \<open>
  Resolution ends on every path, also when links lead back to themselves.  A path that meets an
  absolute link whose target is the path itself is refused with \<open>ELOOP\<close>.
\<close>

theorem link_loop_is_refused:
  assumes "find_mount ms ap = Some (sb, rel)" "fo_root ops sb fs = Inr r"
    and "walk_links ops sb fs follow r (path_parts rel) = WLink target n" "starts_slash target" "canonicalize target = ap"
  shows "resolve_inode_inner ops ms root fs ap follow depth = Inl ELOOP"
proof (induction "Suc MAX_SYMLINK_DEPTH - depth" arbitrary: depth)
  case 0
  then show ?case by (subst resolve_inode_inner.simps) simp
next
  case (Suc d)
  then have "resolve_inode_inner ops ms root fs ap follow (depth + 1) = Inl ELOOP" by simp
  then show ?case using resolve_link [OF assms(1-4), of depth root] assms(5) Suc(2) by simp
qed

theorem link_loop_is_refused_witness:
  "resolve_inode_inner (tmpfs_ops 0 (0, 0) 5) [\<lparr>mp_path = ''/'', mp_sb = 0\<rparr>] ''/''
     ([snd (tmp_symlink (0, 0) 5 1 ''a'' ''/a'' tmp_state_new)], one_frame_memory) ''/a'' True 0 = Inl ELOOP"
proof (rule link_loop_is_refused)
  let ?st = "snd (tmp_symlink (0, 0) 5 1 ''a'' ''/a'' tmp_state_new)"
  have st: "ts_nodes ?st = [(1, \<lparr>n_ino = 1, n_mode = S_IFDIR OR 0x1ED, n_uid = 0, n_gid = 0,
      n_data = NDir [(''a'', 2)], n_atime = 0, n_mtime = 0, n_ctime = 0, n_nlink = 2\<rparr>),
     (2, \<lparr>n_ino = 2, n_mode = S_IFLNK OR 0x1FF, n_uid = 0, n_gid = 0, n_data = NSymlink ''/a'', n_atime = 5, n_mtime = 5,
      n_ctime = 5, n_nlink = 1\<rparr>)]"
    by (simp add: tmp_symlink_def make_symlink_def alloc_ino_def finish_new_def add_entry_def set_dir_def make_inode_def
        tmp_state_new_def bt_get_def bt_adjust_def)
  show "find_mount [\<lparr>mp_path = ''/'', mp_sb = 0\<rparr>] ''/a'' = Some (0, ''a'')"
    by (simp add: find_mount_def covers_def starts_slash_def trim_start_def Let_def)
  let ?r = "projr (make_inode 1 ?st)"
  have r: "make_inode 1 ?st = Inr ?r" "i_ino ?r = 1" by (simp_all add: make_inode_def st bt_get_def)
  then show "fo_root (tmpfs_ops 0 (0, 0) 5) 0 ([?st], one_frame_memory) = Inr ?r" by (simp add: tmpfs_ops_def tmp_get_root_def)
  show "walk_links (tmpfs_ops 0 (0, 0) 5) 0 ([?st], one_frame_memory) True ?r (path_parts ''a'') = WLink ''/a'' 1"
    using r(2) by (simp add: path_parts_def tmpfs_ops_def tmp_lookup_def dir_lookup_def make_inode_def tmp_readlink_def st bt_get_def
        s_islnk_def)
qed (simp_all add: starts_slash_def canonicalize_def canon_step_def join_parts_def)

end
