(* ===== verification/Vfs_Calls.thy ===== *)
theory Vfs_Calls
  imports Vfs_Paths
begin

text \<open>
  The calls of kernel/src/vfs/mod.rs on paths and descriptors, and the file system calls of
  kernel/src/syscall/handlers.rs on top of them.  A string stands for the bytes of a Rust string.

  The state is the kernel and the state \<open>'fs\<close> of all file systems.  What the calls look up elsewhere is in the
  record \<open>env\<close>: the mount table, the operations of the file systems, user memory with the areas the current process
  has mapped, the generated texts under \<open>/proc\<close>, and the device layer.  A path argument is the address of a string in
  user memory.  A call that stores to user memory gives the stored value as a further result.  None is a panic
  or a call that does not return.

  The lemmas show that what is written through a new descriptor is read back, that listing a directory
  in pieces gives every entry once, and what the handlers do at the edges.
\<close>

section \<open>The environment of a call\<close>

record 'fs env =
  e_mounts :: "mount_point list"
  e_ops :: "'fs fs_ops"
  e_regions :: "(u64 \<times> u64) list option"
  e_qsf :: qsf_state
  e_mem :: "u64 \<Rightarrow> u8"
  e_built :: "string \<Rightarrow> u8 list"
  e_dev_read :: "u32 \<Rightarrow> nat \<Rightarrow> u64 \<Rightarrow> kernel \<Rightarrow> ((vfs_error + u8 list) io_result \<times> kernel) option"
  e_dev_write :: "u32 \<Rightarrow> u8 list \<Rightarrow> u64 \<Rightarrow> kernel \<Rightarrow> ((vfs_error + nat) io_result \<times> kernel) option"

definition is_user_ptr_valid :: "'fs env \<Rightarrow> u64 \<Rightarrow> nat \<Rightarrow> bool" where
  "is_user_ptr_valid v ptr len = verify_user_ptr (e_regions v) ptr (of_nat len) (e_qsf v)"

text \<open>A byte read from user memory becomes a character and is stored in its UTF-8 encoding.\<close>

definition push_char :: "u8 \<Rightarrow> string" where
  "push_char c =
     (if c < 0x80 then [char_of (unat c)]
      else [char_of (unat (0xC0 OR drop_bit 6 c)), char_of (unat (0x80 OR (c AND 0x3F)))])"

function read_cstr_loop :: "(u64 \<Rightarrow> u8) \<Rightarrow> u64 \<Rightarrow> string \<Rightarrow> string option" where
  "read_cstr_loop mem p s =
     (if mem p = 0 then Some s
      else let s' = s @ push_char (mem p) in
        if 4096 < length s' then None else read_cstr_loop mem (p + 1) s')"
  by pat_completeness auto
termination read_cstr_loop
  by (relation "measure (\<lambda>(mem, p, s). 4096 - length s)") (auto simp: push_char_def split: if_splits)

declare read_cstr_loop.simps [simp del]

definition read_cstr :: "'fs env \<Rightarrow> u64 \<Rightarrow> string option" where
  "read_cstr v ptr =
     (if ptr = 0 then None else if \<not> is_user_ptr_valid v ptr 1 then None else read_cstr_loop (e_mem v) ptr [])"

section \<open>Operations of an inode\<close>

definition mem_read :: "u8 list \<Rightarrow> nat \<Rightarrow> u64 \<Rightarrow> u8 list" where
  "mem_read data len off =
     (let s = unat off in if length data \<le> s then [] else take (min len (length data - s)) (drop s data))"

definition ino_read :: "'fs env \<Rightarrow> vfs_inode \<Rightarrow> nat \<Rightarrow> u64 \<Rightarrow> 'fs \<Rightarrow> (vfs_error + u8 list) option" where
  "ino_read v i len off fs = (case i_ops i of
      PipeInodeOps \<Rightarrow> Some (Inl EINVAL)
    | MemOps data \<Rightarrow> Some (Inr (mem_read data len off))
    | FsOps sb \<Rightarrow> fo_read (e_ops v) sb (i_ino i) len off fs
    | DummyInodeOps \<Rightarrow> Some (Inl EBADF))"

definition ino_write :: "'fs env \<Rightarrow> vfs_inode \<Rightarrow> u8 list \<Rightarrow> u64 \<Rightarrow> 'fs \<Rightarrow> ((vfs_error + nat) \<times> 'fs) option" where
  "ino_write v i data off fs = (case i_ops i of
      PipeInodeOps \<Rightarrow> Some (Inl EINVAL, fs)
    | MemOps _ \<Rightarrow> Some (Inl EACCES, fs)
    | FsOps sb \<Rightarrow> fo_write (e_ops v) sb (i_ino i) data off fs
    | DummyInodeOps \<Rightarrow> Some (Inl EBADF, fs))"

definition ino_readdir :: "'fs env \<Rightarrow> vfs_inode \<Rightarrow> 'fs \<Rightarrow> vfs_error + dir_entry list" where
  "ino_readdir v i fs = (case i_ops i of
      PipeInodeOps \<Rightarrow> Inl EINVAL
    | MemOps _ \<Rightarrow> Inl ENOTDIR
    | FsOps sb \<Rightarrow> fo_readdir (e_ops v) sb (i_ino i) fs
    | DummyInodeOps \<Rightarrow> Inl ENOTDIR)"

definition ino_truncate :: "'fs env \<Rightarrow> vfs_inode \<Rightarrow> u64 \<Rightarrow> 'fs \<Rightarrow> ((vfs_error + unit) \<times> 'fs) option" where
  "ino_truncate v i len fs = (case i_ops i of
      FsOps sb \<Rightarrow> fo_truncate (e_ops v) sb (i_ino i) len fs
    | _ \<Rightarrow> Some (Inl EACCES, fs))"

section \<open>Opening\<close>

definition virtual_files :: "(string \<times> string) list" where
  "virtual_files =
    [(''/proc/sys/kernel/pid_max'', ''4194304'' @ [CHR 0x0A]), (''/proc/sys/kernel/hostname'', ''qunix'' @ [CHR 0x0A]),
     (''/proc/sys/kernel/ostype'', ''Linux'' @ [CHR 0x0A]), (''/proc/sys/kernel/osrelease'', ''6.1.0-qunix'' @ [CHR 0x0A]),
     (''/proc/sys/kernel/version'', ''#1 SMP PREEMPT Qunix'' @ [CHR 0x0A]), (''/proc/sys/kernel/ngroups_max'', ''65536'' @ [CHR 0x0A]),
     (''/proc/sys/vm/overcommit_memory'', ''0'' @ [CHR 0x0A]), (''/proc/sys/vm/max_map_count'', ''65530'' @ [CHR 0x0A]),
     (''/proc/filesystems'', ''nodev'' @ [CHR 0x09] @ ''tmpfs'' @ [CHR 0x0A, CHR 0x09] @ ''ext2'' @ [CHR 0x0A, CHR 0x09] @ ''fat'' @ [CHR 0x0A]),
     (''/etc/hostname'', ''qunix'' @ [CHR 0x0A]),
     (''/etc/os-release'', ''NAME=\"Qunix\"'' @ [CHR 0x0A] @ ''VERSION=\"0.2.0\"'' @ [CHR 0x0A] @ ''ID=qunix'' @ [CHR 0x0A] @ ''ID_LIKE=linux'' @ [CHR 0x0A] @
        ''PRETTY_NAME=\"Qunix 0.2.0\"'' @ [CHR 0x0A] @ ''VERSION_ID=\"0.2\"'' @ [CHR 0x0A] @ ''HOME_URL=\"https://qunix.dev\"'' @ [CHR 0x0A]),
     (''/etc/localtime'', ''UTC'' @ [CHR 0x0A])]"

definition built_files :: "string list" where
  "built_files = [''/proc/cpuinfo'', ''/proc/meminfo'', ''/proc/self/maps'', ''/proc/self/status'', ''/proc/self/stat'']"

definition handle_virtual_fs_path :: "(string \<Rightarrow> u8 list) \<Rightarrow> string \<Rightarrow> u8 list option" where
  "handle_virtual_fs_path built path = (case map_of virtual_files path of
      Some text \<Rightarrow> Some (map of_char text)
    | None \<Rightarrow> if path \<in> set built_files then Some (built path) else None)"

definition make_mem_fd :: "u8 list \<Rightarrow> u32 \<Rightarrow> file_descriptor" where
  "make_mem_fd data flags = \<lparr>fd_inode = \<lparr>i_ino = 0, i_mode = S_IFREG OR 0x124, i_uid = 0, i_gid = 0,
       i_size = of_nat (length data), i_atime = 0, i_mtime = 0, i_ctime = 0, i_sb_dev = 99, i_ops = MemOps data\<rparr>,
     fd_offset = 0, fd_flags = flags, fd_kind = Regular, fd_path = []\<rparr>"

definition fd_kind_for :: "'fs env \<Rightarrow> nat \<Rightarrow> inode \<Rightarrow> string \<Rightarrow> fd_kind" where
  "fd_kind_for v sb i ap =
     (let name = last (split_slash ap) in
      if i_mode i AND S_IFMT = S_IFDIR then Directory
      else if i_mode i AND S_IFMT = S_IFCHR
      then if prefix ''card'' name \<or> prefix ''renderD'' name then Drm
           else (case fo_device_minor (e_ops v) sb (i_ino i) of Some minor \<Rightarrow> Device minor | None \<Rightarrow> Regular)
      else Regular)"

text \<open>The parent directory of a new or removed name is found without following links.\<close>

definition parent_inode :: "'fs env \<Rightarrow> kernel \<Rightarrow> string \<Rightarrow> string \<Rightarrow> 'fs \<Rightarrow> vfs_error + (nat \<times> inode)" where
  "parent_inode v k cwd parent fs = (case find_mount (e_mounts v) (abs_path k cwd parent) of
      None \<Rightarrow> Inl ENOENT
    | Some (sb, rel) \<Rightarrow> (case fo_root (e_ops v) sb fs of
          Inl e \<Rightarrow> Inl e
        | Inr r \<Rightarrow> (case walk (e_ops v) sb fs r (path_parts rel) of Inl e \<Rightarrow> Inl e | Inr i \<Rightarrow> Inr (sb, i))))"

definition create_file_at ::
    "'fs env \<Rightarrow> kernel \<Rightarrow> string \<Rightarrow> string \<Rightarrow> u32 \<Rightarrow> 'fs \<Rightarrow> ((vfs_error + file_descriptor) \<times> 'fs) option" where
  "create_file_at v k cwd path mode fs =
     (let (parent_path, name) = split_path path in
      case parent_inode v k cwd parent_path fs of
        Inl e \<Rightarrow> Some (Inl e, fs)
      | Inr (sb, parent) \<Rightarrow>
          map_option (\<lambda>(r, fs'). (case r of
               Inl e \<Rightarrow> Inl e
             | Inr i \<Rightarrow> Inr \<lparr>fd_inode = with_ops (FsOps sb) i, fd_offset = 0, fd_flags = O_RDWR, fd_kind = Regular,
                 fd_path = abs_path k cwd path\<rparr>, fs'))
            (fo_create (e_ops v) sb (i_ino parent) name mode fs))"

definition vfs_open ::
    "'fs env \<Rightarrow> kernel \<Rightarrow> string \<Rightarrow> string \<Rightarrow> u32 \<Rightarrow> u32 \<Rightarrow> 'fs \<Rightarrow> ((vfs_error + file_descriptor) \<times> 'fs) option" where
  "vfs_open v k cwd path flags mode fs =
     (let ap = abs_path k cwd path in
      case handle_virtual_fs_path (e_built v) ap of
        Some data \<Rightarrow> Some (Inr (make_mem_fd data flags), fs)
      | None \<Rightarrow>
          (case resolve_inode (e_ops v) (e_mounts v) k fs cwd path of
             Inl e \<Rightarrow>
               if e = ENOENT \<and> flags AND O_CREAT \<noteq> 0 then create_file_at v k cwd path mode fs else Some (Inl e, fs)
           | Inr (sb, i) \<Rightarrow>
               if flags AND O_CREAT \<noteq> 0 \<and> flags AND O_EXCL \<noteq> 0 then Some (Inl EEXIST, fs)
               else map_option (\<lambda>(r, fs'). (case r of
                      Inl e \<Rightarrow> Inl e
                    | Inr _ \<Rightarrow> Inr \<lparr>fd_inode = with_ops (FsOps sb) i,
                        fd_offset = (if flags AND O_APPEND \<noteq> 0 then i_size i else 0),
                        fd_flags = flags, fd_kind = fd_kind_for v sb i ap, fd_path = ap\<rparr>, fs'))
                 (if flags AND O_TRUNC \<noteq> 0 \<and> s_isreg (i_mode i) then fo_truncate (e_ops v) sb (i_ino i) 0 fs
                  else Some (Inr (), fs))))"

section \<open>Stat and links\<close>

record vfs_stat =
  st_dev :: u64
  st_ino :: u64
  st_nlink :: u64
  st_mode :: u32
  st_uid :: u32
  st_gid :: u32
  st_rdev :: u64
  st_size :: int
  st_blksize :: int
  st_blocks :: int
  st_atime :: int
  st_atime_ns :: int
  st_mtime :: int
  st_mtime_ns :: int
  st_ctime :: int
  st_ctime_ns :: int

definition to_stat :: "'a inode_scheme \<Rightarrow> vfs_stat" where
  "to_stat i = \<lparr>st_dev = i_sb_dev i, st_ino = i_ino i, st_nlink = 1, st_mode = i_mode i, st_uid = i_uid i, st_gid = i_gid i,
     st_rdev = 0, st_size = sint (i_size i), st_blksize = 4096, st_blocks = sint ((i_size i + 511) div 512),
     st_atime = i_atime i, st_atime_ns = 0, st_mtime = i_mtime i, st_mtime_ns = 0, st_ctime = i_ctime i, st_ctime_ns = 0\<rparr>"

definition vfs_stat_path :: "'fs env \<Rightarrow> kernel \<Rightarrow> string \<Rightarrow> string \<Rightarrow> 'fs \<Rightarrow> vfs_error + vfs_stat" where
  "vfs_stat_path v k cwd path fs = (case resolve_inode (e_ops v) (e_mounts v) k fs cwd path of
      Inl e \<Rightarrow> Inl e | Inr (sb, i) \<Rightarrow> Inr (to_stat i))"

definition vfs_lstat :: "'fs env \<Rightarrow> kernel \<Rightarrow> string \<Rightarrow> string \<Rightarrow> 'fs \<Rightarrow> vfs_error + vfs_stat" where
  "vfs_lstat v k cwd path fs = (case resolve_inode_nofollow (e_ops v) (e_mounts v) k fs cwd path of
      Inl e \<Rightarrow> Inl e | Inr (sb, i) \<Rightarrow> Inr (to_stat i))"

definition vfs_readlink :: "'fs env \<Rightarrow> kernel \<Rightarrow> string \<Rightarrow> string \<Rightarrow> 'fs \<Rightarrow> vfs_error + string" where
  "vfs_readlink v k cwd path fs = (case resolve_inode_nofollow (e_ops v) (e_mounts v) k fs cwd path of
      Inl e \<Rightarrow> Inl e
    | Inr (sb, i) \<Rightarrow> if \<not> s_islnk (i_mode i) then Inl EINVAL else fo_readlink (e_ops v) sb (i_ino i) fs)"

section \<open>Directories\<close>

definition resolve_dir :: "'fs env \<Rightarrow> kernel \<Rightarrow> string \<Rightarrow> string \<Rightarrow> 'fs \<Rightarrow> vfs_error + string" where
  "resolve_dir v k cwd path fs = (case resolve_inode (e_ops v) (e_mounts v) k fs cwd path of
      Inl e \<Rightarrow> Inl e
    | Inr (sb, i) \<Rightarrow> if \<not> s_isdir (i_mode i) then Inl ENOTDIR else Inr (abs_path k cwd path))"

definition at_parent ::
    "'fs env \<Rightarrow> kernel \<Rightarrow> string \<Rightarrow> string \<Rightarrow> (nat \<Rightarrow> u64 \<Rightarrow> string \<Rightarrow> 'fs \<Rightarrow> ((vfs_error + 'a) \<times> 'fs) option) \<Rightarrow> 'fs \<Rightarrow>
      ((vfs_error + unit) \<times> 'fs) option" where
  "at_parent v k cwd path f fs =
     (let (parent, name) = split_path path in
      case parent_inode v k cwd parent fs of
        Inl e \<Rightarrow> Some (Inl e, fs)
      | Inr (sb, i) \<Rightarrow>
          map_option (\<lambda>(r, fs'). (case r of Inl e \<Rightarrow> Inl e | Inr _ \<Rightarrow> Inr (), fs')) (f sb (i_ino i) name fs))"

definition vfs_mkdir :: "'fs env \<Rightarrow> kernel \<Rightarrow> string \<Rightarrow> string \<Rightarrow> u32 \<Rightarrow> 'fs \<Rightarrow> ((vfs_error + unit) \<times> 'fs) option" where
  "vfs_mkdir v k cwd path mode = at_parent v k cwd path (\<lambda>sb ino name. fo_mkdir (e_ops v) sb ino name mode)"

definition vfs_unlink :: "'fs env \<Rightarrow> kernel \<Rightarrow> string \<Rightarrow> string \<Rightarrow> 'fs \<Rightarrow> ((vfs_error + unit) \<times> 'fs) option" where
  "vfs_unlink v k cwd path = at_parent v k cwd path (fo_unlink (e_ops v))"

definition vfs_rmdir :: "'fs env \<Rightarrow> kernel \<Rightarrow> string \<Rightarrow> string \<Rightarrow> 'fs \<Rightarrow> ((vfs_error + unit) \<times> 'fs) option" where
  "vfs_rmdir v k cwd path = at_parent v k cwd path (fo_rmdir (e_ops v))"

definition vfs_symlink :: "'fs env \<Rightarrow> kernel \<Rightarrow> string \<Rightarrow> string \<Rightarrow> string \<Rightarrow> 'fs \<Rightarrow> ((vfs_error + unit) \<times> 'fs) option" where
  "vfs_symlink v k cwd target link_path =
     at_parent v k cwd link_path (\<lambda>sb ino name. fo_symlink (e_ops v) sb ino name target)"

definition vfs_rename :: "'fs env \<Rightarrow> kernel \<Rightarrow> string \<Rightarrow> string \<Rightarrow> string \<Rightarrow> 'fs \<Rightarrow> ((vfs_error + unit) \<times> 'fs) option" where
  "vfs_rename v k cwd old_path new_path fs =
     (let (old_parent, old_name) = split_path old_path; (new_parent, new_name) = split_path new_path in
      if abs_path k cwd old_parent \<noteq> abs_path k cwd new_parent then Some (Inl EXDEV, fs)
      else case parent_inode v k cwd old_parent fs of
        Inl e \<Rightarrow> Some (Inl e, fs)
      | Inr (sb, i) \<Rightarrow> fo_rename (e_ops v) sb (i_ino i) old_name (i_ino i) new_name fs)"

record dirent =
  d_ino :: u64
  d_off :: u64
  d_reclen :: u16
  d_type :: u8
  d_name :: string

definition dirent_reclen :: "string \<Rightarrow> nat" where
  "dirent_reclen name = max ((19 + length name + 1 + 7) div 8 * 8) 24"

fun getdents_loop :: "nat \<Rightarrow> u64 \<Rightarrow> nat \<Rightarrow> nat \<Rightarrow> dir_entry list \<Rightarrow> dirent list \<times> nat \<times> nat" where
  "getdents_loop count skip written n [] = ([], written, n)"
| "getdents_loop count skip written n (e # es) =
     (let reclen = dirent_reclen (de_name e) in
      if count < written + reclen then ([], written, n)
      else let (ds, r) = getdents_loop count skip (written + reclen) (n + 1) es in
        (\<lparr>d_ino = de_ino e, d_off = skip + of_nat n + 1, d_reclen = of_nat reclen, d_type = de_file_type e,
          d_name = de_name e\<rparr> # ds, r))"

definition getdents_inner :: "'fs env \<Rightarrow> file_descriptor \<Rightarrow> nat \<Rightarrow> 'fs \<Rightarrow> vfs_error + (dirent list \<times> nat \<times> nat)" where
  "getdents_inner v fd count fs =
     (if \<not> s_isdir (i_mode (fd_inode fd)) then Inl ENOTDIR
      else case ino_readdir v (fd_inode fd) fs of
        Inl e \<Rightarrow> Inl e
      | Inr es \<Rightarrow> Inr (getdents_loop count (fd_offset fd) 0 0 (drop (unat (fd_offset fd)) es)))"

section \<open>Reading and writing\<close>

definition read_fd ::
    "'fs env \<Rightarrow> file_descriptor \<Rightarrow> nat \<Rightarrow> kernel \<Rightarrow> 'fs \<Rightarrow> ((vfs_error + u8 list) io_result \<times> kernel) option" where
  "read_fd v fd count k fs = (case fd_kind fd of
      Directory \<Rightarrow> Some (Finished (Inl EISDIR), k)
    | Regular \<Rightarrow> map_option (\<lambda>r. (Finished r, k)) (ino_read v (fd_inode fd) count (fd_offset fd) fs)
    | PipeRead i \<Rightarrow> pipe_read i count (fd_flags fd AND O_NONBLOCK \<noteq> 0) k
    | Device minor \<Rightarrow> e_dev_read v minor count (fd_offset fd) k
    | Drm \<Rightarrow> Some (Finished (Inr []), k)
    | _ \<Rightarrow> Some (Finished (Inl EBADF), k))"

definition write_fd ::
    "'fs env \<Rightarrow> file_descriptor \<Rightarrow> u8 list \<Rightarrow> kernel \<Rightarrow> 'fs \<Rightarrow> ((vfs_error + nat) io_result \<times> kernel \<times> 'fs) option" where
  "write_fd v fd data k fs = (case fd_kind fd of
      Directory \<Rightarrow> Some (Finished (Inl EISDIR), k, fs)
    | Regular \<Rightarrow> map_option (\<lambda>(r, fs'). (Finished r, k, fs')) (ino_write v (fd_inode fd) data (fd_offset fd) fs)
    | PipeWrite i \<Rightarrow> map_option (\<lambda>(r, k'). (r, k', fs)) (pipe_write i data (fd_flags fd AND O_NONBLOCK \<noteq> 0) k)
    | Device minor \<Rightarrow> map_option (\<lambda>(r, k'). (r, k', fs)) (e_dev_write v minor data (fd_offset fd) k)
    | Drm \<Rightarrow> Some (Finished (Inr (length data)), k, fs)
    | _ \<Rightarrow> Some (Finished (Inl EBADF), k, fs))"

function read_all_loop ::
    "'fs env \<Rightarrow> vfs_inode \<Rightarrow> 'fs \<Rightarrow> u64 \<Rightarrow> u8 list \<Rightarrow> u8 list option" where
  "read_all_loop v i fs offset out = (case ino_read v i 4096 offset fs of
      None \<Rightarrow> None
    | Some (Inl _) \<Rightarrow> Some out
    | Some (Inr bs) \<Rightarrow>
        if bs = [] then Some out
        else if length bs < 4096 \<or> 256 * 1024 * 1024 < length (out @ bs) then Some (out @ bs)
        else read_all_loop v i fs (offset + of_nat (length bs)) (out @ bs))"
  by pat_completeness auto
termination read_all_loop
  by (relation "measure (\<lambda>(v, i, fs, offset, out). 256 * 1024 * 1024 + 1 - length out)") auto

declare read_all_loop.simps [simp del]

definition read_all_fd :: "'fs env \<Rightarrow> file_descriptor \<Rightarrow> 'fs \<Rightarrow> u8 list option" where
  "read_all_fd v fd fs =
     (if 0 < i_size (fd_inode fd)
      then map_option (\<lambda>r. case r of Inl _ \<Rightarrow> [] | Inr bs \<Rightarrow> bs) (ino_read v (fd_inode fd) (unat (i_size (fd_inode fd))) 0 fs)
      else read_all_loop v (fd_inode fd) fs 0 [])"

section \<open>System calls on descriptors\<close>

definition vfs_err :: "vfs_error \<Rightarrow> int" where
  "vfs_err e = - uint e"

definition advance_fd :: "u32 \<Rightarrow> (fd_kind \<Rightarrow> bool) \<Rightarrow> nat \<Rightarrow> kernel \<Rightarrow> kernel" where
  "advance_fd fd moves n k =
     current_op (get_fd_mut_op fd (\<lambda>f. if moves (fd_kind f) then f\<lparr>fd_offset := fd_offset f + of_nat n\<rparr> else f)) k"

definition sys_read ::
    "'fs env \<Rightarrow> u32 \<Rightarrow> u64 \<Rightarrow> nat \<Rightarrow> kernel \<Rightarrow> 'fs \<Rightarrow> ((int \<times> u8 list) io_result \<times> kernel) option" where
  "sys_read v fd buf count k fs =
     (if count = 0 then Some (Finished (0, []), k)
      else if buf = 0 \<or> \<not> is_user_ptr_valid v buf count then Some (Finished (-14, []), k)
      else case current_fd fd k of
        None \<Rightarrow> Some (Finished (-9, []), k)
      | Some f \<Rightarrow> map_option (\<lambda>(r, k'). case r of
            Blocked x \<Rightarrow> (Blocked x, k')
          | Finished (Inl e) \<Rightarrow> (Finished (vfs_err e, []), k')
          | Finished (Inr bs) \<Rightarrow>
              (Finished (int (length bs), bs), advance_fd fd (\<lambda>kd. kd = Regular \<or> kd = Directory) (length bs) k'))
          (read_fd v f count k fs))"

definition user_bytes :: "'fs env \<Rightarrow> u64 \<Rightarrow> nat \<Rightarrow> u8 list" where
  "user_bytes v buf count = map (\<lambda>i. e_mem v (buf + of_nat i)) [0..<count]"

text \<open>\<open>sys_write\<close> with the bytes found at the buffer address.\<close>

definition write_bytes_at ::
    "'fs env \<Rightarrow> u32 \<Rightarrow> u64 \<Rightarrow> u8 list \<Rightarrow> kernel \<Rightarrow> 'fs \<Rightarrow> (int io_result \<times> kernel \<times> 'fs) option" where
  "write_bytes_at v fd buf data k fs =
     (if data = [] then Some (Finished 0, k, fs)
      else if buf = 0 \<or> \<not> is_user_ptr_valid v buf (length data) then Some (Finished (-14), k, fs)
      else case current_fd fd k of
        None \<Rightarrow> Some (Finished (-9), k, fs)
      | Some f \<Rightarrow> map_option (\<lambda>(r, k', fs'). case r of
            Blocked x \<Rightarrow> (Blocked x, k', fs')
          | Finished (Inl e) \<Rightarrow> (Finished (vfs_err e), k', fs')
          | Finished (Inr n) \<Rightarrow> (Finished (int n), advance_fd fd (\<lambda>kd. kd = Regular) n k', fs'))
          (write_fd v f data k fs))"

definition sys_write ::
    "'fs env \<Rightarrow> u32 \<Rightarrow> u64 \<Rightarrow> nat \<Rightarrow> kernel \<Rightarrow> 'fs \<Rightarrow> (int io_result \<times> kernel \<times> 'fs) option" where
  "sys_write v fd buf count = write_bytes_at v fd buf (user_bytes v buf count)"

definition sys_pread64 ::
    "'fs env \<Rightarrow> u32 \<Rightarrow> nat \<Rightarrow> u64 \<Rightarrow> kernel \<Rightarrow> 'fs \<Rightarrow> ((int \<times> u8 list) io_result \<times> kernel) option" where
  "sys_pread64 v fd count offset k fs = (case current_fd fd k of
      None \<Rightarrow> Some (Finished (-9, []), k)
    | Some f \<Rightarrow> map_option (\<lambda>(r, k'). case r of
          Blocked x \<Rightarrow> (Blocked x, k')
        | Finished (Inl e) \<Rightarrow> (Finished (vfs_err e, []), k')
        | Finished (Inr bs) \<Rightarrow> (Finished (int (length bs), bs), k'))
        (read_fd v (f\<lparr>fd_offset := offset\<rparr>) count k fs))"

definition sys_pwrite64 ::
    "'fs env \<Rightarrow> u32 \<Rightarrow> u64 \<Rightarrow> nat \<Rightarrow> u64 \<Rightarrow> kernel \<Rightarrow> 'fs \<Rightarrow> (int io_result \<times> kernel \<times> 'fs) option" where
  "sys_pwrite64 v fd buf count offset k fs = (case current_fd fd k of
      None \<Rightarrow> Some (Finished (-9), k, fs)
    | Some f \<Rightarrow> map_option (\<lambda>(r, k', fs'). case r of
          Blocked x \<Rightarrow> (Blocked x, k', fs')
        | Finished (Inl e) \<Rightarrow> (Finished (vfs_err e), k', fs')
        | Finished (Inr n) \<Rightarrow> (Finished (int n), k', fs'))
        (write_fd v (f\<lparr>fd_offset := offset\<rparr>) (user_bytes v buf count) k fs))"

text \<open>The buffer of \<open>sys_sendfile\<close> is on the kernel heap, at address \<open>buf\<close>.\<close>

partial_function (option) sendfile_loop ::
    "'fs env \<Rightarrow> u64 \<Rightarrow> u32 \<Rightarrow> u32 \<Rightarrow> nat \<Rightarrow> int \<Rightarrow> kernel \<Rightarrow> 'fs \<Rightarrow> (int io_result \<times> kernel \<times> 'fs) option" where
  "sendfile_loop v buf out_fd in_fd remaining acc k fs =
     (if remaining = 0 then Some (Finished acc, k, fs)
      else Option.bind (sys_read v in_fd buf (min remaining 65536) k fs) (\<lambda>(r, k1). case r of
          Blocked x \<Rightarrow> Some (Blocked x, k1, fs)
        | Finished (n, bs) \<Rightarrow>
            if n \<le> 0 then Some (Finished acc, k1, fs)
            else Option.bind (write_bytes_at v out_fd buf bs k1 fs) (\<lambda>(r, k2, fs2). case r of
                Blocked x \<Rightarrow> Some (Blocked x, k2, fs2)
              | Finished w \<Rightarrow>
                  if w < 0 then Some (Finished acc, k2, fs2)
                  else sendfile_loop v buf out_fd in_fd (remaining - nat w) (acc + w) k2 fs2)))"

definition sys_sendfile ::
    "'fs env \<Rightarrow> u64 \<Rightarrow> u32 \<Rightarrow> u32 \<Rightarrow> nat \<Rightarrow> kernel \<Rightarrow> 'fs \<Rightarrow> (int io_result \<times> kernel \<times> 'fs) option" where
  "sys_sendfile v buf out_fd in_fd count = sendfile_loop v buf out_fd in_fd count 0"

definition sys_lseek :: "'fs env \<Rightarrow> u32 \<Rightarrow> u64 \<Rightarrow> int \<Rightarrow> kernel \<Rightarrow> 'fs \<Rightarrow> (int \<times> kernel) option" where
  "sys_lseek v fd offset whence k fs = (case current_fd fd k of
      None \<Rightarrow> Some (-9, k)
    | Some f \<Rightarrow>
        let seek = (\<lambda>k. (case lseek f offset whence of
              (Inl e, _) \<Rightarrow> vfs_err e | (Inr pos, _) \<Rightarrow> sint pos,
              current_op (get_fd_mut_op fd (\<lambda>f. snd (lseek f offset whence))) k)) in
        if whence = 2
        then map_option (\<lambda>_. seek (current_op
               (get_fd_mut_op fd (\<lambda>g. g\<lparr>fd_inode := (fd_inode g)\<lparr>i_size := i_size (fd_inode f)\<rparr>\<rparr>)) k))
             (ino_read v (fd_inode f) 0 0 fs)
        else Some (seek k))"

definition sys_fstat :: "u32 \<Rightarrow> kernel \<Rightarrow> int \<times> vfs_stat option" where
  "sys_fstat fd k = (case current_fd fd k of None \<Rightarrow> (-9, None) | Some f \<Rightarrow> (0, Some (to_stat (fd_inode f))))"

definition sys_ftruncate :: "'fs env \<Rightarrow> u32 \<Rightarrow> u64 \<Rightarrow> kernel \<Rightarrow> 'fs \<Rightarrow> (int \<times> 'fs) option" where
  "sys_ftruncate v fd len k fs = (case current_fd fd k of
      None \<Rightarrow> Some (-9, fs)
    | Some f \<Rightarrow> map_option (\<lambda>(r, fs'). (case r of Inl e \<Rightarrow> vfs_err e | Inr _ \<Rightarrow> 0, fs')) (ino_truncate v (fd_inode f) len fs))"

definition sys_getdents64 :: "'fs env \<Rightarrow> u32 \<Rightarrow> nat \<Rightarrow> kernel \<Rightarrow> 'fs \<Rightarrow> int \<times> dirent list \<times> kernel" where
  "sys_getdents64 v fd count k fs = (case current_fd fd k of
      None \<Rightarrow> (-9, [], k)
    | Some f \<Rightarrow> (case getdents_inner v f count fs of
          Inl e \<Rightarrow> (vfs_err e, [], k)
        | Inr (ds, written, entries) \<Rightarrow>
            (int written, ds, if 0 < entries then advance_fd fd (\<lambda>_. True) entries k else k)))"

definition sys_fchdir :: "u32 \<Rightarrow> kernel \<Rightarrow> int \<times> kernel" where
  "sys_fchdir fd k = (case current_fd fd k of
      None \<Rightarrow> (-9, k)
    | Some f \<Rightarrow>
        if \<not> s_isdir (i_mode (fd_inode f)) then (vfs_err ENOTDIR, k)
        else if fd_path f = [] then (vfs_err ENOENT, k)
        else (0, current_op (set_cwd (fd_path f)) k))"

section \<open>System calls on paths\<close>

definition cwd_of :: "kernel \<Rightarrow> string" where
  "cwd_of k = (case bt_get (k_procs k) (k_current k) of None \<Rightarrow> [] | Some p \<Rightarrow> get_cwd p (k_groups k))"

definition install_fd ::
    "kernel \<Rightarrow> ((vfs_error + file_descriptor) \<times> 'fs) option \<Rightarrow> (int \<times> kernel \<times> 'fs) option" where
  "install_fd k x = (case x of
      None \<Rightarrow> None
    | Some (Inl e, fs) \<Rightarrow> Some (vfs_err e, k, fs)
    | Some (Inr f, fs) \<Rightarrow>
        map_option (\<lambda>(n, k'). (case n of None \<Rightarrow> -9 | Some n \<Rightarrow> uint n, k', fs)) (current_alloc_fd f k))"

definition sys_open :: "'fs env \<Rightarrow> u64 \<Rightarrow> u32 \<Rightarrow> u32 \<Rightarrow> kernel \<Rightarrow> 'fs \<Rightarrow> (int \<times> kernel \<times> 'fs) option" where
  "sys_open v path flags mode k fs = (case read_cstr v path of
      None \<Rightarrow> Some (-14, k, fs)
    | Some p \<Rightarrow> install_fd k (vfs_open v k (cwd_of k) p flags mode fs))"

definition openat_base :: "u32 \<Rightarrow> kernel \<Rightarrow> string option" where
  "openat_base dirfd k = Option.bind (current_fd dirfd k)
     (\<lambda>f. if s_isdir (i_mode (fd_inode f)) then if fd_path f = [] then None else Some (fd_path f) else None)"

definition sys_openat :: "'fs env \<Rightarrow> u32 \<Rightarrow> u64 \<Rightarrow> u32 \<Rightarrow> u32 \<Rightarrow> kernel \<Rightarrow> 'fs \<Rightarrow> (int \<times> kernel \<times> 'fs) option" where
  "sys_openat v dirfd path flags mode k fs = (case read_cstr v path of
      None \<Rightarrow> Some (-14, k, fs)
    | Some p \<Rightarrow>
        if starts_slash p \<or> dirfd = - 100 then install_fd k (vfs_open v k (cwd_of k) p flags mode fs)
        else case openat_base dirfd k of
          None \<Rightarrow> Some (-9, k, fs)
        | Some base \<Rightarrow> install_fd k (vfs_open v k base p flags mode fs))"

definition sys_memfd_create :: "'fs env \<Rightarrow> u64 \<Rightarrow> kernel \<Rightarrow> 'fs \<Rightarrow> (int \<times> kernel \<times> 'fs) option" where
  "sys_memfd_create v name k fs =
     install_fd k (vfs_open v k [slash] (''/tmp/.memfd_'' @ unwrap_or (read_cstr v name) ''anon'') (O_RDWR OR O_CREAT) 0x180 fs)"

definition sys_truncate :: "'fs env \<Rightarrow> u64 \<Rightarrow> u64 \<Rightarrow> kernel \<Rightarrow> 'fs \<Rightarrow> (int \<times> 'fs) option" where
  "sys_truncate v path len k fs = (case read_cstr v path of
      None \<Rightarrow> Some (-14, fs)
    | Some p \<Rightarrow> Option.bind (vfs_open v k (cwd_of k) p O_WRONLY 0 fs) (\<lambda>(r, fs1). case r of
          Inl e \<Rightarrow> Some (vfs_err e, fs1)
        | Inr f \<Rightarrow> map_option (\<lambda>(r, fs2). (case r of Inl e \<Rightarrow> vfs_err e | Inr _ \<Rightarrow> 0, fs2)) (ino_truncate v (fd_inode f) len fs1)))"

definition stat_result :: "vfs_error + vfs_stat \<Rightarrow> int \<times> vfs_stat option" where
  "stat_result r = (case r of Inl e \<Rightarrow> (vfs_err e, None) | Inr st \<Rightarrow> (0, Some st))"

definition sys_stat :: "'fs env \<Rightarrow> u64 \<Rightarrow> kernel \<Rightarrow> 'fs \<Rightarrow> int \<times> vfs_stat option" where
  "sys_stat v path k fs = (case read_cstr v path of
      None \<Rightarrow> (-14, None) | Some p \<Rightarrow> stat_result (vfs_stat_path v k (cwd_of k) p fs))"

definition sys_lstat :: "'fs env \<Rightarrow> u64 \<Rightarrow> kernel \<Rightarrow> 'fs \<Rightarrow> int \<times> vfs_stat option" where
  "sys_lstat v path k fs = (case read_cstr v path of
      None \<Rightarrow> (-14, None) | Some p \<Rightarrow> stat_result (vfs_lstat v k (cwd_of k) p fs))"

definition sys_newfstatat :: "'fs env \<Rightarrow> u64 \<Rightarrow> u32 \<Rightarrow> kernel \<Rightarrow> 'fs \<Rightarrow> int \<times> vfs_stat option" where
  "sys_newfstatat v path flags = (if flags AND 0x100 \<noteq> 0 then sys_lstat v path else sys_stat v path)"

definition sys_access :: "'fs env \<Rightarrow> u64 \<Rightarrow> kernel \<Rightarrow> 'fs \<Rightarrow> int" where
  "sys_access v path k fs = (case read_cstr v path of
      None \<Rightarrow> -14
    | Some p \<Rightarrow> (case vfs_stat_path v k (cwd_of k) p fs of Inl e \<Rightarrow> vfs_err e | Inr _ \<Rightarrow> 0))"

definition sys_readlink :: "'fs env \<Rightarrow> u64 \<Rightarrow> nat \<Rightarrow> kernel \<Rightarrow> 'fs \<Rightarrow> int \<times> string" where
  "sys_readlink v path len k fs = (case read_cstr v path of
      None \<Rightarrow> (-14, [])
    | Some p \<Rightarrow> (case vfs_readlink v k (cwd_of k) p fs of
          Inl e \<Rightarrow> (vfs_err e, [])
        | Inr t \<Rightarrow> let n = min (length t) len in (int n, take n t)))"

definition sys_getcwd :: "u64 \<Rightarrow> nat \<Rightarrow> kernel \<Rightarrow> int \<times> string" where
  "sys_getcwd buf len k =
     (let cwd = cwd_of k in
      if len < length cwd + 1 then (vfs_err ENAMETOOLONG, []) else (sint buf, cwd @ [CHR 0x00]))"

definition sys_chdir :: "'fs env \<Rightarrow> u64 \<Rightarrow> kernel \<Rightarrow> 'fs \<Rightarrow> int \<times> kernel" where
  "sys_chdir v path k fs = (case read_cstr v path of
      None \<Rightarrow> (-14, k)
    | Some p \<Rightarrow> (case resolve_dir v k (cwd_of k) p fs of
          Inl e \<Rightarrow> (vfs_err e, k)
        | Inr new_cwd \<Rightarrow> (0, current_op (set_cwd new_cwd) k)))"

definition path_call ::
    "string option \<Rightarrow> (string \<Rightarrow> 'fs \<Rightarrow> ((vfs_error + unit) \<times> 'fs) option) \<Rightarrow> 'fs \<Rightarrow> (int \<times> 'fs) option" where
  "path_call path f fs = (case path of
      None \<Rightarrow> Some (-14, fs)
    | Some p \<Rightarrow> map_option (\<lambda>(r, fs'). (case r of Inl e \<Rightarrow> vfs_err e | Inr _ \<Rightarrow> 0, fs')) (f p fs))"

definition sys_mkdir :: "'fs env \<Rightarrow> u64 \<Rightarrow> u32 \<Rightarrow> kernel \<Rightarrow> 'fs \<Rightarrow> (int \<times> 'fs) option" where
  "sys_mkdir v path mode k = path_call (read_cstr v path) (\<lambda>p. vfs_mkdir v k (cwd_of k) p mode)"

definition sys_rmdir :: "'fs env \<Rightarrow> u64 \<Rightarrow> kernel \<Rightarrow> 'fs \<Rightarrow> (int \<times> 'fs) option" where
  "sys_rmdir v path k = path_call (read_cstr v path) (vfs_rmdir v k (cwd_of k))"

definition sys_unlink :: "'fs env \<Rightarrow> u64 \<Rightarrow> kernel \<Rightarrow> 'fs \<Rightarrow> (int \<times> 'fs) option" where
  "sys_unlink v path k = path_call (read_cstr v path) (vfs_unlink v k (cwd_of k))"

definition sys_unlinkat :: "'fs env \<Rightarrow> u64 \<Rightarrow> u32 \<Rightarrow> kernel \<Rightarrow> 'fs \<Rightarrow> (int \<times> 'fs) option" where
  "sys_unlinkat v path flags = (if flags AND 0x200 \<noteq> 0 then sys_rmdir v path else sys_unlink v path)"

definition sys_symlink :: "'fs env \<Rightarrow> u64 \<Rightarrow> u64 \<Rightarrow> kernel \<Rightarrow> 'fs \<Rightarrow> (int \<times> 'fs) option" where
  "sys_symlink v target linkpath k fs = (case read_cstr v target of
      None \<Rightarrow> Some (-14, fs)
    | Some t \<Rightarrow> path_call (read_cstr v linkpath) (vfs_symlink v k (cwd_of k) t) fs)"

definition sys_rename :: "'fs env \<Rightarrow> u64 \<Rightarrow> u64 \<Rightarrow> kernel \<Rightarrow> 'fs \<Rightarrow> (int \<times> 'fs) option" where
  "sys_rename v old_path new_path k fs = (case read_cstr v old_path of
      None \<Rightarrow> Some (-14, fs)
    | Some a \<Rightarrow> path_call (read_cstr v new_path) (vfs_rename v k (cwd_of k) a) fs)"

text \<open>
  The process table is behind a spin lock that is not reentrant; \<open>with_current\<close>, \<open>with_current_mut\<close> and the lookup of
  the root directory in \<open>abs_path\<close> take it.  \<open>held\<close> says whether the caller holds it already.
\<close>

definition lock_table :: "bool \<Rightarrow> (bool \<Rightarrow> 'a option) \<Rightarrow> 'a option" where
  "lock_table held body = (if held then None else body True)"

definition abs_path_locked :: "bool \<Rightarrow> kernel \<Rightarrow> string \<Rightarrow> string \<Rightarrow> string option" where
  "abs_path_locked held k cwd path = lock_table held (\<lambda>_. Some (abs_path k cwd path))"

definition sys_chroot :: "'fs env \<Rightarrow> u64 \<Rightarrow> kernel \<Rightarrow> 'fs \<Rightarrow> (int \<times> kernel) option" where
  "sys_chroot v path k fs = (case read_cstr v path of
      None \<Rightarrow> Some (-14, k)
    | Some p \<Rightarrow> Option.bind
        (lock_table False (\<lambda>held. case bt_get (k_procs k) (k_current k) of
            None \<Rightarrow> Some None
          | Some pr \<Rightarrow> map_option
              (\<lambda>ap. Some (resolve_inode_inner (e_ops v) (e_mounts v) (effective_root k) fs ap True 0))
              (abs_path_locked held k (get_cwd pr (k_groups k)) p)))
        (\<lambda>r. case r of
            None \<Rightarrow> Some (-14, k)
          | Some (Inl e) \<Rightarrow> Some (uint e, k)
          | Some (Inr (sb, i)) \<Rightarrow>
              if \<not> s_isdir (i_mode i) then Some (uint ENOTDIR, k)
              else map_option (\<lambda>ap. (0, current_op (set_root ap) k))
                (lock_table False (\<lambda>held. case bt_get (k_procs k) (k_current k) of
                    None \<Rightarrow> Some [slash]
                  | Some pr \<Rightarrow> abs_path_locked held k (get_cwd pr (k_groups k)) p))))"

section \<open>The descriptors of the current process\<close>

text \<open>A current process whose thread group, if it has one, is in the store.\<close>

definition running :: "kernel \<Rightarrow> bool" where
  "running k \<longleftrightarrow> (case bt_get (k_procs k) (k_current k) of
      None \<Rightarrow> False
    | Some p \<Rightarrow> (case p_thread_group p of None \<Rightarrow> True | Some g \<Rightarrow> g < length (k_groups k)))"

lemma runningE:
  assumes "running k"
  obtains p where "bt_get (k_procs k) (k_current k) = Some p"
    "\<forall>g. p_thread_group p = Some g \<longrightarrow> g < length (k_groups k)"
  using assms by (auto simp: running_def split: option.splits)

lemma put_current_fields [simp]:
  "bt_get (k_procs (put_current x k)) (k_current k) = map_option (\<lambda>_. fst x) (bt_get (k_procs k) (k_current k))"
  "k_groups (put_current x k) = snd x" "k_current (put_current x k) = k_current k"
  by (simp_all add: put_current_def with_process_mut_def bt_simps)

lemma fd_table_upd_of:
  assumes "\<forall>g. p_thread_group p = Some g \<longrightarrow> g < length gs"
  shows "fd_table_of (fst (fd_table_upd f p gs)) (snd (fd_table_upd f p gs)) = f (fd_table_of p gs)"
    "p_thread_group (fst (fd_table_upd f p gs)) = p_thread_group p" "length (snd (fd_table_upd f p gs)) = length gs"
  using assms by (auto simp: fd_table_upd_def fd_table_of_def split: option.splits)

lemma next_fd_set_of:
  assumes "\<forall>g. p_thread_group p = Some g \<longrightarrow> g < length gs"
  shows "fd_table_of (fst (next_fd_set n p gs)) (snd (next_fd_set n p gs)) = fd_table_of p gs"
    "p_thread_group (fst (next_fd_set n p gs)) = p_thread_group p" "length (snd (next_fd_set n p gs)) = length gs"
  using assms by (auto simp: next_fd_set_def fd_table_of_def split: option.splits)

lemma current_alloc_fd_new:
  assumes "running k" "current_alloc_fd f k = Some (Some n, k')"
  shows "current_fd m k' = (if m = n then Some f else current_fd m k)" "running k'" "k_current k' = k_current k"
proof -
  obtain p where p: "bt_get (k_procs k) (k_current k) = Some p" "\<forall>g. p_thread_group p = Some g \<longrightarrow> g < length (k_groups k)"
    using assms(1) by (rule runningE)
  let ?x = "next_fd_set (n + 1) p (k_groups k)"
  let ?y = "fd_table_upd (bt_insert n f) (fst ?x) (snd ?x)"
  have k': "k' = put_current ?y k"
    using assms(2) p(1) by (auto simp: current_alloc_fd_def alloc_fd_def bind_eq_Some_conv Let_def case_prod_unfold)
  note x = next_fd_set_of [OF p(2), where n = "n + 1"]
  have g: "\<forall>g. p_thread_group (fst ?x) = Some g \<longrightarrow> g < length (snd ?x)" using x p(2) by simp
  note y = fd_table_upd_of [OF g, where f = "bt_insert n f"]
  show "current_fd m k' = (if m = n then Some f else current_fd m k)"
    using k' p(1) x(1) y(1) by (simp add: current_fd_def get_fd_def bt_simps)
  show "running k'" using k' p x(2,3) y(2,3) by (auto simp: running_def split: option.splits)
  show "k_current k' = k_current k" using k' by simp
qed

lemma current_fd_mut_op:
  assumes "running k"
  shows "current_fd m (current_op (get_fd_mut_op n g) k) = (if m = n then map_option g (current_fd n k) else current_fd m k)"
    "running (current_op (get_fd_mut_op n g) k)"
proof -
  obtain p where p: "bt_get (k_procs k) (k_current k) = Some p" "\<forall>g. p_thread_group p = Some g \<longrightarrow> g < length (k_groups k)"
    using assms(1) by (rule runningE)
  note y = fd_table_upd_of [OF p(2), where f = "bt_adjust n g"]
  show "current_fd m (current_op (get_fd_mut_op n g) k) = (if m = n then map_option g (current_fd n k) else current_fd m k)"
    using p(1) y(1) by (simp add: current_op_def current_fd_def get_fd_def get_fd_mut_op_def bt_simps)
  show "running (current_op (get_fd_mut_op n g) k)"
    using p y(2,3) by (auto simp: running_def current_op_def get_fd_mut_op_def split: option.splits)
qed

lemma current_fd_advance:
  assumes "running k"
  shows "current_fd m (advance_fd n moves d k) =
      (if m = n then map_option (\<lambda>f. if moves (fd_kind f) then f\<lparr>fd_offset := fd_offset f + of_nat d\<rparr> else f) (current_fd n k)
       else current_fd m k)" "running (advance_fd n moves d k)"
  unfolding advance_fd_def using current_fd_mut_op [OF assms] by blast+

definition fds_left :: "kernel \<Rightarrow> bool" where
  "fds_left k \<longleftrightarrow> (\<exists>j. 3 \<le> j \<and> unat j < MAX_FDS \<and> current_fd j k = None) \<and>
     (\<forall>p. bt_get (k_procs k) (k_current k) = Some p \<longrightarrow> unat (next_fd_of p (k_groups k)) + 1 < 2 ^ 32)"

lemma install_fd_new:
  assumes "running k" "fds_left k"
  shows "\<exists>n k'. install_fd k (Some (Inr f, fs)) = Some (uint n, k', fs) \<and> current_fd n k = None \<and> running k' \<and>
    (\<forall>m. current_fd m k' = (if m = n then Some f else current_fd m k))"
proof -
  obtain p where p: "bt_get (k_procs k) (k_current k) = Some p" using assms(1) by (rule runningE)
  obtain j where j: "3 \<le> j" "unat j < MAX_FDS" "get_fd j p (k_groups k) = None" "unat (next_fd_of p (k_groups k)) + 1 < 2 ^ 32"
    using assms(2) p by (auto simp: fds_left_def current_fd_def)
  obtain n x gs where n: "alloc_fd f p (k_groups k) = Some (n, x, gs)" "get_fd n p (k_groups k) = None"
    using alloc_fd_returns_free [OF j, of f] by blast
  then have c: "current_alloc_fd f k = Some (Some n, put_current (x, gs) k)" using p by (simp add: current_alloc_fd_def)
  have "install_fd k (Some (Inr f, fs)) = Some (uint n, put_current (x, gs) k, fs)" using c by (simp add: install_fd_def)
  moreover have "current_fd n k = None" using p n(2) by (simp add: current_fd_def)
  ultimately show ?thesis using current_alloc_fd_new [OF assms(1) c] by blast
qed

section \<open>Files of tmpfs through descriptors\<close>

lemma on_state_nth:
  assumes "sb < length (fst fs)" "g (fst fs ! sb) = (r, st)"
  shows "on_state sb g fs = Some (r, (fst fs)[sb := st], snd fs)"
  using assms by (simp add: on_state_def)

text \<open>A call that creates a file of tmpfs in the directory its path leads to.\<close>

definition creates ::
    "(tmp_state list \<times> memory) env \<Rightarrow> u64 \<Rightarrow> u32 \<Rightarrow> kernel \<Rightarrow> tmp_state list \<times> memory \<Rightarrow> nat \<Rightarrow> bool" where
  "creates v path flags k fs sb \<longleftrightarrow> (case read_cstr v path of None \<Rightarrow> False | Some p \<Rightarrow>
     handle_virtual_fs_path (e_built v) (abs_path k (cwd_of k) p) = None \<and>
     resolve_inode (e_ops v) (e_mounts v) k fs (cwd_of k) p = Inl ENOENT \<and> flags AND O_CREAT \<noteq> 0 \<and>
     (case parent_inode v k (cwd_of k) (fst (split_path p)) fs of Inl _ \<Rightarrow> False | Inr (s, d) \<Rightarrow>
        s = sb \<and> dir_at (fst fs ! sb) (i_ino d) \<noteq> None))"

lemma open_creates:
  assumes "running k" "fds_left k" "e_ops v = tmpfs_ops cpu cred now" "creates v path flags k fs sb"
    and "sb < length (fst fs)" "fs_inv (fst fs ! sb) (snd fs)" "unat (ts_next_ino (fst fs ! sb)) + 1 < 2 ^ 64"
  shows "\<exists>n f k1 st. sys_open v path flags mode k fs = Some (uint n, k1, (fst fs)[sb := st], snd fs) \<and>
    current_fd n k = None \<and> running k1 \<and> current_fd n k1 = Some f \<and> fd_kind f = Regular \<and> fd_offset f = 0 \<and> fd_flags f = O_RDWR \<and>
    i_ops (fd_inode f) = FsOps sb \<and> i_size (fd_inode f) = 0 \<and> fs_inv st (snd fs) \<and> bytes_at st (snd fs) (i_ino (fd_inode f)) = Some []"
proof -
  obtain p where p: "read_cstr v path = Some p" "handle_virtual_fs_path (e_built v) (abs_path k (cwd_of k) p) = None"
    "resolve_inode (e_ops v) (e_mounts v) k fs (cwd_of k) p = Inl ENOENT" "flags AND O_CREAT \<noteq> 0"
    using assms(4) by (auto simp: creates_def split: option.splits)
  obtain d where d: "parent_inode v k (cwd_of k) (fst (split_path p)) fs = Inr (sb, d)" "dir_at (fst fs ! sb) (i_ino d) \<noteq> None"
    using assms(4) p(1) by (auto simp: creates_def split: sum.splits)
  obtain ino st where c: "tmp_create cred now (i_ino d) (snd (split_path p)) mode (fst fs ! sb) = (Inr ino, st)"
    "i_size ino = 0" "fs_inv st (snd fs)" "i_ino ino = ts_next_ino (fst fs ! sb)"
    "\<forall>j. file_at st j = (if j = ts_next_ino (fst fs ! sb) then Some tmp_file_new else file_at (fst fs ! sb) j)"
    using tmp_create_ok [OF assms(6) d(2) assms(7), of cred now "snd (split_path p)" mode] by blast
  let ?f = "\<lparr>fd_inode = with_ops (FsOps sb) ino, fd_offset = 0, fd_flags = O_RDWR, fd_kind = Regular, fd_path = abs_path k (cwd_of k) p\<rparr>"
  have "fo_create (e_ops v) sb (i_ino d) (snd (split_path p)) mode fs = Some (Inr ino, (fst fs)[sb := st], snd fs)"
    using on_state_nth [of sb fs "tmp_create cred now (i_ino d) (snd (split_path p)) mode", OF assms(5) c(1)] assms(3)
    by (simp add: tmpfs_ops_def)
  then have "create_file_at v k (cwd_of k) p mode fs = Some (Inr ?f, (fst fs)[sb := st], snd fs)"
    using d(1) by (simp add: create_file_at_def case_prod_unfold)
  then have "vfs_open v k (cwd_of k) p flags mode fs = Some (Inr ?f, (fst fs)[sb := st], snd fs)"
    using p by (simp add: vfs_open_def)
  then have o: "sys_open v path flags mode k fs = install_fd k (Some (Inr ?f, (fst fs)[sb := st], snd fs))"
    using p(1) by (simp add: sys_open_def)
  obtain n k1 where n: "install_fd k (Some (Inr ?f, (fst fs)[sb := st], snd fs)) = Some (uint n, k1, (fst fs)[sb := st], snd fs)"
    "current_fd n k = None" "running k1" "current_fd n k1 = Some ?f"
    using install_fd_new [OF assms(1,2), of ?f "((fst fs)[sb := st], snd fs)"] by auto
  have "bytes_at st (snd fs) (i_ino ino) = Some []" using c(4,5) by (simp add: bytes_at_def content_def tmp_file_new_def)
  then show ?thesis using o n c(2,3)
    by (intro exI [of _ n] exI [of _ ?f] exI [of _ k1] exI [of _ st]) simp
qed

lemma on_memory_nth:
  assumes "g (fst fs ! sb) (snd fs) = Some (r, st, m)"
  shows "on_memory sb g fs = Some (r, (fst fs)[sb := st], m)"
  using assms by (simp add: on_memory_def)

lemma user_bytes_length [simp]: "length (user_bytes v buf count) = count"
  by (simp add: user_bytes_def)

lemma user_bytes_Nil [simp]: "user_bytes v buf count = [] \<longleftrightarrow> count = 0"
  by (simp add: user_bytes_def)

text \<open>Writing through a descriptor of a tmpfs file overlays the bytes at the descriptor's offset.\<close>

lemma write_file:
  assumes "running k" "current_fd n k = Some f" "fd_kind f = Regular" "i_ops (fd_inode f) = FsOps sb"
    and "e_ops v = tmpfs_ops cpu cred now" "sb < length (fst fs)" "fs_inv (fst fs ! sb) (snd fs)"
    and "bytes_at (fst fs ! sb) (snd fs) (i_ino (fd_inode f)) = Some xs"
    and "0 < count" "buf \<noteq> 0" "is_user_ptr_valid v buf count" "unat (fd_offset f) + count \<le> 2 ^ 64 - TMPFS_PAGE_SIZE"
  shows "\<exists>w k' st m. sys_write v n buf count k fs = Some (Finished w, k', (fst fs)[sb := st], m) \<and> fs_inv st m \<and>
    (w = int count \<and> bytes_at st m (i_ino (fd_inode f)) = Some (overlay (unat (fd_offset f)) (user_bytes v buf count) xs) \<and>
       k' = advance_fd n (\<lambda>kd. kd = Regular) count k \<or>
     w = -12 \<and> bytes_at st m (i_ino (fd_inode f)) = Some xs \<and> k' = k)"
proof -
  let ?i = "i_ino (fd_inode f)" and ?d = "user_bytes v buf count"
  obtain r st m where w: "tmp_write cpu now ?i ?d (fd_offset f) (fst fs ! sb) (snd fs) = Some (r, st, m)"
    "fs_kept (fst fs ! sb) (snd fs) st m"
    "\<forall>xs. bytes_at (fst fs ! sb) (snd fs) ?i = Some xs \<longrightarrow>
       r = Inr (length ?d) \<and> bytes_at st m ?i = Some (overlay (unat (fd_offset f)) ?d xs) \<or> r = Inl ENOMEM \<and> bytes_at st m ?i = Some xs"
    using write_kept [OF assms(7), of "fd_offset f" ?d cpu now ?i] assms(12) by auto
  have "write_fd v f ?d k fs = Some (Finished r, k, (fst fs)[sb := st], m)"
    using assms(3,4,5) on_memory_nth [of "tmp_write cpu now ?i ?d (fd_offset f)", OF w(1)]
    by (simp add: write_fd_def ino_write_def tmpfs_ops_def)
  then have "sys_write v n buf count k fs = Some (case r of
      Inl e \<Rightarrow> (Finished (vfs_err e), k, (fst fs)[sb := st], m)
    | Inr c \<Rightarrow> (Finished (int c), advance_fd n (\<lambda>kd. kd = Regular) c k, (fst fs)[sb := st], m))"
    using assms(2,9,10,11) by (simp add: sys_write_def write_bytes_at_def split: sum.splits)
  then show ?thesis using w(2) w(3) [rule_format, OF assms(8)] by (auto simp: fs_kept_def vfs_err_def)
qed

lemma pread_file:
  assumes "current_fd n k = Some f" "fd_kind f = Regular" "i_ops (fd_inode f) = FsOps sb" "e_ops v = tmpfs_ops cpu cred now"
    and "fs_inv (fst fs ! sb) (snd fs)" "bytes_at (fst fs ! sb) (snd fs) (i_ino (fd_inode f)) = Some xs"
  shows "sys_pread64 v n len off k fs =
    Some (Finished (int (length (take len (drop (unat off) xs))), take len (drop (unat off) xs)), k)"
  using assms(1-4) tmp_read_bytes [OF assms(5,6), of len off]
  by (simp add: sys_pread64_def read_fd_def ino_read_def tmpfs_ops_def)

lemma create_then_write:
  assumes "running k" "fds_left k" "e_ops v = tmpfs_ops cpu cred now" "creates v path flags k fs sb"
    and "sb < length (fst fs)" "fs_inv (fst fs ! sb) (snd fs)" "unat (ts_next_ino (fst fs ! sb)) + 1 < 2 ^ 64"
    and "0 < count" "buf \<noteq> 0" "is_user_ptr_valid v buf count" "count \<le> 2 ^ 64 - TMPFS_PAGE_SIZE"
  shows "\<exists>n k1 fs1 w k2 fs2 f xs. sys_open v path flags mode k fs = Some (uint n, k1, fs1) \<and> current_fd n k = None \<and>
    sys_write v n buf count k1 fs1 = Some (Finished w, k2, fs2) \<and> running k2 \<and> current_fd n k2 = Some f \<and> fd_kind f = Regular \<and>
    i_ops (fd_inode f) = FsOps sb \<and> i_size (fd_inode f) = 0 \<and> fs_inv (fst fs2 ! sb) (snd fs2) \<and>
    bytes_at (fst fs2 ! sb) (snd fs2) (i_ino (fd_inode f)) = Some xs \<and> (w = int count \<and> xs = user_bytes v buf count \<or> w = -12 \<and> xs = [])"
proof -
  obtain n f k1 st where o: "sys_open v path flags mode k fs = Some (uint n, k1, (fst fs)[sb := st], snd fs)"
    "current_fd n k = None" "running k1" "current_fd n k1 = Some f" "fd_kind f = Regular" "fd_offset f = 0"
    "i_ops (fd_inode f) = FsOps sb" "i_size (fd_inode f) = 0" "fs_inv st (snd fs)" "bytes_at st (snd fs) (i_ino (fd_inode f)) = Some []"
    using open_creates [OF assms(1-7), of mode] by blast
  let ?fs = "((fst fs)[sb := st], snd fs)" and ?d = "user_bytes v buf count"
  have st: "fst ?fs ! sb = st" "sb < length (fst ?fs)" using assms(5) by simp_all
  obtain w k2 st2 m where w: "sys_write v n buf count k1 ?fs = Some (Finished w, k2, (fst ?fs)[sb := st2], m)" "fs_inv st2 m"
    "w = int count \<and> bytes_at st2 m (i_ino (fd_inode f)) = Some (overlay 0 ?d []) \<and> k2 = advance_fd n (\<lambda>kd. kd = Regular) count k1 \<or>
     w = -12 \<and> bytes_at st2 m (i_ino (fd_inode f)) = Some [] \<and> k2 = k1"
    using write_file [OF o(3,4,5,7) assms(3), of ?fs "[]" count buf] st o(6,9,10) assms(8-11) by fastforce
  define fs2 f2 xs where "fs2 = ((fst ?fs)[sb := st2], m)"
    and "f2 = (if w = -12 then f else f\<lparr>fd_offset := fd_offset f + of_nat count\<rparr>)" and "xs = (if w = -12 then [] else ?d)"
  have fd: "running k2" "current_fd n k2 = Some f2"
    using w(3) o(3,4,5) current_fd_advance(1) [OF o(3), of n n "\<lambda>kd. kd = Regular" count]
      current_fd_advance(2) [OF o(3), of n "\<lambda>kd. kd = Regular" count] by (auto simp: f2_def)
  have "overlay 0 ?d [] = ?d" using assms(8) by (simp add: overlay_def)
  then have x: "bytes_at st2 m (i_ino (fd_inode f2)) = Some xs" "w = int count \<and> xs = ?d \<or> w = -12 \<and> xs = []"
    using w(3) by (auto simp: f2_def xs_def)
  have f2: "fd_kind f2 = Regular" "i_ops (fd_inode f2) = FsOps sb" "i_size (fd_inode f2) = 0"
    using o(5,7,8) by (simp_all add: f2_def)
  have fs2: "fst fs2 ! sb = st2" "snd fs2 = m" "sys_write v n buf count k1 ?fs = Some (Finished w, k2, fs2)"
    using assms(5) w(1) by (simp_all add: fs2_def)
  have "fs_inv (fst fs2 ! sb) (snd fs2)" "bytes_at (fst fs2 ! sb) (snd fs2) (i_ino (fd_inode f2)) = Some xs"
    using fs2(1,2) w(2) x(1) by simp_all
  with o(1,2) fs2(3) fd f2 x(2) show ?thesis by blast
qed

text \<open>A kernel with one process, an empty tmpfs mounted at the root, and the path \<open>/a\<close> at address \<open>0x1000\<close> of user memory.\<close>

definition demo_kernel :: kernel where
  "demo_kernel = (kernel_boot 1)\<lparr>k_procs := [(1, process_new_kernel 1 0 0 0)], k_current := 1\<rparr>"

definition demo_env :: "(tmp_state list \<times> memory) env" where
  "demo_env = \<lparr>e_mounts = [\<lparr>mp_path = ''/'', mp_sb = 0\<rparr>], e_ops = tmpfs_ops 0 (0, 0) 5, e_regions = None, e_qsf = qsf_boot,
     e_mem = (\<lambda>a. if a = 0x1000 then 0x2F else if a = 0x1001 then 0x61 else if a = 0x2000 then 7 else if a = 0x2001 then 8 else 0),
     e_built = (\<lambda>_. []), e_dev_read = (\<lambda>_ _ _ _. None), e_dev_write = (\<lambda>_ _ _ _. None)\<rparr>"

definition demo_fs :: "tmp_state list \<times> memory" where
  "demo_fs = ([tmp_state_new], one_frame_memory)"

lemma demo_process:
  "bt_get (k_procs demo_kernel) (k_current demo_kernel) = Some (process_new_kernel 1 0 0 0)"
  by (simp add: demo_kernel_def bt_get_def)

lemma demo_running: "running demo_kernel" "fds_left demo_kernel" "cwd_of demo_kernel = ''/''" "effective_root demo_kernel = ''/''"
proof -
  show "running demo_kernel" by (simp add: running_def demo_process process_new_kernel_def)
  have "current_fd 3 demo_kernel = None"
    by (simp add: current_fd_def demo_process get_fd_def fd_table_of_def process_new_kernel_def)
  then show "fds_left demo_kernel"
    by (auto simp: fds_left_def demo_process next_fd_of_def process_new_kernel_def MAX_FDS_def intro!: exI [of _ 3])
  show "cwd_of demo_kernel = ''/''" by (simp add: cwd_of_def demo_process get_cwd_def process_new_kernel_def)
  show "effective_root demo_kernel = ''/''"
    by (simp add: effective_root_def demo_process get_root_def process_new_kernel_def namespaces_root_def Let_def)
qed

lemma demo_ptr: "is_user_ptr_valid demo_env 0x1000 (Suc 0)" "is_user_ptr_valid demo_env 0x2000 2"
  by (simp_all add: is_user_ptr_valid_def verify_user_ptr_def demo_env_def USER_TOP_def Let_def)

lemma demo_path: "read_cstr demo_env 0x1000 = Some ''/a''"
proof -
  have c: "char_of (47 :: nat) = CHR ''/''" "char_of (97 :: nat) = CHR ''a''"
    using char_of_char [where 'a = nat, of "CHR ''/''"] char_of_char [where 'a = nat, of "CHR ''a''"] by simp_all
  have "read_cstr demo_env 0x1000 = read_cstr_loop (e_mem demo_env) 0x1000 []" by (simp add: read_cstr_def demo_ptr)
  then show ?thesis by (simp add: demo_env_def read_cstr_loop.simps push_char_def c)
qed

lemma demo_creates: "creates demo_env 0x1000 O_CREAT demo_kernel demo_fs 0"
proof -
  have ap: "abs_path demo_kernel ''/'' ''/a'' = ''/a''" "abs_path demo_kernel ''/'' ''/'' = ''/''"
    by (simp_all add: abs_path_def abs_path_in_def demo_running starts_slash_def canonicalize_def canon_step_def join_parts_def)
  have m: "find_mount (e_mounts demo_env) ''/a'' = Some (0, ''a'')" "find_mount (e_mounts demo_env) ''/'' = Some (0, ''/'')"
    by (simp_all add: demo_env_def find_mount_def covers_def starts_slash_def trim_start_def Let_def)
  have v: "handle_virtual_fs_path (e_built demo_env) ''/a'' = None"
    by (simp add: handle_virtual_fs_path_def virtual_files_def built_files_def)
  obtain r where r: "make_inode 1 tmp_state_new = Inr r" "i_ino r = 1" by (simp add: make_inode_def tmp_state_new_def bt_get_def)
  then have root: "fo_root (e_ops demo_env) 0 demo_fs = Inr r" by (simp add: demo_env_def tmpfs_ops_def tmp_get_root_def demo_fs_def)
  have l: "fo_lookup (e_ops demo_env) 0 1 ''a'' demo_fs = Inl ENOENT"
    by (simp add: demo_env_def tmpfs_ops_def demo_fs_def tmp_lookup_def dir_lookup_def tmp_state_new_def bt_get_def)
  have "resolve_inode (e_ops demo_env) (e_mounts demo_env) demo_kernel demo_fs ''/'' ''/a'' = Inl ENOENT"
    by (simp add: resolve_inode_def ap resolve_inode_inner.simps m root path_parts_def r(2) l)
  moreover have "parent_inode demo_env demo_kernel ''/'' ''/'' demo_fs = Inr (0, r)"
    by (simp add: parent_inode_def ap m root path_parts_def)
  moreover have "fst (split_path ''/a'') = ''/''" by (simp add: split_path_def rfind_slash_def starts_slash_def)
  ultimately show ?thesis
    using r(2) by (simp add: creates_def demo_path demo_running ap v demo_fs_def tmp_state_new_def dir_at_def bt_get_def)
qed

lemma demo_fs_facts:
  "e_ops demo_env = tmpfs_ops 0 (0, 0) 5" "0 < length (fst demo_fs)" "fs_inv (fst demo_fs ! 0) (snd demo_fs)"
  "unat (ts_next_ino (fst demo_fs ! 0)) + 1 < 2 ^ 64" "(2 :: nat) \<le> 2 ^ 64 - TMPFS_PAGE_SIZE"
  using tmp_state_new_inv(1) [of one_frame_memory]
  by (simp_all add: demo_env_def demo_fs_def one_frame_memory_def one_frame_state_facts tmp_state_new_def TMPFS_PAGE_SIZE_def)

section \<open>Strings in user memory\<close>

lemma unat_of_char: "unat (of_char c :: u8) = of_char c"
proof -
  have "(of_char c :: nat) < 256" by (rule nat_of_char_less_256)
  then show ?thesis using unat_of_nat [where 'a = 8, of "of_char c"] by (simp add: of_nat_of_char)
qed

lemma push_char_ascii:
  assumes "(of_char c :: nat) < 0x80"
  shows "push_char (of_char c) = [c]"
  using assms unat_of_char [of c] by (simp add: push_char_def word_less_nat_alt)

lemma read_cstr_loop_ascii:
  assumes "\<forall>i<length s. mem (p + of_nat i) = of_char (s ! i)" "mem (p + of_nat (length s)) = 0"
    and "\<forall>c\<in>set s. 0 < (of_char c :: nat) \<and> (of_char c :: nat) < 0x80" "length acc \<le> 4096"
  shows "read_cstr_loop mem p acc = (if length acc + length s \<le> 4096 then Some (acc @ s) else None)"
  using assms
proof (induction s arbitrary: p acc)
  case Nil
  then show ?case by (simp add: read_cstr_loop.simps)
next
  case (Cons c s)
  have m: "mem p = of_char c" using Cons.prems(1) by force
  have "0 < (of_char c :: nat)" "(of_char c :: nat) < 0x80" using Cons.prems(3) by simp_all
  then have c: "mem p \<noteq> 0" "push_char (mem p) = [c]"
    using m unat_of_char [of c] by (auto simp: push_char_ascii)
  have step: "read_cstr_loop mem p acc = (if 4096 < length (acc @ [c]) then None else read_cstr_loop mem (p + 1) (acc @ [c]))"
    using c by (subst read_cstr_loop.simps) (simp add: Let_def)
  have s: "\<forall>i<length s. mem (p + 1 + of_nat i) = of_char (s ! i)"
  proof (intro allI impI)
    fix i assume "i < length s"
    then show "mem (p + 1 + of_nat i) = of_char (s ! i)"
      using Cons.prems(1) [rule_format, of "Suc i"] by (simp add: add.assoc)
  qed
  have z: "mem (p + 1 + of_nat (length s)) = 0" using Cons.prems(2) by (simp add: add.assoc)
  show ?case
    using step Cons.IH [OF s z, of "acc @ [c]"] Cons.prems(3) by auto
qed

section \<open>Listing a directory in pieces\<close>

definition as_entry :: "dirent \<Rightarrow> dir_entry" where
  "as_entry d = \<lparr>de_name = d_name d, de_ino = d_ino d, de_file_type = d_type d\<rparr>"

lemma getdents_loop_split:
  assumes "getdents_loop count skip w n es = (ds, w', n')"
  shows "\<exists>j\<le>length es. n' = n + j \<and> map as_entry ds = take j es \<and>
    (j < length es \<longrightarrow> count < w' + dirent_reclen (de_name (es ! j))) \<and> (j = 0 \<longrightarrow> w' = w) \<and> (0 < j \<longrightarrow> w < w' \<and> w' \<le> count)"
  using assms
proof (induction es arbitrary: w n ds)
  case (Cons e es)
  show ?case
  proof (cases "count < w + dirent_reclen (de_name e)")
    case True
    then show ?thesis using Cons.prems by (auto simp: Let_def)
  next
    case False
    let ?w = "w + dirent_reclen (de_name e)"
    obtain ds1 r where r: "getdents_loop count skip ?w (n + 1) es = (ds1, r)" by (cases "getdents_loop count skip ?w (n + 1) es")
    then have e: "r = (w', n')" "map as_entry ds = e # map as_entry ds1"
      using Cons.prems False by (auto simp: Let_def as_entry_def)
    obtain j where j: "j \<le> length es" "n' = n + 1 + j" "map as_entry ds1 = take j es"
      "j < length es \<longrightarrow> count < w' + dirent_reclen (de_name (es ! j))" "j = 0 \<longrightarrow> w' = ?w" "0 < j \<longrightarrow> ?w < w' \<and> w' \<le> count"
      using Cons.IH [of ?w "n + 1" ds1] r e(1) by auto
    moreover have "0 < dirent_reclen (de_name e)" by (simp add: dirent_reclen_def max_def)
    ultimately show ?thesis using e(2) False by (intro exI [of _ "Suc j"]) auto
  qed
qed simp

text \<open>A program that calls \<open>getdents64\<close> until nothing is returned, at most \<open>fuel\<close> times.\<close>

fun list_dir :: "'fs env \<Rightarrow> u32 \<Rightarrow> nat \<Rightarrow> nat \<Rightarrow> kernel \<Rightarrow> 'fs \<Rightarrow> dirent list option" where
  "list_dir v fd count 0 k fs = None"
| "list_dir v fd count (Suc fuel) k fs =
     (let (r, ds, k') = sys_getdents64 v fd count k fs in
      if r < 0 then None else if r = 0 then Some [] else map_option ((@) ds) (list_dir v fd count fuel k' fs))"

lemma list_dir_from:
  assumes "running k" "current_fd n k = Some f" "s_isdir (i_mode (fd_inode f))" "ino_readdir v (fd_inode f) fs = Inr es"
    and "\<forall>e\<in>set es. dirent_reclen (de_name e) \<le> count" "length es < 2 ^ 64" "unat (fd_offset f) \<le> length es"
    and "length es - unat (fd_offset f) < fuel"
  shows "\<exists>ds. list_dir v n count fuel k fs = Some ds \<and> map as_entry ds = drop (unat (fd_offset f)) es"
  using assms(1,2,3,4,7,8)
proof (induction fuel arbitrary: k f)
  case (Suc fuel)
  let ?o = "unat (fd_offset f)"
  obtain ds w' n' where g: "getdents_loop count (fd_offset f) 0 0 (drop ?o es) = (ds, w', n')" by (metis prod_cases3)
  obtain j where j: "j \<le> length es - ?o" "n' = j" "map as_entry ds = take j (drop ?o es)"
    "j < length es - ?o \<longrightarrow> count < w' + dirent_reclen (de_name (drop ?o es ! j))" "j = 0 \<longrightarrow> w' = 0" "0 < j \<longrightarrow> 0 < w'"
    using getdents_loop_split [OF g] by auto
  have s: "sys_getdents64 v n count k fs = (int w', ds, if 0 < j then advance_fd n (\<lambda>_. True) j k else k)"
    using Suc.prems(2-4) g j(2) by (simp add: sys_getdents64_def getdents_inner_def)
  show ?case
  proof (cases "j = 0")
    case True
    have "?o = length es"
    proof (rule ccontr)
      assume "?o \<noteq> length es"
      then have "?o < length es" using Suc.prems(5) by simp
      then have "es ! ?o \<in> set es" by simp
      then show False using True j(4,5) assms(5) \<open>?o < length es\<close> by fastforce
    qed
    then show ?thesis using True j(5) s by simp
  next
    case False
    let ?f = "f\<lparr>fd_offset := fd_offset f + of_nat j\<rparr>"
    have "?o + j < 2 ^ 64" using j(1) Suc.prems(5) assms(6) by simp
    then have o: "unat (fd_offset ?f) = ?o + j" by (simp add: unat_word_ariths unat_of_nat mod_simps)
    have fd: "current_fd n (advance_fd n (\<lambda>_. True) j k) = Some ?f" "running (advance_fd n (\<lambda>_. True) j k)"
      using current_fd_advance [OF Suc.prems(1)] Suc.prems(2) by simp_all
    have "?o + j \<le> length es" "length es - (?o + j) < fuel" using j(1) Suc.prems(5,6) False by linarith+
    then obtain ds2 where "list_dir v n count fuel (advance_fd n (\<lambda>_. True) j k) fs = Some ds2" "map as_entry ds2 = drop (?o + j) es"
      using Suc.IH [OF fd(2,1)] Suc.prems(3,4) o by auto
    moreover have "take j (drop ?o es) @ drop (?o + j) es = drop ?o es" by (metis add.commute append_take_drop_id drop_drop)
    ultimately show ?thesis using False j(3,6) s by simp
  qed
qed simp

section \<open>Properties\<close>

text \<open>
  C24. A file opened for creation that did not exist gets a descriptor number that was free; bytes written
  through this descriptor are read back from it.  The write stores all bytes or reports \<open>ENOMEM\<close>.  This
  covers the whole way from the path in user memory over the descriptor table and the mount table to the frames of tmpfs.
\<close>

theorem created_file_round_trip:
  assumes "running k" "fds_left k" "e_ops v = tmpfs_ops cpu cred now" "creates v path flags k fs sb"
    and "sb < length (fst fs)" "fs_inv (fst fs ! sb) (snd fs)" "unat (ts_next_ino (fst fs ! sb)) + 1 < 2 ^ 64"
    and "0 < count" "buf \<noteq> 0" "is_user_ptr_valid v buf count" "count \<le> 2 ^ 64 - TMPFS_PAGE_SIZE"
  shows "\<exists>n k1 fs1 w k2 fs2. sys_open v path flags mode k fs = Some (uint n, k1, fs1) \<and> current_fd n k = None \<and>
    sys_write v n buf count k1 fs1 = Some (Finished w, k2, fs2) \<and>
    (w = int count \<and> sys_pread64 v n count 0 k2 fs2 = Some (Finished (int count, user_bytes v buf count), k2) \<or> w = -12)"
proof -
  obtain n k1 fs1 w k2 fs2 f xs where c: "sys_open v path flags mode k fs = Some (uint n, k1, fs1)" "current_fd n k = None"
    "sys_write v n buf count k1 fs1 = Some (Finished w, k2, fs2)" "current_fd n k2 = Some f" "fd_kind f = Regular"
    "i_ops (fd_inode f) = FsOps sb" "fs_inv (fst fs2 ! sb) (snd fs2)" "bytes_at (fst fs2 ! sb) (snd fs2) (i_ino (fd_inode f)) = Some xs"
    "w = int count \<and> xs = user_bytes v buf count \<or> w = -12 \<and> xs = []"
    using create_then_write [OF assms, of mode] by blast
  have "w = int count \<and> sys_pread64 v n count 0 k2 fs2 = Some (Finished (int count, user_bytes v buf count), k2) \<or> w = -12"
    using pread_file [OF c(4-6) assms(3) c(7,8), of count 0] c(9) by auto
  then show ?thesis using c(1-3) by blast
qed

theorem created_file_round_trip_witness:
  "\<exists>n k1 fs1 w k2 fs2. sys_open demo_env 0x1000 O_CREAT 0 demo_kernel demo_fs = Some (uint n, k1, fs1) \<and>
    sys_write demo_env n 0x2000 2 k1 fs1 = Some (Finished w, k2, fs2) \<and>
    (w = 2 \<and> sys_pread64 demo_env n 2 0 k2 fs2 = Some (Finished (2, [7, 8]), k2) \<or> w = -12)"
proof -
  have "[0..<2] = [0, 1]" by (simp add: upt_rec)
  then have b: "user_bytes demo_env 0x2000 2 = [7, 8]" by (simp add: user_bytes_def demo_env_def)
  from created_file_round_trip [OF demo_running(1,2) demo_fs_facts(1) demo_creates demo_fs_facts(2-4) _ _ demo_ptr(2) demo_fs_facts(5), of 0]
  show ?thesis by (simp add: b) blast
qed

text \<open>
  C26. The size a descriptor knows is the one the file had when it was opened.  After creating a file and writing to
  it, seeking to its end goes to position 0, and \<open>fstat\<close> reports size 0, whatever the write stored.
\<close>

theorem seek_end_ignores_writes:
  assumes "running k" "fds_left k" "e_ops v = tmpfs_ops cpu cred now" "creates v path flags k fs sb"
    and "sb < length (fst fs)" "fs_inv (fst fs ! sb) (snd fs)" "unat (ts_next_ino (fst fs ! sb)) + 1 < 2 ^ 64"
    and "0 < count" "buf \<noteq> 0" "is_user_ptr_valid v buf count" "count \<le> 2 ^ 64 - TMPFS_PAGE_SIZE"
  shows "\<exists>n k1 fs1 w k2 fs2. sys_open v path flags mode k fs = Some (uint n, k1, fs1) \<and>
    sys_write v n buf count k1 fs1 = Some (Finished w, k2, fs2) \<and> (w = int count \<or> w = -12) \<and>
    map_option fst (sys_lseek v n 0 2 k2 fs2) = Some 0 \<and> map_option st_size (snd (sys_fstat n k2)) = Some 0"
proof -
  obtain n k1 fs1 w k2 fs2 f xs where c: "sys_open v path flags mode k fs = Some (uint n, k1, fs1)"
    "sys_write v n buf count k1 fs1 = Some (Finished w, k2, fs2)" "current_fd n k2 = Some f"
    "i_ops (fd_inode f) = FsOps sb" "i_size (fd_inode f) = 0" "fs_inv (fst fs2 ! sb) (snd fs2)"
    "bytes_at (fst fs2 ! sb) (snd fs2) (i_ino (fd_inode f)) = Some xs" "w = int count \<or> w = -12"
    using create_then_write [OF assms, of mode] by blast
  have "ino_read v (fd_inode f) 0 0 fs2 = Some (Inr [])"
    using c(4) tmp_read_bytes [OF c(6,7), of 0 0] assms(3) by (simp add: ino_read_def tmpfs_ops_def)
  then have "map_option fst (sys_lseek v n 0 2 k2 fs2) = Some 0"
    using c(3,5) by (simp add: sys_lseek_def lseek_def)
  moreover have "map_option st_size (snd (sys_fstat n k2)) = Some 0" using c(3,5) by (simp add: sys_fstat_def to_stat_def)
  ultimately show ?thesis using c(1,2,8) by blast
qed

theorem seek_end_ignores_writes_witness:
  "\<exists>n k1 fs1 w k2 fs2. sys_open demo_env 0x1000 O_CREAT 0 demo_kernel demo_fs = Some (uint n, k1, fs1) \<and>
    sys_write demo_env n 0x2000 2 k1 fs1 = Some (Finished w, k2, fs2) \<and> map_option fst (sys_lseek demo_env n 0 2 k2 fs2) = Some 0"
  using seek_end_ignores_writes [OF demo_running(1,2) demo_fs_facts(1) demo_creates demo_fs_facts(2-4) _ _ demo_ptr(2) demo_fs_facts(5), of 0]
  by (simp del: map_option_eq_Some) blast

text \<open>
  C25. Listing a directory with a buffer that holds its longest entry ends, and gives every entry exactly once and in order,
  however many calls it takes.
\<close>

theorem getdents_lists_all:
  assumes "running k" "current_fd n k = Some f" "s_isdir (i_mode (fd_inode f))" "fd_offset f = 0"
    and "ino_readdir v (fd_inode f) fs = Inr es" "\<forall>e\<in>set es. dirent_reclen (de_name e) \<le> count" "length es < fuel" "length es < 2 ^ 64"
  shows "\<exists>ds. list_dir v n count fuel k fs = Some ds \<and> map as_entry ds = es"
  using list_dir_from [OF assms(1,2,3,5,6,8), of fuel] assms(4,7) by simp

theorem getdents_lists_all_witness:
  "\<exists>n k ds. list_dir demo_env n 24 3 k demo_fs = Some ds \<and> map d_name ds = [''.'', ''..'']"
proof -
  let ?f = "\<lparr>fd_inode = with_ops (FsOps 0) (projr (make_inode 1 tmp_state_new)), fd_offset = 0, fd_flags = 0, fd_kind = Directory,
    fd_path = ''/''\<rparr>"
  obtain n k where k: "running k" "current_fd n k = Some ?f"
    using install_fd_new [OF demo_running(1,2), of ?f demo_fs] by metis
  have i: "i_mode (projr (make_inode 1 tmp_state_new)) = S_IFDIR OR 0x1ED" "i_ino (projr (make_inode 1 tmp_state_new)) = 1"
    by (simp_all add: make_inode_def tmp_state_new_def bt_get_def)
  let ?es = "[\<lparr>de_name = ''.'', de_ino = 1, de_file_type = 4\<rparr>, \<lparr>de_name = ''..'', de_ino = 1, de_file_type = 4\<rparr>]"
  have es: "ino_readdir demo_env (fd_inode ?f) demo_fs = Inr ?es"
    using i(2) by (simp add: ino_readdir_def demo_env_def tmpfs_ops_def demo_fs_def tmp_readdir_def tmp_state_new_def bt_get_def)
  have "\<exists>ds. list_dir demo_env n 24 3 k demo_fs = Some ds \<and> map as_entry ds = ?es"
    by (rule getdents_lists_all [OF k _ _ es]) (simp_all add: i s_isdir_def dirent_reclen_def)
  then obtain ds where ds: "list_dir demo_env n 24 3 k demo_fs = Some ds" "map as_entry ds = ?es" by (elim exE conjE)
  have "map d_name ds = map de_name (map as_entry ds)" by (simp add: as_entry_def comp_def)
  also have "\<dots> = [''.'', ''..'']" using ds(2) by simp
  finally show ?thesis using ds(1) by (intro exI conjI)
qed

text \<open>
  \<open>sys_chroot\<close> never returns when it is called by a process with a readable path: it resolves the path while it holds
  the lock of the process table, and resolution takes this lock again.
\<close>

theorem chroot_never_returns:
  assumes "read_cstr v path = Some p" "bt_get (k_procs k) (k_current k) \<noteq> None"
  shows "sys_chroot v path k fs = None"
  using assms by (auto simp: sys_chroot_def lock_table_def abs_path_locked_def)

theorem chroot_never_returns_witness: "sys_chroot demo_env 0x1000 demo_kernel demo_fs = None"
  using chroot_never_returns [OF demo_path] by (simp add: demo_process)

text \<open>
  C27. \<open>sys_sendfile\<close> copies nothing.  Its buffer lies on the kernel heap, above the user half of the address space;
  \<open>sys_read\<close> refuses the address, and the call returns 0 with everything unchanged, for every file.
\<close>

theorem sendfile_copies_nothing:
  assumes "USER_TOP \<le> buf"
  shows "sys_sendfile v buf out_fd in_fd count k fs = Some (Finished 0, k, fs)"
proof (cases "count = 0")
  case False
  have "\<not> is_user_ptr_valid v buf (min count 65536)"
    using assms by (auto simp: is_user_ptr_valid_def verify_user_ptr_def USER_TOP_def)
  then have "sys_read v in_fd buf (min count 65536) k fs = Some (Finished (-14, []), k)" using False by (simp add: sys_read_def)
  then show ?thesis using False by (simp add: sys_sendfile_def sendfile_loop.simps [of v buf out_fd in_fd count])
qed (simp add: sys_sendfile_def sendfile_loop.simps)

theorem sendfile_copies_nothing_witness:
  "sys_sendfile demo_env 0xFFFF800000000000 3 4 100 demo_kernel demo_fs = Some (Finished 0, demo_kernel, demo_fs)"
  by (rule sendfile_copies_nothing) (simp add: USER_TOP_def)

text \<open>
  C28. A string of ASCII characters in user memory is read back exactly if it has at most 4096 bytes; a longer
  one is refused.
\<close>

theorem read_cstr_exact:
  assumes "ptr \<noteq> 0" "is_user_ptr_valid v ptr 1" "\<forall>i<length s. e_mem v (ptr + of_nat i) = of_char (s ! i)"
    and "e_mem v (ptr + of_nat (length s)) = 0" "\<forall>c\<in>set s. 0 < (of_char c :: nat) \<and> (of_char c :: nat) < 0x80"
  shows "read_cstr v ptr = (if length s \<le> 4096 then Some s else None)"
  using read_cstr_loop_ascii [OF assms(3-5), where acc = "[]"] assms(1,2) by (simp add: read_cstr_def)

theorem read_cstr_exact_witness: "read_cstr demo_env 0x1000 = Some ''/a''"
proof -
  have "\<forall>i<length ''/a''. e_mem demo_env (0x1000 + of_nat i) = of_char (''/a'' ! i)"
    by (simp add: demo_env_def less_Suc_eq)
  then show ?thesis using read_cstr_exact [where ptr = "0x1000" and v = demo_env and s = "''/a''"] demo_ptr(1) by (simp add: demo_env_def)
qed

end
