(* ===== verification/Spec2Isabelle.thy ===== *)
theory Spec2Isabelle
  imports Pipe_Counts Vfs_Calls
begin

text \<open>
  Verification of the Qunix kernel.  All paths below are relative to \<open>src/kernel/src\<close>.

  \<^bold>\<open>The program.\<close>  Qunix is a monolithic kernel.  Physical memory is handed out frame by frame; processes
  are scheduled from per-CPU run queues, signal each other, share pipes through descriptor
  tables, and reach files through a virtual file system.  A security layer (access checks, system call
  filters, namespaces) stands in front of these services.  The theories follow this structure,
  each importing the ones it calls.

  \<^bold>\<open>How the code is modelled.\<close>  Machine integers are words of their width; sizes and indices that are \<open>usize\<close> are
  natural numbers where the code keeps them small, with the wrap-around written out where it does
  not.  A panic, an index out of bounds and a loop that does not return are \<open>None\<close>.  Errors of the file system
  layer are \<open>Inl\<close> of an error number, results of system calls are integers as in the code.  A \<open>BTreeMap\<close> is its sorted
  list of entries.  Objects behind \<open>Arc\<close> live in stores (\<open>k_pipes\<close>, \<open>k_groups\<close>) and are named by their index.
  The state of the kernel is one record, \<open>kernel\<close>, passed explicitly; a lock section is one step.
  A call that blocks is cut at \<open>block_current\<close>: it returns \<open>Blocked\<close>, and its continuation is a
  definition of its own.  Page tables, registers and user memory are hardware state: what the
  code learns from them is an argument, what it writes to user memory is logged.

  \<^bold>\<open>Theories.\<close>
  \<^item> \<open>Kernel_Prelude\<close>: words, bitmaps over arrays of words, ordered maps.  Its locales \<open>bit_set\<close> and \<open>kv_map\<close> are the
    contracts of all bitmaps and keyed tables; the bitmaps and the \<open>BTreeMap\<close> model interpret them.
  \<^item> \<open>Phys_Frames\<close>, \<open>Frame_Cache\<close>: \<open>memory/phys.rs\<close>, the buddy allocator, the per-CPU magazines, boot.  The state
    is abstracted to the set of free frames; allocation and release refine removing from and
    adding to it, and boot fills it with the usable pages of a well-formed memory map below 4 GiB.  The locale \<open>frame_allocator\<close> is the interface tmpfs relies on, interpreted on \<open>alloc_frame\<close>
    and \<open>free_frame\<close>.
  \<^item> \<open>Run_Queue\<close>, \<open>Kernel_State\<close>, \<open>Scheduler\<close>: \<open>sched/mod.rs\<close> and the process table of \<open>process/mod.rs\<close>.  A queue
    refines a stable priority list; every run of scheduler operations with priorities below 140 keeps the
    queues and bitmaps well formed and panics nowhere, and entities are unique as long as no
    task is added twice.
  \<^item> \<open>Signals\<close>: \<open>signal/mod.rs\<close>, sending, masking, default actions and both dispatch loops, with their
    termination.
  \<^item> \<open>Pipe_Buffer\<close>, \<open>Pipe_Ipc\<close>, \<open>Fd_Table\<close>, \<open>Process_Life\<close>, \<open>Pipe_Counts\<close>: \<open>ipc/pipe.rs\<close>, the descriptor part of
    \<open>process/mod.rs\<close> and \<open>syscall/handlers.rs\<close>, fork, clone, execve, exit and wait.  The ring buffer is a bounded
    stream; the end counts equal the descriptors held by living processes along every run of
    descriptor calls and forks, so that end of file is exact; exit breaks this.
  \<^item> \<open>Vfs_Types\<close>, \<open>Tmp_File\<close>, \<open>Tmpfs\<close>: the vocabulary of \<open>vfs/mod.rs\<close> and all of \<open>fs/tmpfs/mod.rs\<close>.  A paged file
    refines a list of bytes; every run of calls keeps the tree and the ownership of frames.
  \<^item> \<open>Vfs_Paths\<close>: the paths of \<open>vfs/mod.rs\<close>: normal form, changed roots, mount table and resolution with
    symbolic links, over a record \<open>fs_ops\<close> of file system operations that \<open>tmpfs_ops\<close> instantiates.
  \<^item> \<open>Vfs_Calls\<close>: the calls of \<open>vfs/mod.rs\<close> on paths and descriptors and the file system calls of \<open>syscall/handlers.rs\<close>.  They
    compose the descriptor table, the path resolution, tmpfs and the frame allocator: what is written through a new
    descriptor is read back, and a directory read in pieces is listed completely.
  \<^item> \<open>Seccomp_Bpf\<close>, \<open>Qsf_Security\<close>, \<open>Namespaces\<close>: \<open>security/\<close>, the filter validator and interpreter, access checks,
    audit log, id maps and PID namespaces.  Validated filters end at a return instruction or a division by
    zero; chains, the check of user pointers and the id maps are characterised in all cases.

  \<^bold>\<open>Bounds and fuel.\<close>  The filter interpreter runs with the budget the code gives it (1000000 steps);
  validated programs have at most 4096 instructions, jump only forward and end within it.  Loops whose end is not evident are partial functions
  (\<open>alloc_pid_loop\<close>, \<open>free_fd\<close>, \<open>init_pages\<close>); that they return is proved where it holds.  The runs of tmpfs
  have any offsets and lengths and create fewer than 2^64 inodes; that writes and truncations do not
  panic is proved for those that end at least one page below 2^64, and what truncation does beyond is a
  theorem of its own.  A call that takes the process table lock while its caller holds it never
  returns: logging filters in \<open>run_filters\<close>, missing standard descriptors in \<open>ensure_std_fd\<close>.

  \<^bold>\<open>Not modelled.\<close>  Hardware access (\<open>arch/\<close>, \<open>drivers/\<close>, \<open>drm/\<close>, the boot loader) and code that works on raw page contents
  through pointers (\<open>elf/\<close>, \<open>memory/vmm.rs\<close>, \<open>memory/thp.rs\<close>, \<open>memory/zswap.rs\<close>, \<open>io_uring/\<close>, signal frames) have no state a
  pure model could follow.  Devices, the terminal and the generated texts under \<open>/proc\<close> are arguments of the file system
  calls.  The block file systems, the network stack, message queues, semaphores, shared memory, futexes (except
  their cleanup when a thread exits), the locks of \<open>sync/\<close>, the slab caches, the pseudo file systems and the programs under \<open>src/userland\<close> are left out; each is a model of its own.
\<close>

end
